(* ===== verification/Xv6_Prelude.thy ===== *)
theory Xv6_Prelude
  imports Main "HOL-Library.Word"
begin

unbundle bit_operations_syntax

text \<open>
  Shared vocabulary of the development: the machine integers of \<^verbatim>\<open>types.h\<close>, the outcome
  of a kernel routine, the sleep channels, and the generic facts on lists, words and
  outcomes that the component theories use.

  A kernel routine either returns (\<open>Ok\<close>), calls \<open>panic()\<close> and never returns
  (\<open>Panic\<close> with the message), reads or writes through a null pointer (\<open>Fault\<close>,
  which C leaves undefined), or calls \<open>sleep()\<close> and gives the processor away
  (\<open>Sleep\<close> with the channel).
\<close>

section \<open>Machine integers and channels\<close>

type_synonym uint = "32 word"
type_synonym ushort = "16 word"
type_synonym uchar = "8 word"
type_synonym addr = "32 word"
type_synonym mem = "addr \<Rightarrow> uchar"
type_synonym block = "uchar list"

text \<open>
  A channel is the address of a kernel object. Distinct objects have distinct addresses, so
  a channel is named by the object: the table and the index in it.
\<close>

datatype chan =
    ChBuf nat
  | ChInode nat
  | ChLog
  | ChPipeRead nat
  | ChPipeWrite nat
  | ChProc nat
  | ChThread nat nat
  | ChTicks
  | ChInput

section \<open>Outcomes of kernel routines\<close>

datatype 'a res = Ok 'a | Panic string | Fault string | Sleep chan

fun rbind :: "'a res \<Rightarrow> ('a \<Rightarrow> 'b res) \<Rightarrow> 'b res" where
  "rbind (Ok x) f = f x"
| "rbind (Panic m) f = Panic m"
| "rbind (Fault m) f = Fault m"
| "rbind (Sleep c) f = Sleep c"

fun is_ok :: "'a res \<Rightarrow> bool" where
  "is_ok (Ok x) = True"
| "is_ok _ = False"

named_theorems kernel_defs "definitions of the kernel routines, unfolded by the component proofs"
named_theorems layout "sizes and positions of on-disk and in-memory structures"

lemma rbind_eq_Ok [simp]: "rbind r f = Ok y \<longleftrightarrow> (\<exists>x. r = Ok x \<and> f x = Ok y)"
  by (cases r) auto

lemma rbind_OkE [elim]:
  assumes "rbind r f = Ok y"
  obtains x where "r = Ok x" and "f x = Ok y"
  using assms by auto

lemma rbind_assoc: "rbind (rbind r f) g = rbind r (\<lambda>x. rbind (f x) g)"
  by (cases r) auto

lemma rbind_cong [fundef_cong]:
  "r = r' \<Longrightarrow> (\<And>x. r' = Ok x \<Longrightarrow> f x = g x) \<Longrightarrow> rbind r f = rbind r' g"
  by (cases r') auto

lemma is_ok_iff: "is_ok r \<longleftrightarrow> (\<exists>x. r = Ok x)"
  by (cases r) auto

section \<open>Constants of param.h, memlayout.h and mmu.h\<close>

abbreviation (input) NPROC :: nat where "NPROC \<equiv> 64"
abbreviation (input) NTHREAD :: nat where "NTHREAD \<equiv> 16"
abbreviation (input) NOFILE :: nat where "NOFILE \<equiv> 16"
abbreviation (input) NBUF :: nat where "NBUF \<equiv> 30"
abbreviation (input) MAXOPBLOCKS :: nat where "MAXOPBLOCKS \<equiv> 10"
abbreviation (input) LOGSIZE :: nat where "LOGSIZE \<equiv> 30"
abbreviation (input) BSIZE :: nat where "BSIZE \<equiv> 512"
abbreviation (input) PGSIZE :: uint where "PGSIZE \<equiv> 0x1000"
abbreviation (input) KSTACKSIZE :: uint where "KSTACKSIZE \<equiv> 0x1000"
abbreviation (input) KERNBASE :: uint where "KERNBASE \<equiv> 0x80000000"
abbreviation (input) PHYSTOP :: uint where "PHYSTOP \<equiv> 0xE000000"

definition v2p :: "addr \<Rightarrow> uint" where
  "v2p a = a - KERNBASE"

definition p2v :: "uint \<Rightarrow> addr" where
  "p2v a = a + KERNBASE"

lemma p2v_v2p [simp]: "p2v (v2p a) = a" and v2p_p2v [simp]: "v2p (p2v a) = a"
  by (simp_all add: p2v_def v2p_def)

definition PGROUNDUP :: "uint \<Rightarrow> uint" where
  "PGROUNDUP sz = (sz + PGSIZE - 1) AND NOT (PGSIZE - 1)"

definition PGROUNDDOWN :: "uint \<Rightarrow> uint" where
  "PGROUNDDOWN a = a AND NOT (PGSIZE - 1)"

section \<open>Bytes of a 32-bit word (little endian)\<close>

definition byte_of :: "nat \<Rightarrow> uint \<Rightarrow> uchar" where
  "byte_of k v = ucast (drop_bit (8 * k) v)"

definition word_of_bytes :: "uchar \<Rightarrow> uchar \<Rightarrow> uchar \<Rightarrow> uchar \<Rightarrow> uint" where
  "word_of_bytes b0 b1 b2 b3 =
     ucast b0 OR push_bit 8 (ucast b1) OR push_bit 16 (ucast b2) OR push_bit 24 (ucast b3)"

lemma word_of_bytes_byte_of [simp]:
  "word_of_bytes (byte_of 0 v) (byte_of (Suc 0) v) (byte_of 2 v) (byte_of 3 v) = v"
proof (rule bit_word_eqI)
  fix n assume n: "n < LENGTH(32)"
  then consider "n < 8" | "8 \<le> n \<and> n < 16" | "16 \<le> n \<and> n < 24" | "24 \<le> n \<and> n < 32"
    by fastforce
  then show "bit (word_of_bytes (byte_of 0 v) (byte_of (Suc 0) v) (byte_of 2 v) (byte_of 3 v)) n = bit v n"
    by cases (auto simp: word_of_bytes_def byte_of_def bit_simps)
qed

lemma bit_uchar_ge [simp]: "8 \<le> n \<Longrightarrow> \<not> bit (b :: uchar) n"
  using bit_imp_le_length by fastforce

lemma byte_of_word_of_bytes [simp]:
  "byte_of 0 (word_of_bytes b0 b1 b2 b3) = b0"
  "byte_of (Suc 0) (word_of_bytes b0 b1 b2 b3) = b1"
  "byte_of 2 (word_of_bytes b0 b1 b2 b3) = b2"
  "byte_of 3 (word_of_bytes b0 b1 b2 b3) = b3"
  by (auto intro!: bit_word_eqI simp: word_of_bytes_def byte_of_def bit_simps)

section \<open>Page rounding\<close>

lemma and_not_page_mask: "(a :: uint) AND NOT (PGSIZE - 1) = push_bit 12 (drop_bit 12 a)"
proof -
  have "PGSIZE - 1 = (mask 12 :: uint)" by (simp add: mask_eq_exp_minus_1)
  moreover have "a AND NOT (mask 12) = push_bit 12 (drop_bit 12 a)"
    by (auto intro!: bit_word_eqI simp: bit_simps)
  ultimately show ?thesis by (simp only:)
qed

lemma PGROUNDDOWN_div: "PGROUNDDOWN a = a div PGSIZE * PGSIZE"
  unfolding PGROUNDDOWN_def and_not_page_mask by (simp add: push_bit_eq_mult drop_bit_eq_div)

lemma PGROUNDUP_div: "PGROUNDUP a = (a + PGSIZE - 1) div PGSIZE * PGSIZE"
  unfolding PGROUNDUP_def and_not_page_mask by (simp add: push_bit_eq_mult drop_bit_eq_div)

lemma unat_page_div_mult: "unat ((a :: uint) div PGSIZE * PGSIZE) = unat a div 4096 * 4096"
proof -
  have "unat a div 4096 * 4096 < 2 ^ 32"
    using unsigned_less[of a, where 'a = nat] by (simp add: le_less_trans[OF div_times_less_eq_dividend])
  then show ?thesis by (simp add: unat_word_ariths unat_div)
qed

lemma unat_PGROUNDDOWN: "unat (PGROUNDDOWN a) = unat a div 4096 * 4096"
  by (simp only: PGROUNDDOWN_div unat_page_div_mult)

lemma unat_PGROUNDUP:
  assumes "unat a + 4095 < 2 ^ 32"
  shows "unat (PGROUNDUP a) = (unat a + 4095) div 4096 * 4096"
proof -
  have "unat (a + PGSIZE - 1) = unat a + 4095" using assms by (simp add: unat_word_ariths)
  then show ?thesis by (simp only: PGROUNDUP_div unat_page_div_mult)
qed

lemma round_up_bounds: "x \<le> (x + 4095) div 4096 * 4096" "(x + 4095) div 4096 * 4096 \<le> x + (4095 :: nat)"
  using div_mult_mod_eq[of "x + 4095" 4096] mod_less_divisor[of 4096 "x + 4095"] by linarith+

lemma PGROUNDUP_aligned: "PGROUNDUP a mod PGSIZE = 0"
proof -
  have "unat (PGROUNDUP a) mod 4096 = 0" by (simp only: PGROUNDUP_div unat_page_div_mult mod_mult_self2_is_0)
  then show ?thesis by (simp add: word_eq_iff_unsigned[where 'a = nat] unat_mod)
qed

end
