(* ===== verification/Xv6_String.thy ===== *)
theory Xv6_String
  imports Xv6_Prelude
begin

text \<open>
  \<^verbatim>\<open>string.c\<close>: the kernel's memory and string routines, over a byte-addressed memory with
  32-bit pointers that wrap around. The string instructions \<open>rep stosb\<close> and
  \<open>rep stosl\<close> of \<^verbatim>\<open>x86.h\<close> are the loops they execute.
\<close>

section \<open>Typed access to the byte memory\<close>

definition load32 :: "mem \<Rightarrow> addr \<Rightarrow> uint" where
  "load32 m a = word_of_bytes (m a) (m (a + 1)) (m (a + 2)) (m (a + 3))"

definition store32 :: "mem \<Rightarrow> addr \<Rightarrow> uint \<Rightarrow> mem" where
  "store32 m a v =
     m(a := byte_of 0 v, a + 1 := byte_of 1 v, a + 2 := byte_of 2 v, a + 3 := byte_of 3 v)"

lemma load32_store32 [simp]: "load32 (store32 m a v) a = v"
  by (simp add: load32_def store32_def)

section \<open>memset\<close>

fun stosb :: "mem \<Rightarrow> addr \<Rightarrow> uchar \<Rightarrow> nat \<Rightarrow> mem" where
  "stosb m a c 0 = m"
| "stosb m a c (Suc n) = stosb (m(a := c)) (a + 1) c n"

fun stosl :: "mem \<Rightarrow> addr \<Rightarrow> uint \<Rightarrow> nat \<Rightarrow> mem" where
  "stosl m a w 0 = m"
| "stosl m a w (Suc n) = stosl (store32 m a w) (a + 4) w n"

definition memset :: "mem \<Rightarrow> addr \<Rightarrow> uint \<Rightarrow> uint \<Rightarrow> mem" where
  "memset m dst c n =
     (if dst mod 4 = 0 \<and> n mod 4 = 0
      then (let c = c AND 0xFF
            in stosl m dst (push_bit 24 c OR push_bit 16 c OR push_bit 8 c OR c) (unat (n div 4)))
      else stosb m dst (ucast c) (unat n))"

section \<open>memcmp, memmove, memcpy\<close>

fun memcmp :: "mem \<Rightarrow> addr \<Rightarrow> addr \<Rightarrow> nat \<Rightarrow> int" where
  "memcmp m s1 s2 0 = 0"
| "memcmp m s1 s2 (Suc n) =
     (if m s1 \<noteq> m s2 then uint (m s1) - uint (m s2) else memcmp m (s1 + 1) (s2 + 1) n)"

fun move_forward :: "mem \<Rightarrow> addr \<Rightarrow> addr \<Rightarrow> nat \<Rightarrow> mem" where
  "move_forward m d s 0 = m"
| "move_forward m d s (Suc n) = move_forward (m(d := m s)) (d + 1) (s + 1) n"

fun move_backward :: "mem \<Rightarrow> addr \<Rightarrow> addr \<Rightarrow> nat \<Rightarrow> mem" where
  "move_backward m d s 0 = m"
| "move_backward m d s (Suc n) = move_backward (m(d - 1 := m (s - 1))) (d - 1) (s - 1) n"

definition memmove :: "mem \<Rightarrow> addr \<Rightarrow> addr \<Rightarrow> uint \<Rightarrow> mem" where
  "memmove m dst src n =
     (if src < dst \<and> src + n > dst
      then move_backward m (dst + n) (src + n) (unat n)
      else move_forward m dst src (unat n))"

definition memcpy :: "mem \<Rightarrow> addr \<Rightarrow> addr \<Rightarrow> uint \<Rightarrow> mem" where
  "memcpy m dst src n = memmove m dst src n"

section \<open>Strings\<close>

fun strncmp :: "mem \<Rightarrow> addr \<Rightarrow> addr \<Rightarrow> nat \<Rightarrow> int" where
  "strncmp m p q 0 = 0"
| "strncmp m p q (Suc n) =
     (if m p \<noteq> 0 \<and> m p = m q then strncmp m (p + 1) (q + 1) n
      else uint (m p) - uint (m q))"

fun strncpy_loop :: "mem \<Rightarrow> addr \<Rightarrow> addr \<Rightarrow> nat \<Rightarrow> mem" where
  "strncpy_loop m s t 0 = m"
| "strncpy_loop m s t (Suc n) =
     (let m' = m(s := m t)
      in if m t \<noteq> 0 then strncpy_loop m' (s + 1) (t + 1) n else stosb m' (s + 1) 0 n)"

definition strncpy :: "mem \<Rightarrow> addr \<Rightarrow> addr \<Rightarrow> int \<Rightarrow> mem" where
  "strncpy m s t n = strncpy_loop m s t (nat n)"

fun safestrcpy_loop :: "mem \<Rightarrow> addr \<Rightarrow> addr \<Rightarrow> nat \<Rightarrow> mem" where
  "safestrcpy_loop m s t 0 = m(s := 0)"
| "safestrcpy_loop m s t (Suc n) =
     (let m' = m(s := m t)
      in if m t \<noteq> 0 then safestrcpy_loop m' (s + 1) (t + 1) n else m'(s + 1 := 0))"

definition safestrcpy :: "mem \<Rightarrow> addr \<Rightarrow> addr \<Rightarrow> int \<Rightarrow> mem" where
  "safestrcpy m s t n = (if n \<le> 0 then m else safestrcpy_loop m s t (nat (n - 1)))"

partial_function (option) strlen_loop :: "mem \<Rightarrow> addr \<Rightarrow> nat \<Rightarrow> nat option" where
  "strlen_loop m s n = (if m (s + of_nat n) = 0 then Some n else strlen_loop m s (Suc n))"

definition strlen :: "mem \<Rightarrow> addr \<Rightarrow> nat option" where
  "strlen m s = strlen_loop m s 0"

text \<open>The NUL-terminated string stored at an address.\<close>

fun cstr :: "mem \<Rightarrow> addr \<Rightarrow> uchar list \<Rightarrow> bool" where
  "cstr m a [] \<longleftrightarrow> m a = 0"
| "cstr m a (c # cs) \<longleftrightarrow> c \<noteq> 0 \<and> m a = c \<and> cstr m (a + 1) cs"

section \<open>Correctness of the memory routines\<close>

lemma unat_diff_less:
  fixes x k :: addr
  assumes "unat k \<le> unat x"
  shows "unat (x - k) = unat x - unat k"
  using assms by (simp add: unat_sub word_le_nat_alt)

lemma unat_diff_wrap:
  fixes x k :: addr
  assumes "unat x < unat k"
  shows "unat (x - k) = 2 ^ 32 + unat x - unat k"
  using assms by (simp add: unat_sub_if')

lemma unat_minus_4:
  "unat ((x::addr) - 4) = (if 4 \<le> unat x then unat x - 4 else 2 ^ 32 + unat x - 4)"
  by (simp add: unat_sub_if' word_le_nat_alt)

lemma unat_minus_1:
  "unat ((x::addr) - 1) = (if x = 0 then 2 ^ 32 - 1 else unat x - 1)"
proof (cases "x = 0")
  case True
  then show ?thesis by (simp add: unsigned_minus_1_eq_mask mask_eq_exp_minus_1)
next
  case False
  then show ?thesis by (simp add: unat_minus_one)
qed

lemma stosb_apply:
  "n \<le> 2 ^ 32 \<Longrightarrow> stosb m d c n a = (if unat (a - d) < n then c else m a)"
proof (induction n arbitrary: m d a)
  case (Suc n)
  have "unat (a - (d + 1)) = (if a = d then 2 ^ 32 - 1 else unat (a - d) - 1)"
    using unat_minus_1[of "a - d"] by (simp add: diff_diff_eq)
  moreover have "0 < unat (a - d)" if "a \<noteq> d"
    using that by (simp add: unat_gt_0)
  moreover have "n \<le> 2 ^ 32" using Suc.prems by simp
  ultimately show ?case
    using Suc.prems by (cases "a = d") (simp_all add: Suc.IH less_diff_conv2 Suc_le_eq)
qed simp

lemma unat_less_4_cases:
  fixes k :: addr
  assumes "unat k < 4"
  shows "k = 0 \<or> k = 1 \<or> k = 2 \<or> k = 3"
proof -
  have "unat k \<in> {0, 1, 2, 3}" using assms by auto
  then have "(of_nat (unat k) :: addr) \<in> of_nat ` {0, 1, 2, 3}" by (rule imageI)
  then show ?thesis by simp
qed

lemma store32_apply:
  "store32 m a v b = (if unat (b - a) < 4 then byte_of (unat (b - a)) v else m b)"
proof (cases "unat (b - a) < 4")
  case True
  then have "b - a = 0 \<or> b - a = 1 \<or> b - a = 2 \<or> b - a = 3"
    by (rule unat_less_4_cases)
  then have "b = a \<or> b = a + 1 \<or> b = a + 2 \<or> b = a + 3"
    by (auto simp: algebra_simps)
  then show ?thesis by (auto simp: store32_def)
next
  case False
  then have "b \<noteq> a" "b \<noteq> a + 1" "b \<noteq> a + 2" "b \<noteq> a + 3" by auto
  with False show ?thesis by (simp add: store32_def)
qed

lemma store32_other: "4 \<le> unat (b - a) \<Longrightarrow> store32 m a v b = m b"
  by (simp add: store32_apply)

lemma unat_apart_add:
  fixes a b i :: addr
  assumes "0 < N" and "N \<le> unat (b - a)" and "4 \<le> unat (a - b)" and "unat i < 4"
  shows "N \<le> unat (b + i - a)"
proof -
  define x where "x = b - a"
  have "x \<noteq> 0" using assms(1,2) by (auto simp: x_def)
  moreover have "a - b = 0 - x" by (simp add: x_def)
  ultimately have "unat (a - b) = 2 ^ 32 - unat x"
    by (simp only: unat_sub_if') (simp add: unat_gt_0)
  with assms have "unat x + unat i < 2 ^ 32" by simp
  then have "unat (x + i) = unat x + unat i" by (simp add: unat_word_ariths)
  moreover have "b + i - a = x + i" by (simp add: x_def)
  moreover have "N \<le> unat x" using assms(2) by (simp add: x_def)
  ultimately show ?thesis by (simp only:)
qed

lemma load32_store32_other:
  assumes "4 \<le> unat (b - a)" and "4 \<le> unat (a - b)"
  shows "load32 (store32 m a v) b = load32 m b"
  using assms unat_apart_add[OF _ assms, of 1] unat_apart_add[OF _ assms, of 2] unat_apart_add[OF _ assms, of 3]
  by (simp add: load32_def store32_other)

lemma stosl_apply:
  "4 * n \<le> 2 ^ 32 \<Longrightarrow>
   stosl m d w n a = (if unat (a - d) < 4 * n then byte_of (unat (a - d) mod 4) w else m a)"
proof (induction n arbitrary: m d a)
  case (Suc n)
  have "unat (a - (d + 4)) = (if 4 \<le> unat (a - d) then unat (a - d) - 4 else 2 ^ 32 + unat (a - d) - 4)"
    using unat_minus_4[of "a - d"] by (simp add: diff_diff_eq)
  moreover have "(unat (a - d) - 4) mod 4 = unat (a - d) mod 4" if "4 \<le> unat (a - d)"
    using le_mod_geq[OF that] by simp
  moreover have "stosl m d w (Suc n) a =
      (if unat (a - (d + 4)) < 4 * n then byte_of (unat (a - (d + 4)) mod 4) w else store32 m d w a)"
    using Suc.prems Suc.IH[where m = "store32 m d w" and d = "d + 4"] by simp
  ultimately show ?case
    using Suc.prems by (cases "4 \<le> unat (a - d)") (auto simp: store32_apply)
qed simp

lemma byte_of_replicated:
  assumes "k < 4"
  shows "byte_of k (let c = c AND 0xFF in push_bit 24 c OR push_bit 16 c OR push_bit 8 c OR c) = ucast (c::uint)"
proof -
  have k: "k = 0 \<or> k = 1 \<or> k = 2 \<or> k = 3" using assms by auto
  have ff: "bit (0xFF :: int) n \<longleftrightarrow> n < 8" for n
    using bit_mask_iff[where 'a = int, of 8 n] by (auto simp: mask_eq_exp_minus_1)
  show ?thesis
    using k by (elim disjE; intro bit_word_eqI) (auto simp: byte_of_def bit_simps ff)
qed

lemma unat_uint_le: "unat (n::uint) \<le> 2 ^ 32"
  using unsigned_less[of n, where 'a = nat] by simp

lemma unat_div_4: "(n::uint) mod 4 = 0 \<Longrightarrow> 4 * unat (n div 4) = unat n"
proof -
  assume "n mod 4 = 0"
  then have "unat n mod 4 = 0" using unat_mod[of n 4] by simp
  then show ?thesis by (simp add: unat_div) presburger
qed

text \<open>\<open>memset\<close> fills exactly the \<open>n\<close> bytes at \<open>dst\<close> with the low byte of \<open>c\<close>,
  whichever of its two store loops (words or bytes) it picks, and changes nothing else.\<close>

lemma memset_apply:
  "memset m dst c n = (\<lambda>a. if a - dst < n then ucast c else m a)"
proof
  fix a
  show "memset m dst c n a = (if a - dst < n then ucast c else m a)"
  proof (cases "dst mod 4 = 0 \<and> n mod 4 = 0")
    case True
    then have "4 * unat (n div 4) = unat n" by (simp add: unat_div_4)
    moreover have "\<exists>w. memset m dst c n = stosl m dst w (unat (n div 4)) \<and> (\<forall>k<4. byte_of k w = ucast c)"
      using True byte_of_replicated unfolding memset_def Let_def by (metis if_P)
    moreover have "4 * unat (n div 4) \<le> 2 ^ 32"
      using unat_uint_le[of n] calculation by simp
    note stosl_apply[OF this]
    ultimately show ?thesis
      by (auto simp: word_less_nat_alt)
  next
    case False
    then have "memset m dst c n = stosb m dst (ucast c) (unat n)"
      unfolding memset_def by (rule if_not_P)
    with stosb_apply[OF unat_uint_le] show ?thesis
      by (simp add: word_less_nat_alt)
  qed
qed

lemma unat_less_Suc_cases:
  fixes k :: addr
  assumes "unat k < Suc n"
  obtains "unat k < n" | "k = of_nat n"
proof (cases "unat k < n")
  case False
  with assms have "unat k = n" by simp
  then have "k = of_nat n" by auto
  then show ?thesis by (rule that(2))
qed (rule that(1))

lemma move_forward_apply:
  assumes "n \<le> 2 ^ 32"
    and "\<And>i j. i < n \<Longrightarrow> j < i \<Longrightarrow> d + of_nat j \<noteq> s + of_nat i"
  shows "move_forward m d s n a = (if unat (a - d) < n then m (s + (a - d)) else m a)"
  using assms
proof (induction n arbitrary: m d s)
  case (Suc n)
  have sep: "(d + 1) + of_nat j \<noteq> (s + 1) + of_nat i" if "i < n" "j < i" for i j
    using Suc.prems(2)[of "Suc i" "Suc j"] that by (simp add: algebra_simps)
  have hd: "s + k \<noteq> d" if "k \<noteq> 0" "unat k < Suc n" for k
    using Suc.prems(2)[of "unat k" 0] that by (simp add: unat_gt_0)
  have u: "unat (a - (d + 1)) = (if a = d then 2 ^ 32 - 1 else unat (a - d) - 1)"
    using unat_minus_1[of "a - d"] by (simp add: diff_diff_eq)
  have "move_forward m d s (Suc n) a =
      (if unat (a - (d + 1)) < n then (m(d := m s)) (s + 1 + (a - (d + 1))) else (m(d := m s)) a)"
    unfolding move_forward.simps by (rule Suc.IH) (use sep Suc.prems(1) in auto)
  also have "s + 1 + (a - (d + 1)) = s + (a - d)" by simp
  finally show ?case
    using u hd[of "a - d"] Suc.prems(1) unat_gt_0[of "a - d"] by (cases "a = d") auto
qed simp

lemma move_backward_apply:
  assumes "n \<le> 2 ^ 32"
    and "\<And>i j. j < n \<Longrightarrow> i < j \<Longrightarrow> d + of_nat j \<noteq> s + of_nat i"
  shows "move_backward m (d + of_nat n) (s + of_nat n) n a =
    (if unat (a - d) < n then m (s + (a - d)) else m a)"
  using assms
proof (induction n arbitrary: m)
  case (Suc n)
  have "move_backward m (d + of_nat (Suc n)) (s + of_nat (Suc n)) (Suc n) a =
      move_backward (m(d + of_nat n := m (s + of_nat n))) (d + of_nat n) (s + of_nat n) n a"
    by (simp add: algebra_simps)
  also have "\<dots> = (if unat (a - d) < n then (m(d + of_nat n := m (s + of_nat n))) (s + (a - d))
      else (m(d + of_nat n := m (s + of_nat n))) a)"
    using Suc.IH Suc.prems by simp
  also have "\<dots> = (if unat (a - d) < Suc n then m (s + (a - d)) else m a)"
  proof (cases "unat (a - d) < n")
    case True
    then have "d + of_nat n \<noteq> s + of_nat (unat (a - d))" by (intro Suc.prems(2)) auto
    with True show ?thesis by auto
  next
    case False
    have "unat (of_nat n :: addr) = n" using Suc.prems(1) by (simp add: unat_of_nat)
    with False show ?thesis
      by (cases "a - d = of_nat n") (auto elim: unat_less_Suc_cases simp: algebra_simps)
  qed
  finally show ?case .
qed simp

lemma memmove_apply:
  assumes "unat src + unat n < 2 ^ 32" and "unat dst + unat n \<le> 2 ^ 32"
  shows "memmove m dst src n = (\<lambda>a. if a - dst < n then m (src + (a - dst)) else m a)"
proof
  fix a
  have add: "unat (x + of_nat i) = unat x + i" if "i < unat n" "unat x + unat n \<le> 2 ^ 32" for x :: addr and i
    using that by (simp add: unat_word_ariths unat_of_nat)
  have ne: "dst + of_nat j \<noteq> src + of_nat i" if "i < unat n" "j < unat n" "unat dst + j \<noteq> unat src + i" for i j
    using add[OF that(2) assms(2)] add[OF that(1)] assms(1) that(3) by (metis less_imp_le)
  show "memmove m dst src n a = (if a - dst < n then m (src + (a - dst)) else m a)"
  proof (cases "src < dst \<and> src + n > dst")
    case True
    then have "memmove m dst src n = move_backward m (dst + of_nat (unat n)) (src + of_nat (unat n)) (unat n)"
      by (simp add: memmove_def)
    then show ?thesis
      using True unat_uint_le[of n] ne
      by (subst \<open>memmove m dst src n = _\<close>, subst move_backward_apply) (auto simp: word_less_nat_alt)
  next
    case False
    then have "unat dst \<le> unat src \<or> unat src + unat n \<le> unat dst"
      using assms(1) by (auto simp: word_less_nat_alt unat_word_ariths not_less)
    then have "move_forward m dst src (unat n) a = (if unat (a - dst) < unat n then m (src + (a - dst)) else m a)"
      by (intro move_forward_apply unat_uint_le ne) auto
    moreover from False have "memmove m dst src n = move_forward m dst src (unat n)"
      unfolding memmove_def by (rule if_not_P)
    ultimately show ?thesis by (simp add: word_less_nat_alt)
  qed
qed

text \<open>C33: \<open>memmove\<close> copies correctly when source and destination overlap: the \<open>n\<close> bytes at
  \<open>dst\<close> become the \<open>n\<close> bytes that were at \<open>src\<close> before the call, and every other byte
  keeps its value. The two areas must not run past the end of the address space.\<close>

theorem memmove_correct:
  assumes "unat src + unat n < 2 ^ 32" and "unat dst + unat n \<le> 2 ^ 32"
  shows "memmove m dst src n = (\<lambda>a. if a - dst < n then m (src + (a - dst)) else m a)"
  using assms by (rule memmove_apply)

theorem memmove_correct_witness:
  "unat (0x1000 :: addr) + unat (16 :: uint) < 2 ^ 32 \<and> unat (0x1004 :: addr) + unat (16 :: uint) \<le> 2 ^ 32 \<and>
   memmove (\<lambda>a. ucast a) 0x1004 0x1000 16 0x1008 = (4 :: uchar)"
  using memmove_correct[of "0x1000" 16 "0x1004"] by simp

section \<open>Correctness of the string routines\<close>

lemma strlen_loop_cstr:
  "cstr m (s + of_nat k) cs \<Longrightarrow> strlen_loop m s k = Some (k + length cs)"
proof (induction cs arbitrary: k)
  case Nil
  then show ?case by (simp add: strlen_loop.simps)
next
  case (Cons c cs)
  then have "strlen_loop m s (Suc k) = Some (Suc k + length cs)"
    by (intro Cons.IH) (simp add: algebra_simps)
  with Cons.prems show ?case by (simp add: strlen_loop.simps[of m s k])
qed

lemma strlen_cstr: "cstr m s cs \<Longrightarrow> strlen m s = Some (length cs)"
  using strlen_loop_cstr[of m s 0 cs] by (simp add: strlen_def)

text \<open>\<open>strncmp\<close> returns 0 exactly when the two strings agree on their first \<open>n\<close>
  characters (the comparison of directory entry names in \<open>namecmp\<close>).\<close>

theorem strncmp_zero_iff:
  assumes "cstr m p cs" and "cstr m q ds"
  shows "strncmp m p q n = 0 \<longleftrightarrow> take n cs = take n ds"
  using assms
proof (induction n arbitrary: p q cs ds)
  case (Suc n)
  show ?case
  proof (cases cs; cases ds)
    fix c cs' d ds' assume "cs = c # cs'" "ds = d # ds'"
    with Suc.prems Suc.IH[of "p + 1" cs' "q + 1" ds'] show ?thesis
      by (auto dest: word_uint_eqI)
  qed (use Suc.prems in \<open>auto simp: unsigned_eq_0_iff\<close>)
qed simp

theorem strncmp_zero_iff_witness:
  "strncmp ((\<lambda>_. 0)(0 := 97, 1 := 98, 8 := 97, 9 := 99)) 0 8 1 = 0"
  using strncmp_zero_iff[of "(\<lambda>_. 0)(0 := 97, 1 := 98, 8 := 97, 9 := 99)" 0 "[97, 98]" 8 "[97, 99]" 1]
  by simp

lemma cstr_upd:
  "cstr m t cs \<Longrightarrow> (\<And>k. k \<le> length cs \<Longrightarrow> t + of_nat k \<noteq> a) \<Longrightarrow> cstr (m(a := v)) t cs"
proof (induction cs arbitrary: t)
  case Nil
  then show ?case using Nil.prems(2)[of 0] by simp
next
  case (Cons c cs)
  have "cstr (m(a := v)) (t + 1) cs"
  proof (rule Cons.IH)
    show "cstr m (t + 1) cs" using Cons.prems(1) by simp
    show "t + 1 + of_nat k \<noteq> a" if "k \<le> length cs" for k
      using Cons.prems(2)[of "Suc k"] that by (simp add: algebra_simps)
  qed
  moreover have "t \<noteq> a" using Cons.prems(2)[of 0] by simp
  ultimately show ?case using Cons.prems(1) by (simp del: fun_upd_apply add: fun_upd_other)
qed

lemma unat_shift_both:
  fixes s t :: addr
  assumes "Suc n < unat (t + of_nat (Suc k) - s)"
  shows "n < unat (t + 1 + of_nat k - (s + 1))"
proof -
  define x where "x = t + of_nat k - s"
  have "unat (x + 1) \<le> Suc (unat x)" by (simp add: unat_word_ariths)
  moreover have "t + of_nat (Suc k) - s = x + 1" "t + 1 + of_nat k - (s + 1) = x"
    by (simp_all add: x_def)
  ultimately show ?thesis using assms by (simp only:)
qed

lemma safestrcpy_loop_correct:
  assumes "cstr m t cs" and "n < 2 ^ 32 - 1"
    and "\<And>k. k \<le> length cs \<Longrightarrow> n < unat (t + of_nat k - s)"
  shows "cstr (safestrcpy_loop m s t n) s (take n cs) \<and>
    (\<forall>a. n < unat (a - s) \<longrightarrow> safestrcpy_loop m s t n a = m a)"
  using assms
proof (induction n arbitrary: m s t cs)
  case (Suc n)
  have ws: "unat (s - (s + 1)) = 2 ^ 32 - 1"
    using unat_minus_1[of 0] by simp
  have wa: "n < unat (a - (s + 1)) \<and> a \<noteq> s \<and> a \<noteq> s + 1" if "Suc n < unat (a - s)" for a
    using that unat_minus_1[of "a - s"] by (auto simp: diff_diff_eq)
  show ?case
  proof (cases cs)
    case Nil
    with Suc.prems(1) wa show ?thesis by (auto simp: Let_def)
  next
    case (Cons c cs')
    define m' where "m' = m(s := c)"
    have "cstr m' (t + 1) cs'"
      unfolding m'_def
    proof (rule cstr_upd)
      show "cstr m (t + 1) cs'" using Suc.prems(1) Cons by simp
      show "t + 1 + of_nat k \<noteq> s" if "k \<le> length cs'" for k
        using Suc.prems(3)[of "Suc k"] that Cons by (auto simp: algebra_simps)
    qed
    moreover have "n < unat (t + 1 + of_nat k - (s + 1))" if "k \<le> length cs'" for k
      using Suc.prems(3)[of "Suc k"] that Cons by (intro unat_shift_both) simp
    ultimately have IH: "cstr (safestrcpy_loop m' (s + 1) (t + 1) n) (s + 1) (take n cs')"
        "\<And>a. n < unat (a - (s + 1)) \<Longrightarrow> safestrcpy_loop m' (s + 1) (t + 1) n a = m' a"
      using Suc.IH[of m' "t + 1" cs' "s + 1"] Suc.prems(2) by auto
    have "safestrcpy_loop m s t (Suc n) = safestrcpy_loop m' (s + 1) (t + 1) n"
      using Suc.prems(1) Cons by (simp add: m'_def)
    moreover have "safestrcpy_loop m' (s + 1) (t + 1) n s = c"
      using IH(2)[of s] ws Suc.prems(2) by (simp add: m'_def)
    ultimately show ?thesis
      using IH wa Cons Suc.prems(1) by (auto simp: m'_def)
  qed
qed auto

text \<open>C40: \<open>safestrcpy\<close> always leaves a NUL-terminated string at \<open>s\<close>, the first \<open>n - 1\<close>
  characters of the source, and writes only the \<open>n\<close> bytes at \<open>s\<close>. The source string must
  not overlap the destination buffer.\<close>

theorem safestrcpy_correct:
  assumes "cstr m t cs" and "0 < n" and "n < 2 ^ 31"
    and "\<And>k. k \<le> length cs \<Longrightarrow> nat n \<le> unat (t + of_nat k - s)"
  shows "cstr (safestrcpy m s t n) s (take (nat (n - 1)) cs) \<and>
    (\<forall>a. nat n \<le> unat (a - s) \<longrightarrow> safestrcpy m s t n a = m a)"
proof -
  have "nat (n - 1) < 2 ^ 32 - 1" using assms(2,3) by simp
  moreover have "nat (n - 1) < k \<longleftrightarrow> nat n \<le> k" for k using assms(2) by auto
  ultimately show ?thesis
    using safestrcpy_loop_correct[of m t cs "nat (n - 1)" s] assms by (simp add: safestrcpy_def)
qed

theorem safestrcpy_correct_witness:
  "cstr (safestrcpy ((\<lambda>_. 7)(0 := 97, 1 := 98, 2 := 99, 3 := 0)) 100 0 3) 100 [97, 98]"
proof -
  have "nat 3 \<le> unat (0 + of_nat k - (100 :: addr))" if "k \<le> length [97, 98, 99 :: uchar]" for k
  proof -
    have "k = 0 \<or> k = 1 \<or> k = 2 \<or> k = 3" using that by auto
    then show ?thesis by auto
  qed
  then show ?thesis
    using safestrcpy_correct[of "(\<lambda>_. 7)(0 := 97, 1 := 98, 2 := 99, 3 := 0)" 0 "[97, 98, 99]" 3 100]
    by simp
qed

end
