(* ===== verification/Xv6_Spinlock.thy ===== *)
theory Xv6_Spinlock
  imports Xv6_String
begin

text \<open>
  \<^verbatim>\<open>spinlock.c\<close>: the per-CPU interrupt nesting (\<open>pushcli\<close>, \<open>popcli\<close>), the lock operations,
  and a small-step machine in which any number of CPUs run \<open>acquire\<close> and \<open>release\<close> on one
  lock, one memory access at a time. Its invariant gives mutual exclusion, that interrupts
  are off inside the critical section, and that none of the panics of the file is reached.
\<close>

section \<open>State and operations\<close>

record spinlock =
  locked :: uint
  lname :: string
  lcpu :: "nat option"
  pcs :: "uint list"

text \<open>The fields of \<open>struct cpu\<close> that the file uses, and the interrupt flag \<open>FL_IF\<close> of the CPU.\<close>

record cpu =
  ncli :: int
  intena :: bool
  fl_if :: bool

definition initlock :: "spinlock \<Rightarrow> string \<Rightarrow> spinlock" where
  "initlock lk nm = lk\<lparr>lname := nm, locked := 0, lcpu := None\<rparr>"

definition holding :: "spinlock \<Rightarrow> nat \<Rightarrow> bool" where
  "holding lk me \<longleftrightarrow> locked lk \<noteq> 0 \<and> lcpu lk = Some me"

definition xchg :: "spinlock \<Rightarrow> uint \<Rightarrow> uint \<times> spinlock" where
  "xchg lk v = (locked lk, lk\<lparr>locked := v\<rparr>)"

definition pushcli :: "cpu \<Rightarrow> cpu" where
  "pushcli c =
     (let eflags = fl_if c; c = c\<lparr>fl_if := False\<rparr>; n = ncli c; c = c\<lparr>ncli := n + 1\<rparr>
      in if n = 0 then c\<lparr>intena := eflags\<rparr> else c)"

definition popcli :: "cpu \<Rightarrow> cpu res" where
  "popcli c =
     (if fl_if c then Panic ''popcli - interruptible''
      else let c = c\<lparr>ncli := ncli c - 1\<rparr>
        in if ncli c < 0 then Panic ''popcli''
        else if ncli c = 0 \<and> intena c then Ok (c\<lparr>fl_if := True\<rparr>)
        else Ok c)"

text \<open>Following the chain of saved frame pointers: ten slots, the rest filled with 0.\<close>

fun getcallerpcs :: "mem \<Rightarrow> addr \<Rightarrow> nat \<Rightarrow> uint list" where
  "getcallerpcs m ebp 0 = []"
| "getcallerpcs m ebp (Suc n) =
     (if ebp = 0 \<or> ebp < KERNBASE \<or> ebp = 0xffffffff then replicate (Suc n) 0
      else load32 m (ebp + 4) # getcallerpcs m (load32 m ebp) n)"

definition getcallerpcs_of :: "mem \<Rightarrow> addr \<Rightarrow> uint list" where
  "getcallerpcs_of m v = getcallerpcs m (v - 8) 10"

text \<open>\<open>acquire\<close> when the lock is not contended; \<open>None\<close> while another CPU holds it (the spin
  loop does not end in this state). \<open>frame\<close> is the address of the parameter \<open>lk\<close>.\<close>

definition acquire :: "mem \<Rightarrow> addr \<Rightarrow> nat \<Rightarrow> spinlock \<Rightarrow> cpu \<Rightarrow> (spinlock \<times> cpu) res option" where
  "acquire m frame me lk c =
     (let c = pushcli c
      in if holding lk me then Some (Panic ''acquire'')
      else let (old, lk) = xchg lk 1
        in if old \<noteq> 0 then None
        else Some (Ok (lk\<lparr>lcpu := Some me, pcs := getcallerpcs_of m frame\<rparr>, c)))"

definition release :: "nat \<Rightarrow> spinlock \<Rightarrow> cpu \<Rightarrow> (spinlock \<times> cpu) res" where
  "release me lk c =
     (if \<not> holding lk me then Panic ''release''
      else let lk = lk\<lparr>pcs := (pcs lk)[0 := 0], lcpu := None\<rparr>; (_, lk) = xchg lk 0
        in rbind (popcli c) (\<lambda>c. Ok (lk, c)))"

lemmas spinlock_defs = initlock_def holding_def xchg_def pushcli_def popcli_def acquire_def release_def

section \<open>Interrupt nesting\<close>

text \<open>Interrupts are off while the nesting depth is positive, and the depth is not negative.\<close>

definition cpu_ok :: "cpu \<Rightarrow> bool" where
  "cpu_ok c \<longleftrightarrow> 0 \<le> ncli c \<and> (0 < ncli c \<longrightarrow> \<not> fl_if c)"

lemma pushcli_ok: "cpu_ok c \<Longrightarrow> cpu_ok (pushcli c) \<and> \<not> fl_if (pushcli c) \<and> ncli (pushcli c) = ncli c + 1"
  by (auto simp: pushcli_def cpu_ok_def Let_def)

lemma popcli_ok: "cpu_ok c \<Longrightarrow> 0 < ncli c \<Longrightarrow> \<exists>c'. popcli c = Ok c' \<and> cpu_ok c' \<and> ncli c' = ncli c - 1"
  by (auto simp: popcli_def cpu_ok_def Let_def)

text \<open>The enabling state that the outermost \<open>popcli\<close> restores.\<close>

definition saved_if :: "cpu \<Rightarrow> bool" where
  "saved_if c = (if ncli c = 0 then fl_if c else intena c)"

fun pushes :: "nat \<Rightarrow> cpu \<Rightarrow> cpu" where
  "pushes 0 c = c"
| "pushes (Suc n) c = pushes n (pushcli c)"

fun pops :: "nat \<Rightarrow> cpu \<Rightarrow> cpu res" where
  "pops 0 c = Ok c"
| "pops (Suc n) c = rbind (popcli c) (pops n)"

lemma pushes_state:
  "cpu_ok c \<Longrightarrow> pushes (Suc n) c = c\<lparr>ncli := ncli c + int (Suc n), fl_if := False, intena := saved_if c\<rparr>"
proof (induction n arbitrary: c)
  case 0
  then show ?case by (auto simp: pushcli_def Let_def saved_if_def cpu_ok_def)
next
  case (Suc n)
  have ok: "cpu_ok (pushcli c)" using pushcli_ok[OF Suc.prems] by simp
  have "saved_if (pushcli c) = saved_if c"
    using Suc.prems by (auto simp: saved_if_def pushcli_def Let_def cpu_ok_def)
  with Suc.IH[OF ok] Suc.prems show ?case
    by (auto simp: pushcli_def Let_def)
qed

lemma pops_state:
  assumes "0 \<le> ncli c" and "\<not> fl_if d" and "ncli d = ncli c + int (Suc n)" and "d = c\<lparr>ncli := ncli d, fl_if := False, intena := b\<rparr>"
  shows "pops (Suc n) d = Ok (c\<lparr>intena := b, fl_if := (ncli c = 0 \<and> b)\<rparr>)"
  using assms
proof (induction n arbitrary: d)
  case 0
  then show ?case
    by (cases d, cases c) (auto simp: popcli_def Let_def)
next
  case (Suc n)
  have pop: "popcli d = Ok (d\<lparr>ncli := ncli d - 1\<rparr>)"
    using Suc.prems by (simp add: popcli_def Let_def)
  have "pops (Suc n) (d\<lparr>ncli := ncli d - 1\<rparr>) = Ok (c\<lparr>intena := b, fl_if := (ncli c = 0 \<and> b)\<rparr>)"
    using Suc.prems by (intro Suc.IH) (cases d, auto)+
  with pop show ?case by simp
qed



section \<open>Several CPUs and one lock\<close>

text \<open>
  Where a CPU is inside \<open>acquire\<close> or \<open>release\<close>: \<open>Checking\<close> after \<open>pushcli\<close>, \<open>Spinning\<close> in
  the \<open>xchg\<close> loop, \<open>Recording\<close> between the successful \<open>xchg\<close> and the assignment of
  \<open>lk->cpu\<close>, \<open>Critical\<close> after \<open>acquire\<close> returned; \<open>Clearing\<close>, \<open>Unlocking\<close> and \<open>Popping\<close>
  are the three accesses of \<open>release\<close>.
\<close>

datatype lpc = Outside | Checking | Spinning | Recording | Critical | Clearing | Unlocking | Popping | Panicked

record smp =
  lk :: spinlock
  cpus :: "nat \<Rightarrow> cpu"
  at :: "nat \<Rightarrow> lpc"

abbreviation goto :: "smp \<Rightarrow> nat \<Rightarrow> lpc \<Rightarrow> smp" where
  "goto s i p \<equiv> s\<lparr>at := (at s)(i := p)\<rparr>"

inductive smp_step :: "smp \<Rightarrow> smp \<Rightarrow> bool" where
  interrupts: "at s i = Outside \<Longrightarrow> ncli (cpus s i) = 0 \<Longrightarrow>
    smp_step s (s\<lparr>cpus := (cpus s)(i := (cpus s i)\<lparr>fl_if := b\<rparr>)\<rparr>)"
| acq_push: "at s i = Outside \<Longrightarrow>
    smp_step s (goto (s\<lparr>cpus := (cpus s)(i := pushcli (cpus s i))\<rparr>) i Checking)"
| acq_panic: "at s i = Checking \<Longrightarrow> holding (lk s) i \<Longrightarrow> smp_step s (goto s i Panicked)"
| acq_check: "at s i = Checking \<Longrightarrow> \<not> holding (lk s) i \<Longrightarrow> smp_step s (goto s i Spinning)"
| acq_spin: "at s i = Spinning \<Longrightarrow> xchg (lk s) 1 = (old, l') \<Longrightarrow> old \<noteq> 0 \<Longrightarrow> smp_step s (s\<lparr>lk := l'\<rparr>)"
| acq_win: "at s i = Spinning \<Longrightarrow> xchg (lk s) 1 = (old, l') \<Longrightarrow> old = 0 \<Longrightarrow>
    smp_step s (goto (s\<lparr>lk := l'\<rparr>) i Recording)"
| acq_record: "at s i = Recording \<Longrightarrow>
    smp_step s (goto (s\<lparr>lk := (lk s)\<lparr>lcpu := Some i, pcs := p\<rparr>\<rparr>) i Critical)"
| rel_panic: "at s i = Critical \<Longrightarrow> \<not> holding (lk s) i \<Longrightarrow> smp_step s (goto s i Panicked)"
| rel_check: "at s i = Critical \<Longrightarrow> holding (lk s) i \<Longrightarrow> smp_step s (goto s i Clearing)"
| rel_clear: "at s i = Clearing \<Longrightarrow>
    smp_step s (goto (s\<lparr>lk := (lk s)\<lparr>pcs := (pcs (lk s))[0 := 0], lcpu := None\<rparr>\<rparr>) i Unlocking)"
| rel_unlock: "at s i = Unlocking \<Longrightarrow> xchg (lk s) 0 = (old, l') \<Longrightarrow> smp_step s (goto (s\<lparr>lk := l'\<rparr>) i Popping)"
| rel_pop: "at s i = Popping \<Longrightarrow> popcli (cpus s i) = Ok c \<Longrightarrow>
    smp_step s (goto (s\<lparr>cpus := (cpus s)(i := c)\<rparr>) i Outside)"
| rel_pop_panic: "at s i = Popping \<Longrightarrow> popcli (cpus s i) = Panic m \<Longrightarrow> smp_step s (goto s i Panicked)"

definition smp_init :: "string \<Rightarrow> smp" where
  "smp_init nm = \<lparr>lk = initlock \<lparr>locked = 0, lname = [], lcpu = None, pcs = replicate 10 0\<rparr> nm,
     cpus = (\<lambda>_. \<lparr>ncli = 0, intena = False, fl_if = False\<rparr>), at = (\<lambda>_. Outside)\<rparr>"

inductive smp_reachable :: "smp \<Rightarrow> bool" where
  smp_start: "smp_reachable (smp_init nm)"
| smp_next: "smp_reachable s \<Longrightarrow> smp_step s t \<Longrightarrow> smp_reachable t"

fun owns :: "lpc \<Rightarrow> bool" where
  "owns Recording = True"
| "owns Critical = True"
| "owns Clearing = True"
| "owns Unlocking = True"
| "owns _ = False"

fun recorded :: "lpc \<Rightarrow> bool" where
  "recorded Critical = True"
| "recorded Clearing = True"
| "recorded _ = False"

definition smp_inv :: "smp \<Rightarrow> bool" where
  "smp_inv s \<longleftrightarrow>
     (locked (lk s) \<noteq> 0 \<longleftrightarrow> (\<exists>i. owns (at s i))) \<and>
     (\<forall>i j. owns (at s i) \<longrightarrow> owns (at s j) \<longrightarrow> i = j) \<and>
     (\<forall>i. lcpu (lk s) = Some i \<longleftrightarrow> recorded (at s i)) \<and>
     (\<forall>i. at s i \<noteq> Panicked) \<and>
     (\<forall>i. cpu_ok (cpus s i) \<and> ncli (cpus s i) = (if at s i = Outside then 0 else 1))"

lemma recorded_owns: "recorded p \<Longrightarrow> owns p"
  by (cases p) auto

lemma smp_invD:
  assumes "smp_inv s"
  shows "locked (lk s) \<noteq> 0 \<longleftrightarrow> (\<exists>i. owns (at s i))"
    and "owns (at s i) \<Longrightarrow> owns (at s j) \<Longrightarrow> i = j"
    and "lcpu (lk s) = Some i \<longleftrightarrow> recorded (at s i)"
    and "at s i \<noteq> Panicked"
    and "cpu_ok (cpus s i)"
    and "ncli (cpus s i) = (if at s i = Outside then 0 else 1)"
  using assms unfolding smp_inv_def by blast+

lemma smp_inv_init: "smp_inv (smp_init nm)"
  by (auto simp: smp_inv_def smp_init_def initlock_def cpu_ok_def)

text \<open>A step that neither takes nor gives up the lock keeps the invariant.\<close>

lemma smp_inv_goto:
  assumes "smp_inv s" and "owns p = owns (at s i)" and "recorded p = recorded (at s i)"
    and "p \<noteq> Panicked" and "cpu_ok c" and "ncli c = (if p = Outside then 0 else 1)"
  shows "smp_inv (goto (s\<lparr>cpus := (cpus s)(i := c)\<rparr>) i p)"
proof -
  let ?t = "goto (s\<lparr>cpus := (cpus s)(i := c)\<rparr>) i p"
  have "owns (at ?t j) = owns (at s j)" "recorded (at ?t j) = recorded (at s j)" for j
    using assms(2,3) by simp_all
  then show ?thesis using assms by (simp add: smp_inv_def)
qed

lemma smp_inv_goto_only:
  assumes "smp_inv s" and "owns p = owns (at s i)" and "recorded p = recorded (at s i)"
    and "p \<noteq> Panicked" and "p \<noteq> Outside" and "at s i \<noteq> Outside"
  shows "smp_inv (goto s i p)"
  using smp_inv_goto[OF assms(1-4), of "cpus s i"] smp_invD(5,6)[OF assms(1), of i] assms(5,6)
  by simp

text \<open>While CPU \<open>i\<close> owns the lock no other CPU does, and none is recorded as its holder.\<close>

lemma smp_inv_owner:
  assumes "smp_inv s" and "owns (at s i)" and "j \<noteq> i"
  shows "\<not> owns (at s j)" and "\<not> recorded (at s j)"
  using smp_invD(2)[OF assms(1,2), of j] assms(3) recorded_owns[of "at s j"] by auto

lemma smp_step_inv: "smp_step s t \<Longrightarrow> smp_inv s \<Longrightarrow> smp_inv t"
proof (induction rule: smp_step.induct)
  case (interrupts s i b)
  then show ?case by (auto simp: smp_inv_def cpu_ok_def)
next
  case (acq_push s i)
  then show ?case
    using pushcli_ok[OF smp_invD(5)[OF acq_push.prems, of i]] smp_invD(6)[OF acq_push.prems, of i]
    by (intro smp_inv_goto) auto
next
  case (acq_panic s i)
  then show ?case using smp_invD(3)[OF acq_panic.prems, of i] by (simp add: holding_def)
next
  case (acq_check s i)
  then show ?case by (intro smp_inv_goto_only) auto
next
  case (acq_spin s i old l')
  then show ?case by (auto simp: smp_inv_def xchg_def)
next
  case (acq_win s i old l')
  then have free: "locked (lk s) = 0" by (simp add: xchg_def)
  then have no: "\<not> owns (at s j)" for j using smp_invD(1)[OF acq_win.prems] by blast
  then have "\<not> recorded (at s j)" for j using recorded_owns by blast
  with no acq_win show ?case by (auto simp: smp_inv_def xchg_def)
next
  case (acq_record s i p)
  note others = smp_inv_owner[OF acq_record.prems, of i]
  have "locked (lk s) \<noteq> 0"
    using smp_invD(1)[OF acq_record.prems] acq_record.hyps by (metis owns.simps(1))
  with acq_record others show ?case by (auto simp: smp_inv_def)
next
  case (rel_panic s i)
  then have "owns (at s i)" "recorded (at s i)" by simp_all
  then have "locked (lk s) \<noteq> 0" "lcpu (lk s) = Some i"
    using smp_invD(1,3)[OF rel_panic.prems] by blast+
  with rel_panic show ?case by (simp add: holding_def)
next
  case (rel_check s i)
  then show ?case by (intro smp_inv_goto_only) auto
next
  case (rel_clear s i)
  note others = smp_inv_owner[OF rel_clear.prems, of i]
  have "locked (lk s) \<noteq> 0"
    using smp_invD(1)[OF rel_clear.prems] rel_clear.hyps by (metis owns.simps(3))
  with rel_clear others show ?case by (auto simp: smp_inv_def)
next
  case (rel_unlock s i old l')
  note others = smp_inv_owner[OF rel_unlock.prems, of i]
  from rel_unlock others show ?case by (auto simp: smp_inv_def xchg_def)
next
  case (rel_pop s i c)
  then have "cpu_ok c \<and> ncli c = 0"
    using popcli_ok[of "cpus s i"] smp_invD(5,6)[OF rel_pop.prems, of i] by auto
  with rel_pop show ?case by (intro smp_inv_goto) auto
next
  case (rel_pop_panic s i m)
  then show ?case
    using popcli_ok[of "cpus s i"] smp_invD(5,6)[OF rel_pop_panic.prems, of i] by auto
qed

lemma smp_reachable_inv: "smp_reachable s \<Longrightarrow> smp_inv s"
  by (induction rule: smp_reachable.induct) (auto intro: smp_inv_init smp_step_inv)

text \<open>C10: in every reachable state of any number of CPUs contending for a spin lock, at most one
  CPU is inside the critical section, interrupts are off on it, the lock records it as its
  holder, and no CPU has reached one of the panics of \<open>acquire\<close>, \<open>release\<close> or \<open>popcli\<close>.\<close>

theorem spinlock_mutual_exclusion:
  assumes "smp_reachable s"
  shows "(at s i = Critical \<longrightarrow> at s j = Critical \<longrightarrow> i = j) \<and>
    (at s i = Critical \<longrightarrow> holding (lk s) i \<and> \<not> fl_if (cpus s i)) \<and> at s i \<noteq> Panicked"
proof -
  note inv = smp_invD[OF smp_reachable_inv[OF assms]]
  have "locked (lk s) \<noteq> 0" if "at s i = Critical"
    using inv(1) that by (metis owns.simps(2))
  then show ?thesis
    using inv(2)[of i j] inv(3)[of i] inv(4)[of i] inv(5)[of i] inv(6)[of i]
    by (auto simp: holding_def cpu_ok_def)
qed

lemma smp_reachable_one_critical:
  "\<exists>s. smp_reachable s \<and> at s 0 = Critical \<and> at s 1 = Spinning"
proof -
  let ?s0 = "smp_init ''l''"
  let ?s1 = "goto (?s0\<lparr>cpus := (cpus ?s0)(0 := pushcli (cpus ?s0 0))\<rparr>) 0 Checking"
  let ?s2 = "goto ?s1 0 Spinning"
  let ?s3 = "goto (?s2\<lparr>lk := snd (xchg (lk ?s2) 1)\<rparr>) 0 Recording"
  let ?s4 = "goto (?s3\<lparr>lk := (lk ?s3)\<lparr>lcpu := Some 0, pcs := []\<rparr>\<rparr>) 0 Critical"
  let ?s5 = "goto (?s4\<lparr>cpus := (cpus ?s4)(1 := pushcli (cpus ?s4 1))\<rparr>) 1 Checking"
  let ?s6 = "goto ?s5 1 Spinning"
  have "smp_step ?s0 ?s1" by (rule acq_push) (simp add: smp_init_def)
  moreover have "smp_step ?s1 ?s2" by (rule acq_check) (simp_all add: smp_init_def holding_def initlock_def)
  moreover have "smp_step ?s2 ?s3" by (rule acq_win[where old = 0]) (simp_all add: smp_init_def xchg_def initlock_def)
  moreover have "smp_step ?s3 ?s4" by (rule acq_record) simp
  moreover have "smp_step ?s4 ?s5" by (rule acq_push) (simp add: smp_init_def)
  moreover have "smp_step ?s5 ?s6" by (rule acq_check) (simp_all add: smp_init_def holding_def)
  ultimately have "smp_reachable ?s6" by (meson smp_reachable.intros)
  then show ?thesis by (rule_tac x = ?s6 in exI) simp
qed

theorem spinlock_mutual_exclusion_witness:
  "\<exists>s. smp_reachable s \<and> at s 0 = Critical \<and> holding (lk s) 0 \<and> \<not> fl_if (cpus s 0)"
  using smp_reachable_one_critical spinlock_mutual_exclusion[where i = 0 and j = 0] by meson

end
