(* ===== verification/Xv6_Kalloc.thy ===== *)
theory Xv6_Kalloc
  imports Xv6_Spinlock
begin

text \<open>
  \<^verbatim>\<open>kalloc.c\<close>: the physical page allocator. The free list is threaded through the free pages
  themselves (\<open>struct run\<close>), so the state is the byte memory and the head pointer. The
  abstraction \<open>kmem_rep\<close> reads the list of free pages off the memory; the locale
  \<open>page_allocator\<close> states what the callers of \<open>kalloc\<close> and \<open>kfree\<close> rely on, and is
  interpreted on these two functions. The bodies of \<open>kalloc\<close> and \<open>kfree\<close> run under
  \<open>kmem.lock\<close> once \<open>use_lock\<close> is set, so each is one atomic step.
\<close>

section \<open>State and operations\<close>

record kmem =
  kmemory :: mem
  klock :: spinlock
  use_lock :: bool
  freelist :: addr

text \<open>\<open>e\<close> is the linker symbol \<open>end\<close>, the first address after the kernel image.\<close>

definition kfree :: "addr \<Rightarrow> addr \<Rightarrow> kmem \<Rightarrow> kmem res" where
  "kfree e v k =
     (if v mod PGSIZE \<noteq> 0 \<or> v < e \<or> v2p v \<ge> PHYSTOP then Panic ''kfree''
      else let m = memset (kmemory k) v 1 PGSIZE; m = store32 m v (freelist k)
        in Ok (k\<lparr>kmemory := m, freelist := v\<rparr>))"

definition kalloc :: "kmem \<Rightarrow> addr \<times> kmem" where
  "kalloc k =
     (let r = freelist k
      in if r \<noteq> 0 then (r, k\<lparr>freelist := load32 (kmemory k) r\<rparr>) else (r, k))"

lemma kfree_Ok_bounds: "kfree e v k = Ok k' \<Longrightarrow> KERNBASE \<le> v \<and> v < KERNBASE + PHYSTOP"
proof -
  assume "kfree e v k = Ok k'"
  then have "v2p v < PHYSTOP" by (auto simp: kfree_def Let_def split: if_splits)
  then show ?thesis by (simp add: v2p_def word_less_nat_alt word_le_nat_alt unat_sub_if' split: if_splits)
qed

text \<open>The loop of \<open>freerange\<close>: it ends because \<open>kfree\<close> panics on an address past \<open>PHYSTOP\<close>.\<close>

function freerange_loop :: "addr \<Rightarrow> addr \<Rightarrow> addr \<Rightarrow> kmem \<Rightarrow> kmem res" where
  "freerange_loop e p vend k =
     (if p + PGSIZE \<le> vend then rbind (kfree e p k) (freerange_loop e (p + PGSIZE) vend) else Ok k)"
  by pat_completeness auto
termination
proof (relation "measure (\<lambda>(e, p, vend, k). 2 ^ 32 - unat p)")
  fix e p vend :: addr and k k'
  assume "kfree e p k = Ok k'"
  then have "p < 0x8E000000" using kfree_Ok_bounds by fastforce
  then have "unat (p + PGSIZE) = unat p + 4096" "unat p + 4096 \<le> 2 ^ 32"
    by (simp_all add: word_less_nat_alt unat_word_ariths)
  then show "((e, p + PGSIZE, vend, k'), (e, p, vend, k)) \<in> measure (\<lambda>(e, p, vend, k). 2 ^ 32 - unat p)"
    by simp
qed auto

declare freerange_loop.simps [simp del]

definition freerange :: "addr \<Rightarrow> addr \<Rightarrow> addr \<Rightarrow> kmem \<Rightarrow> kmem res" where
  "freerange e vstart vend k = freerange_loop e (PGROUNDUP vstart) vend k"

definition kinit1 :: "addr \<Rightarrow> addr \<Rightarrow> addr \<Rightarrow> kmem \<Rightarrow> kmem res" where
  "kinit1 e vstart vend k =
     freerange e vstart vend (k\<lparr>klock := initlock (klock k) ''kmem'', use_lock := False\<rparr>)"

definition kinit2 :: "addr \<Rightarrow> addr \<Rightarrow> addr \<Rightarrow> kmem \<Rightarrow> kmem res" where
  "kinit2 e vstart vend k = rbind (freerange e vstart vend k) (\<lambda>k. Ok (k\<lparr>use_lock := True\<rparr>))"

section \<open>The free list in memory\<close>

fun run_list :: "mem \<Rightarrow> addr \<Rightarrow> addr list \<Rightarrow> bool" where
  "run_list m r [] \<longleftrightarrow> r = 0"
| "run_list m r (p # ps) \<longleftrightarrow> r = p \<and> r \<noteq> 0 \<and> run_list m (load32 m r) ps"

definition page_ok :: "addr \<Rightarrow> addr \<Rightarrow> bool" where
  "page_ok e v \<longleftrightarrow> v mod PGSIZE = 0 \<and> e \<le> v \<and> v2p v < PHYSTOP"

definition kmem_rep :: "addr \<Rightarrow> kmem \<Rightarrow> addr list \<Rightarrow> bool" where
  "kmem_rep e k ps \<longleftrightarrow> run_list (kmemory k) (freelist k) ps \<and> distinct ps \<and> (\<forall>p\<in>set ps. page_ok e p)"

lemma page_ok_nonzero: "page_ok e v \<Longrightarrow> v \<noteq> 0"
  by (auto simp: page_ok_def v2p_def)

lemma aligned_apart:
  fixes p v :: addr
  assumes "p mod PGSIZE = 0" and "v mod PGSIZE = 0" and "p \<noteq> v"
  shows "4096 \<le> unat (p - v)"
proof -
  have mods: "unat p mod 4096 = 0" "unat v mod 4096 = 0"
    using assms(1,2) unat_mod[of p PGSIZE] unat_mod[of v PGSIZE] by simp_all
  have ne: "unat p \<noteq> unat v" using assms(3) by (auto dest: unsigned_word_eqI)
  show ?thesis
  proof (cases "unat v \<le> unat p")
    case True
    then have "unat (p - v) = unat p - unat v" by (rule unat_diff_less)
    with mods ne True show ?thesis by (auto elim!: dvdE simp: mod_eq_0_iff_dvd)
  next
    case False
    then have "unat (p - v) = 2 ^ 32 + unat p - unat v" by (intro unat_diff_wrap) simp
    moreover have "unat v < 2 ^ 32" using unsigned_less[of v, where 'a = nat] by simp
    ultimately show ?thesis using mods False by (auto elim!: dvdE simp: mod_eq_0_iff_dvd)
  qed
qed

lemma run_list_frame:
  assumes "\<And>p. p \<in> set ps \<Longrightarrow> load32 m' p = load32 m p"
  shows "run_list m' r ps = run_list m r ps"
  using assms by (induction ps arbitrary: r) auto

text \<open>The memory after \<open>kfree\<close>: the page is filled with 1 and its first word is the link.\<close>

lemma kfree_memory:
  assumes "kfree e v k = Ok k'"
  shows "kmemory k' = store32 (memset (kmemory k) v 1 PGSIZE) v (freelist k)" and "freelist k' = v"
    and "page_ok e v"
  using assms by (auto simp: kfree_def Let_def page_ok_def not_less not_le split: if_splits)

lemma kfree_frame:
  assumes "kfree e v k = Ok k'" and "4096 \<le> unat (a - v)"
  shows "kmemory k' a = kmemory k a"
  using assms(2) by (simp add: kfree_memory(1)[OF assms(1)] store32_apply memset_apply word_less_nat_alt)

lemma kfree_load32_frame:
  assumes "kfree e v k = Ok k'" and "p mod PGSIZE = 0" and "p \<noteq> v"
  shows "load32 (kmemory k') p = load32 (kmemory k) p"
proof -
  have v: "v mod PGSIZE = 0" using kfree_memory(3)[OF assms(1)] by (simp add: page_ok_def)
  have "4096 \<le> unat (p - v)" using aligned_apart[OF assms(2) v assms(3)] .
  moreover have "4096 \<le> unat (v - p)" using aligned_apart[OF v assms(2)] assms(3) by auto
  ultimately have far: "4096 \<le> unat (p + i - v)" if "unat i < 4" for i
    using that by (intro unat_apart_add) auto
  show ?thesis
    using far[of 0] far[of 1] far[of 2] far[of 3] kfree_frame[OF assms(1)] by (simp add: load32_def)
qed

lemma kfree_rep:
  assumes "kmem_rep e k ps" and "page_ok e v" and "v \<notin> set ps"
  shows "\<exists>k'. kfree e v k = Ok k' \<and> kmem_rep e k' (v # ps)"
proof -
  obtain k' where k': "kfree e v k = Ok k'"
    using assms(2) by (auto simp: kfree_def page_ok_def Let_def not_less not_le)
  have "run_list (kmemory k') (freelist k) ps = run_list (kmemory k) (freelist k) ps"
    using assms(1,3) kfree_load32_frame[OF k']
    by (intro run_list_frame) (auto simp: kmem_rep_def page_ok_def)
  moreover have "load32 (kmemory k') v = freelist k" by (simp add: kfree_memory(1)[OF k'])
  ultimately have "kmem_rep e k' (v # ps)"
    using assms page_ok_nonzero by (auto simp: kmem_rep_def kfree_memory(2)[OF k'])
  with k' show ?thesis by blast
qed

lemma kalloc_rep_Cons:
  "kmem_rep e k (p # ps) \<Longrightarrow> \<exists>k'. kalloc k = (p, k') \<and> kmem_rep e k' ps \<and> kmemory k' = kmemory k"
  by (auto simp: kmem_rep_def kalloc_def Let_def)

lemma kalloc_rep_Nil: "kmem_rep e k [] \<Longrightarrow> kalloc k = (0, k)"
  by (simp add: kmem_rep_def kalloc_def)

section \<open>The contract of the allocator\<close>

text \<open>
  What the kernel relies on: \<open>frees k F\<close> relates the allocator's state to the set of free
  pages. An allocation takes a page out of it or reports 0, a release of a valid page that
  is not free puts it back, and anything else panics.
\<close>

locale page_allocator =
  fixes alloc :: "'k \<Rightarrow> addr \<times> 'k"
    and free :: "addr \<Rightarrow> 'k \<Rightarrow> 'k res"
    and frees :: "'k \<Rightarrow> addr set \<Rightarrow> bool"
    and valid :: "addr \<Rightarrow> bool"
  assumes alloc_none: "frees k {} \<Longrightarrow> alloc k = (0, k)"
    and alloc_some: "frees k F \<Longrightarrow> F \<noteq> {} \<Longrightarrow>
      \<exists>p k'. alloc k = (p, k') \<and> p \<in> F \<and> frees k' (F - {p})"
    and free_valid: "frees k F \<Longrightarrow> valid p \<Longrightarrow> p \<notin> F \<Longrightarrow> \<exists>k'. free p k = Ok k' \<and> frees k' (insert p F)"
    and free_invalid: "\<not> valid p \<Longrightarrow> free p k = Panic ''kfree''"
    and frees_valid: "frees k F \<Longrightarrow> p \<in> F \<Longrightarrow> valid p"
    and valid_nonzero: "valid p \<Longrightarrow> p \<noteq> 0"

datatype page_request = Alloc | Free addr

text \<open>A client that issues requests and keeps the set of pages it owns; it frees only pages it owns.\<close>

fun serve :: "('k \<Rightarrow> addr \<times> 'k) \<Rightarrow> (addr \<Rightarrow> 'k \<Rightarrow> 'k res) \<Rightarrow> page_request list \<Rightarrow> 'k \<Rightarrow> addr set \<Rightarrow> ('k \<times> addr set) res"
where
  "serve al fr [] k own = Ok (k, own)"
| "serve al fr (Alloc # rs) k own =
     (let (p, k') = al k in serve al fr rs k' (if p = 0 then own else insert p own))"
| "serve al fr (Free p # rs) k own =
     (if p \<in> own then rbind (fr p k) (\<lambda>k'. serve al fr rs k' (own - {p})) else serve al fr rs k own)"

context page_allocator
begin

lemma alloc_cases:
  assumes "frees k F"
  obtains "F = {}" and "alloc k = (0, k)"
  | p k' where "alloc k = (p, k')" and "p \<in> F" and "p \<noteq> 0" and "frees k' (F - {p})"
  using assms alloc_none alloc_some frees_valid valid_nonzero by (cases "F = {}") blast+

text \<open>Serving any sequence of requests never panics, never hands out a page that is owned,
  and loses no page.\<close>

lemma serve_safe:
  assumes "frees k F" and "own \<inter> F = {}" and "\<forall>p\<in>own. valid p"
  shows "\<exists>k' own' F'. serve alloc free rs k own = Ok (k', own') \<and> frees k' F' \<and> own' \<inter> F' = {} \<and>
    own' \<union> F' = own \<union> F"
  using assms
proof (induction rs arbitrary: k own F)
  case Nil
  then show ?case by auto
next
  case (Cons r rs)
  show ?case
  proof (cases r)
    case Alloc
    from Cons.prems(1) show ?thesis
    proof (cases rule: alloc_cases)
      case 1
      with Alloc Cons.IH[OF Cons.prems] show ?thesis by simp
    next
      case (2 p k')
      have "insert p own \<inter> (F - {p}) = {}" "\<forall>q\<in>insert p own. valid q"
        using Cons.prems 2(2) frees_valid by auto
      from Cons.IH[OF 2(4) this] 2 show ?thesis by (simp add: Alloc insert_absorb Un_insert_right[symmetric] del: Un_insert_right)
    qed
  next
    case (Free p)
    show ?thesis
    proof (cases "p \<in> own")
      case True
      with Cons.prems obtain k' where k': "free p k = Ok k'" "frees k' (insert p F)"
        using free_valid[of k F p] by auto
      have "(own - {p}) \<inter> insert p F = {}" "\<forall>q\<in>own - {p}. valid q" "(own - {p}) \<union> insert p F = own \<union> F"
        using Cons.prems True by auto
      with Cons.IH[OF k'(2), of "own - {p}"] k'(1) True Free show ?thesis by auto
    next
      case False
      with Free Cons.IH[OF Cons.prems] show ?thesis by simp
    qed
  qed
qed

end

definition kmem_frees :: "addr \<Rightarrow> kmem \<Rightarrow> addr set \<Rightarrow> bool" where
  "kmem_frees e k F \<longleftrightarrow> (\<exists>ps. kmem_rep e k ps \<and> set ps = F)"

interpretation kpages: page_allocator kalloc "kfree e" "kmem_frees e" "page_ok e" for e
proof unfold_locales
  fix k F p
  show "kmem_frees e k {} \<Longrightarrow> kalloc k = (0, k)"
    by (auto simp: kmem_frees_def intro: kalloc_rep_Nil)
  show "kmem_frees e k F \<Longrightarrow> F \<noteq> {} \<Longrightarrow> \<exists>p k'. kalloc k = (p, k') \<and> p \<in> F \<and> kmem_frees e k' (F - {p})"
  proof -
    assume "kmem_frees e k F" "F \<noteq> {}"
    then obtain p ps where rep: "kmem_rep e k (p # ps)" "set (p # ps) = F"
      unfolding kmem_frees_def by (metis list.exhaust set_empty)
    then have "F - {p} = set ps" by (auto simp: kmem_rep_def)
    with kalloc_rep_Cons[OF rep(1)] rep(2) show ?thesis unfolding kmem_frees_def by fastforce
  qed
  show "kmem_frees e k F \<Longrightarrow> page_ok e p \<Longrightarrow> p \<notin> F \<Longrightarrow> \<exists>k'. kfree e p k = Ok k' \<and> kmem_frees e k' (insert p F)"
    unfolding kmem_frees_def by (metis kfree_rep list.simps(15))
  show "\<not> page_ok e p \<Longrightarrow> kfree e p k = Panic ''kfree''"
    by (auto simp: kfree_def page_ok_def not_less not_le)
  show "kmem_frees e k F \<Longrightarrow> p \<in> F \<Longrightarrow> page_ok e p"
    by (auto simp: kmem_frees_def kmem_rep_def)
  show "page_ok e p \<Longrightarrow> p \<noteq> 0"
    by (rule page_ok_nonzero)
qed

text \<open>C15: whatever sequence of allocations and releases its clients make, the page allocator never
  panics, never hands out a page that is still owned, and loses no page: the owned and the
  free pages stay disjoint and their union stays the same.\<close>

theorem kalloc_serve_safe:
  assumes "kmem_rep e k ps" and "own \<inter> set ps = {}" and "\<forall>p\<in>own. page_ok e p"
  shows "\<exists>k' own' ps'. serve kalloc (kfree e) rs k own = Ok (k', own') \<and> kmem_rep e k' ps' \<and>
    own' \<inter> set ps' = {} \<and> own' \<union> set ps' = own \<union> set ps"
proof -
  have "kmem_frees e k (set ps)" using assms(1) by (auto simp: kmem_frees_def)
  from kpages.serve_safe[OF this assms(2,3), of rs] show ?thesis
    unfolding kmem_frees_def by auto
qed

section \<open>Filling the free list at boot\<close>

definition page_range :: "addr \<Rightarrow> nat \<Rightarrow> addr list" where
  "page_range p n = map (\<lambda>i. p + of_nat i * PGSIZE) [0..<n]"

lemma page_range_Suc: "page_range p (Suc n) = p # page_range (p + PGSIZE) n"
  by (simp add: page_range_def upt_conv_Cons map_Suc_upt[symmetric] algebra_simps del: upt_Suc)

lemma unat_add_page:
  assumes "unat (p :: addr) + 4096 < 2 ^ 32"
  shows "unat (p + PGSIZE) = unat p + 4096"
  using assms by (simp add: unat_word_ariths)

lemma page_ok_unat:
  assumes "KERNBASE \<le> e"
  shows "page_ok e v \<longleftrightarrow> unat v mod 4096 = 0 \<and> unat e \<le> unat v \<and> unat v < 0x8E000000"
proof -
  have "v mod PGSIZE = 0 \<longleftrightarrow> unat v mod 4096 = 0"
    by (simp add: word_eq_iff_unsigned[where 'a = nat] unat_mod)
  moreover have "v2p v < PHYSTOP \<longleftrightarrow> unat v < 0x8E000000" if "unat e \<le> unat v"
    using assms that by (simp add: v2p_def word_less_nat_alt word_le_nat_alt unat_sub_if') arith
  ultimately show ?thesis by (auto simp: page_ok_def word_le_nat_alt)
qed

lemma freerange_loop_rep:
  assumes "KERNBASE \<le> e" and "e \<le> p" and "p mod PGSIZE = 0" and "unat p \<le> 0x8E001000"
    and "unat vend \<le> 0x8E000000" and "kmem_rep e k ps"
    and "\<forall>q\<in>set ps. unat q < unat p \<or> unat vend \<le> unat q"
    and "n = (unat vend - unat p) div 4096"
  shows "\<exists>k'. freerange_loop e p vend k = Ok k' \<and> kmem_rep e k' (rev (page_range p n) @ ps)"
  using assms
proof (induction n arbitrary: p k ps)
  case 0
  then have "unat vend < unat p + 4096" by (auto simp: div_eq_0_iff)
  moreover have "unat (p + PGSIZE) = unat p + 4096" using "0.prems" by (intro unat_add_page) simp
  ultimately have "\<not> p + PGSIZE \<le> vend" by (simp add: word_le_nat_alt)
  with "0.prems" show ?case by (simp add: freerange_loop.simps page_range_def)
next
  case (Suc n)
  then have le: "unat p + 4096 \<le> unat vend" by (simp add: div_if split: if_splits)
  have up: "unat (p + PGSIZE) = unat p + 4096" using Suc.prems le by (intro unat_add_page) simp
  have modp: "unat p mod 4096 = 0" using Suc.prems(3) unat_mod[of p PGSIZE] by simp
  have "page_ok e p" using Suc.prems le modp by (simp add: page_ok_unat word_le_nat_alt)
  moreover have "p \<notin> set ps" using Suc.prems(7) le by auto
  ultimately obtain k1 where k1: "kfree e p k = Ok k1" "kmem_rep e k1 (p # ps)"
    using kfree_rep[OF Suc.prems(6)] by blast
  have "\<exists>k'. freerange_loop e (p + PGSIZE) vend k1 = Ok k' \<and> kmem_rep e k' (rev (page_range (p + PGSIZE) n) @ (p # ps))"
  proof (rule Suc.IH[OF Suc.prems(1) _ _ _ Suc.prems(5) k1(2)])
    show "e \<le> p + PGSIZE" using Suc.prems(2) up by (simp add: word_le_nat_alt)
    show "(p + PGSIZE) mod PGSIZE = 0"
      using up modp by (simp add: word_eq_iff_unsigned[where 'a = nat] unat_mod)
    show "unat (p + PGSIZE) \<le> 0x8E001000" using up le Suc.prems(5) by simp
    show "\<forall>q\<in>set (p # ps). unat q < unat (p + PGSIZE) \<or> unat vend \<le> unat q"
      using Suc.prems(7) up by auto
    show "n = (unat vend - unat (p + PGSIZE)) div 4096"
      using Suc.prems(8) le up le_div_geq[of 4096 "unat vend - unat p"] by simp
  qed
  moreover have "p + PGSIZE \<le> vend" using le up by (simp add: word_le_nat_alt)
  ultimately show ?case
    using k1(1) by (simp add: freerange_loop.simps[of e p] page_range_Suc)
qed

text \<open>C32: \<open>freerange\<close> (the work of \<open>kinit1\<close> and \<open>kinit2\<close>) terminates without a panic and puts
  exactly the whole pages between \<open>vstart\<close> and \<open>vend\<close> on the free list, in front of the
  pages already there.\<close>

theorem freerange_correct:
  assumes "KERNBASE \<le> e" and "e \<le> vstart" and "vstart \<le> vend" and "vend \<le> KERNBASE + PHYSTOP"
    and "kmem_rep e k ps" and "\<forall>q\<in>set ps. q < vstart \<or> vend \<le> q"
  shows "\<exists>k'. freerange e vstart vend k = Ok k' \<and>
    kmem_rep e k' (rev (page_range (PGROUNDUP vstart) ((unat vend - unat (PGROUNDUP vstart)) div 4096)) @ ps)"
proof -
  have b: "unat vstart \<le> unat vend" "unat vend \<le> 0x8E000000"
    using assms(3,4) by (simp_all add: word_le_nat_alt)
  then have r: "unat (PGROUNDUP vstart) = (unat vstart + 4095) div 4096 * 4096"
    by (intro unat_PGROUNDUP) simp
  then have "unat vstart \<le> unat (PGROUNDUP vstart)" "unat (PGROUNDUP vstart) \<le> unat vstart + 4095"
    by (simp_all only: round_up_bounds)
  with b assms show ?thesis
    unfolding freerange_def
    by (intro freerange_loop_rep PGROUNDUP_aligned) (auto simp: word_le_nat_alt word_less_nat_alt)
qed

text \<open>The memory of the witnesses: the kernel ends at \<open>0x80200000\<close>, nothing is free yet.\<close>

definition kmem_boot :: kmem where
  "kmem_boot = \<lparr>kmemory = (\<lambda>_. 0), klock = initlock \<lparr>locked = 0, lname = [], lcpu = None, pcs = []\<rparr> ''kmem'',
     use_lock = False, freelist = 0\<rparr>"

lemma kmem_boot_rep: "kmem_rep e kmem_boot []"
  by (simp add: kmem_rep_def kmem_boot_def)

theorem freerange_correct_witness:
  "\<exists>k'. freerange 0x80200000 0x80200010 0x80203000 kmem_boot = Ok k' \<and>
     kmem_rep 0x80200000 k' [0x80202000, 0x80201000]"
proof -
  have r: "PGROUNDUP 0x80200010 = 0x80201000" by (simp add: PGROUNDUP_def)
  have n: "(unat (0x80203000 :: addr) - unat (0x80201000 :: addr)) div 4096 = 2" by simp
  have l: "rev (page_range 0x80201000 2) = [0x80202000, 0x80201000]"
    by (simp add: page_range_def numeral_2_eq_2)
  show ?thesis
    using freerange_correct[of "0x80200000" "0x80200010" "0x80203000" kmem_boot "[]", OF _ _ _ _ kmem_boot_rep]
    unfolding r n l by simp
qed

theorem kalloc_serve_safe_witness:
  "\<exists>k' own' ps'. serve kalloc (kfree 0x80200000) [Alloc, Free 0x80201000, Alloc, Alloc] kmem_boot {0x80201000} = Ok (k', own') \<and>
     kmem_rep 0x80200000 k' ps' \<and> own' \<inter> set ps' = {} \<and> own' \<union> set ps' = {0x80201000}"
  using kalloc_serve_safe[of "0x80200000" kmem_boot "[]" "{0x80201000}" "[Alloc, Free 0x80201000, Alloc, Alloc]"] kmem_boot_rep
  by (simp add: page_ok_def v2p_def)

end
