(* ===== verification/Xv6_Dll.thy ===== *)
theory Xv6_Dll
  imports Main
begin

text \<open>
  Circular doubly linked lists through a sentinel, the shape of the buffer cache's LRU list:
  two pointer maps \<open>nx\<close> and \<open>pv\<close>, a sentinel \<open>h\<close>, and the relation \<open>ring\<close> that says the
  pointers spell the list \<open>xs\<close>. The lemmas give the list after unlinking a node and after
  inserting one behind the sentinel, and what a \<open>for\<close> loop over the list finds.
\<close>

definition linked :: "('a \<Rightarrow> 'a) \<Rightarrow> ('a \<Rightarrow> 'a) \<Rightarrow> 'a list \<Rightarrow> bool" where
  "linked nx pv L = successively (\<lambda>u v. nx u = v \<and> pv v = u) L"

definition ring :: "('a \<Rightarrow> 'a) \<Rightarrow> ('a \<Rightarrow> 'a) \<Rightarrow> 'a \<Rightarrow> 'a list \<Rightarrow> bool" where
  "ring nx pv h xs \<longleftrightarrow> linked nx pv (h # xs @ [h]) \<and> distinct (h # xs)"

lemma linked_Cons: "linked nx pv (u # v # L) \<longleftrightarrow> nx u = v \<and> pv v = u \<and> linked nx pv (v # L)"
  by (simp add: linked_def)

lemma linked_append:
  "linked nx pv (K @ L) \<longleftrightarrow>
     linked nx pv K \<and> linked nx pv L \<and> (K = [] \<or> L = [] \<or> nx (last K) = hd L \<and> pv (hd L) = last K)"
  by (auto simp: linked_def successively_append_iff)

lemma linked_upd_nx: "a \<notin> set (butlast L) \<Longrightarrow> linked (nx(a := v)) pv L = linked nx pv L"
  unfolding linked_def by (induction L rule: induct_list012) auto

lemma linked_upd_pv: "a \<notin> set (tl L) \<Longrightarrow> linked nx (pv(a := v)) L = linked nx pv L"
  unfolding linked_def by (induction L rule: induct_list012) auto

lemma linked_rev: "linked pv nx (rev L) = linked nx pv L"
  unfolding linked_def by (simp add: conj_commute)

lemma ring_rev: "ring nx pv h xs \<Longrightarrow> ring pv nx h (rev xs)"
  using linked_rev[of pv nx "h # xs @ [h]"] by (simp add: ring_def)

lemma last_notin_butlast: "distinct K \<Longrightarrow> K \<noteq> [] \<Longrightarrow> last K \<notin> set (butlast K)"
  by (induction K) auto

lemma hd_notin_tl: "distinct M \<Longrightarrow> M \<noteq> [] \<Longrightarrow> hd M \<notin> set (tl M)"
  by (cases M) auto

lemma linked_join:
  assumes "linked nx pv K" "linked nx pv M" "K \<noteq> []" "M \<noteq> []" "distinct K" "distinct M"
    and "last K \<notin> set (butlast M)" "hd M \<notin> set (tl K)"
  shows "linked (nx(last K := hd M)) (pv(hd M := last K)) (K @ M)"
  using assms by (simp add: linked_append linked_upd_nx linked_upd_pv last_notin_butlast hd_notin_tl)

lemma ring_unlink:
  assumes "ring nx pv h (ys @ b # zs)"
  shows "ring (nx(pv b := nx b)) (pv(nx b := pv b)) h (ys @ zs)"
proof -
  let ?K = "h # ys" and ?M = "zs @ [h]"
  have d: "distinct (h # ys @ b # zs)" and l: "linked nx pv (?K @ b # ?M)"
    using assms by (simp_all add: ring_def)
  have K: "linked nx pv ?K" "linked nx pv (b # ?M)" "pv b = last ?K"
    using l unfolding linked_append by simp_all
  have M: "linked nx pv ?M" "nx b = hd ?M"
    using K(2) linked_append[of nx pv "[b]" ?M] by simp_all
  have "last ?K \<in> set ?K" "hd ?M \<in> set ?M" by (rule last_in_set, simp) (rule hd_in_set, simp)
  with d have "linked (nx(last ?K := hd ?M)) (pv(hd ?M := last ?K)) (?K @ ?M)"
    by (intro linked_join K M) auto
  then show ?thesis
    using d K(3) M(2) by (simp add: ring_def)
qed

lemma ring_neighbours:
  assumes "ring nx pv h (ys @ b # zs)"
  shows "pv b \<noteq> b" "nx b \<noteq> b"
proof -
  have d: "distinct (h # ys @ b # zs)" and l: "linked nx pv ((h # ys) @ [b] @ zs @ [h])"
    using assms by (simp_all add: ring_def)
  then have "pv b = last (h # ys)" "nx b = hd (zs @ [h])"
    unfolding linked_append by simp_all
  moreover have "last (h # ys) \<in> set (h # ys)" "hd (zs @ [h]) \<in> set (zs @ [h])"
    by (rule last_in_set, simp) (rule hd_in_set, simp)
  ultimately show "pv b \<noteq> b" "nx b \<noteq> b" using d by auto
qed

lemma ring_push:
  assumes "ring nx pv h xs" "b \<notin> set (h # xs)"
  shows "ring (nx(b := nx h, h := b)) (pv(b := h, nx h := b)) h (b # xs)"
proof -
  let ?M = "xs @ [h]"
  have d: "distinct (h # xs)" and l: "linked nx pv ([h] @ ?M)"
    using assms by (simp_all add: ring_def)
  have M: "linked nx pv ?M" "nx h = hd ?M"
    using l unfolding linked_append by simp_all
  have "linked (nx(b := hd ?M)) (pv(hd ?M := b)) ([b] @ ?M)"
    using linked_join[of nx pv "[b]" ?M] d assms(2) M(1) by (simp add: linked_def)
  then have "linked (nx(b := hd ?M, h := b)) (pv(hd ?M := b, b := h)) (h # [b] @ ?M)"
    using d assms(2) by (auto simp: linked_Cons linked_upd_nx linked_upd_pv butlast_append hd_append)
  moreover have "hd ?M \<noteq> b" using assms(2) by (cases xs) auto
  ultimately show ?thesis
    using d assms(2) M(2) by (auto simp: ring_def fun_upd_twist)
qed

text \<open>Unlinking a node and linking it again behind the sentinel, as \<open>brelse\<close> does.\<close>

lemma ring_move_front:
  assumes "ring nx pv h (ys @ b # zs)"
  defines "nx1 \<equiv> nx(pv b := nx b)" and "pv1 \<equiv> pv(nx b := pv b)"
  shows "ring (nx1(b := nx1 h, h := b)) (pv1(b := h, nx1 h := b)) h (b # ys @ zs)"
  unfolding nx1_def pv1_def
  using assms(1) by (intro ring_push ring_unlink) (auto simp: ring_def)

text \<open>
  The loop \<open>for(b = h.next; b != &h; b = b->next) if(P(b)) return b;\<close>. The outer option is
  termination: a list that does not lead back to the sentinel makes the loop run forever.
\<close>

partial_function (option) walk :: "('a \<Rightarrow> 'a) \<Rightarrow> ('a \<Rightarrow> bool) \<Rightarrow> 'a \<Rightarrow> 'a \<Rightarrow> 'a option option" where
  "walk nx P h b = (if b = h then Some None else if P b then Some (Some b) else walk nx P h (nx b))"

declare walk.simps [code]

lemma walk_linked:
  "linked nx pv (u # xs @ [h]) \<Longrightarrow> h \<notin> set xs \<Longrightarrow> walk nx P h (nx u) = Some (find P xs)"
proof (induction xs arbitrary: u)
  case Nil
  then show ?case by (simp add: linked_Cons walk.simps)
next
  case (Cons x xs)
  then have "nx u = x" "x \<noteq> h" "walk nx P h (nx x) = Some (find P xs)"
    by (auto simp: linked_Cons)
  then show ?case by (simp add: walk.simps)
qed

lemma walk_ring: "ring nx pv h xs \<Longrightarrow> walk nx P h (nx h) = Some (find P xs)"
  using walk_linked[of nx pv h xs h P] by (simp add: ring_def)

lemma walk_ring_rev: "ring nx pv h xs \<Longrightarrow> walk pv P h (pv h) = Some (find P (rev xs))"
  by (rule walk_ring[OF ring_rev])

end
