(* ===== verification/Xv6_Bio.thy ===== *)
theory Xv6_Bio
  imports Xv6_Spinlock Xv6_Dll
begin

text \<open>
  \<^verbatim>\<open>bio.c\<close> and \<^verbatim>\<open>memide.c\<close>: the buffer cache and the memory-backed disk under it. A buffer is an
  index into \<open>bcache.buf\<close>; the index \<open>HEAD\<close> is \<open>bcache.head\<close>, the sentinel of the LRU list. The
  data area of a buffer is the list of its 512 bytes, and the disk maps a sector to its bytes.
  Two fields only record what happens: \<open>dtrace\<close> the sectors written, in order, and \<open>bwakes\<close>
  the channels passed to \<open>wakeup\<close>.
\<close>

section \<open>Buffers and the disk\<close>

record buf =
  bflags :: uint
  bdev :: uint
  bsector :: uint
  bprev :: nat
  bnext :: nat
  bqnext :: "nat option"
  bdata :: block

record disk =
  memdisk :: "uint \<Rightarrow> block"
  disksize :: uint
  dtrace :: "(uint \<times> block) list"

record bcache =
  bclock :: spinlock
  bufs :: "nat \<Rightarrow> buf"
  bdisk :: disk
  bwakes :: "chan list"

abbreviation (input) HEAD :: nat where "HEAD \<equiv> 30"
abbreviation (input) B_BUSY :: uint where "B_BUSY \<equiv> 1"
abbreviation (input) B_VALID :: uint where "B_VALID \<equiv> 2"
abbreviation (input) B_DIRTY :: uint where "B_DIRTY \<equiv> 4"

definition busy :: "buf \<Rightarrow> bool" where "busy b \<longleftrightarrow> bflags b AND B_BUSY \<noteq> 0"
definition valid :: "buf \<Rightarrow> bool" where "valid b \<longleftrightarrow> bflags b AND B_VALID \<noteq> 0"
definition dirty :: "buf \<Rightarrow> bool" where "dirty b \<longleftrightarrow> bflags b AND B_DIRTY \<noteq> 0"

definition iderw :: "buf \<Rightarrow> disk \<Rightarrow> (buf \<times> disk) res" where
  "iderw b d =
     (if \<not> busy b then Panic ''iderw: buf not busy''
      else if bflags b AND (B_VALID OR B_DIRTY) = B_VALID then Panic ''iderw: nothing to do''
      else if bdev b \<noteq> 1 then Panic ''iderw: request not for disk 1''
      else if bsector b \<ge> disksize d then Panic ''iderw: sector out of range''
      else let p = bsector b
        in if dirty b
           then let b = b\<lparr>bflags := bflags b AND NOT B_DIRTY\<rparr>;
                    d = d\<lparr>memdisk := (memdisk d)(p := bdata b), dtrace := dtrace d @ [(p, bdata b)]\<rparr>
             in Ok (b\<lparr>bflags := bflags b OR B_VALID\<rparr>, d)
           else let b = b\<lparr>bdata := memdisk d p\<rparr>
             in Ok (b\<lparr>bflags := bflags b OR B_VALID\<rparr>, d))"

section \<open>The buffer cache\<close>

definition bupd :: "(nat \<Rightarrow> buf) \<Rightarrow> nat \<Rightarrow> (buf \<Rightarrow> buf) \<Rightarrow> nat \<Rightarrow> buf" where
  "bupd bs b f = bs(b := f (bs b))"

text \<open>One turn of the loop of \<open>binit\<close>, store by store.\<close>

definition binit_one :: "nat \<Rightarrow> (nat \<Rightarrow> buf) \<Rightarrow> nat \<Rightarrow> buf" where
  "binit_one b bs =
     (let bs = bupd bs b (bnext_update (\<lambda>_. bnext (bs HEAD)));
          bs = bupd bs b (bprev_update (\<lambda>_. HEAD));
          bs = bupd bs b (bdev_update (\<lambda>_. - 1));
          bs = bupd bs (bnext (bs HEAD)) (bprev_update (\<lambda>_. b))
      in bupd bs HEAD (bnext_update (\<lambda>_. b)))"

definition binit :: "bcache \<Rightarrow> bcache" where
  "binit s =
     (let bs = bupd (bufs s) HEAD (bprev_update (\<lambda>_. HEAD));
          bs = bupd bs HEAD (bnext_update (\<lambda>_. HEAD))
      in s\<lparr>bclock := initlock (bclock s) ''bcache'', bufs := fold binit_one [0..<NBUF] bs\<rparr>)"

definition bget :: "uint \<Rightarrow> uint \<Rightarrow> bcache \<Rightarrow> (nat \<times> bcache) res" where
  "bget dev sector s =
     (case walk (\<lambda>i. bnext (bufs s i)) (\<lambda>i. bdev (bufs s i) = dev \<and> bsector (bufs s i) = sector)
             HEAD (bnext (bufs s HEAD)) of
        None \<Rightarrow> Fault ''bget: list not closed''
      | Some (Some b) \<Rightarrow>
          if \<not> busy (bufs s b)
          then Ok (b, s\<lparr>bufs := bupd (bufs s) b (bflags_update (\<lambda>f. f OR B_BUSY))\<rparr>)
          else Sleep (ChBuf b)
      | Some None \<Rightarrow>
          (case walk (\<lambda>i. bprev (bufs s i)) (\<lambda>i. \<not> busy (bufs s i) \<and> \<not> dirty (bufs s i))
                  HEAD (bprev (bufs s HEAD)) of
             None \<Rightarrow> Fault ''bget: list not closed''
           | Some (Some b) \<Rightarrow>
               Ok (b, s\<lparr>bufs := bupd (bufs s) b
                       (\<lambda>u. u\<lparr>bdev := dev, bsector := sector, bflags := B_BUSY\<rparr>)\<rparr>)
           | Some None \<Rightarrow> Panic ''bget: no buffers''))"

text \<open>The call \<open>iderw(b)\<close> on a buffer of the cache.\<close>

definition bio_rw :: "nat \<Rightarrow> bcache \<Rightarrow> bcache res" where
  "bio_rw b s =
     rbind (iderw (bufs s b) (bdisk s)) (\<lambda>(u, d). Ok (s\<lparr>bufs := (bufs s)(b := u), bdisk := d\<rparr>))"

definition bread :: "uint \<Rightarrow> uint \<Rightarrow> bcache \<Rightarrow> (nat \<times> bcache) res" where
  "bread dev sector s =
     rbind (bget dev sector s)
       (\<lambda>(b, s). if \<not> valid (bufs s b) then rbind (bio_rw b s) (\<lambda>s. Ok (b, s)) else Ok (b, s))"

definition bwrite :: "nat \<Rightarrow> bcache \<Rightarrow> bcache res" where
  "bwrite b s =
     (if \<not> busy (bufs s b) then Panic ''bwrite''
      else bio_rw b (s\<lparr>bufs := bupd (bufs s) b (bflags_update (\<lambda>f. f OR B_DIRTY))\<rparr>))"

definition brelse :: "nat \<Rightarrow> bcache \<Rightarrow> bcache res" where
  "brelse b s =
     (if \<not> busy (bufs s b) then Panic ''brelse''
      else let bs = bufs s;
               bs = bupd bs (bnext (bs b)) (bprev_update (\<lambda>_. bprev (bs b)));
               bs = bupd bs (bprev (bs b)) (bnext_update (\<lambda>_. bnext (bs b)));
               bs = bupd bs b (bnext_update (\<lambda>_. bnext (bs HEAD)));
               bs = bupd bs b (bprev_update (\<lambda>_. HEAD));
               bs = bupd bs (bnext (bs HEAD)) (bprev_update (\<lambda>_. b));
               bs = bupd bs HEAD (bnext_update (\<lambda>_. b));
               bs = bupd bs b (bflags_update (\<lambda>f. f AND NOT B_BUSY))
        in Ok (s\<lparr>bufs := bs, bwakes := bwakes s @ [ChBuf b]\<rparr>))"

text \<open>The callers' own store into a held buffer's data area, e.g. \<open>memmove(b->data, p, BSIZE)\<close>.\<close>

definition bstore :: "nat \<Rightarrow> block \<Rightarrow> bcache \<Rightarrow> bcache" where
  "bstore b bs s = s\<lparr>bufs := bupd (bufs s) b (bdata_update (\<lambda>_. bs))\<rparr>"

text \<open>\<open>b->flags |= B_DIRTY\<close>, how \<open>log_write\<close> pins a buffer.\<close>

definition bpin :: "nat \<Rightarrow> bcache \<Rightarrow> bcache" where
  "bpin b s = s\<lparr>bufs := bupd (bufs s) b (bflags_update (\<lambda>f. f OR B_DIRTY))\<rparr>"

section \<open>Flags\<close>

lemma and_power_eq_0: "(f::uint) AND push_bit k 1 = 0 \<longleftrightarrow> \<not> bit f k \<or> 32 \<le> k"
  by (auto simp: bit_eq_iff[where 'a = uint] bit_simps not_less[symmetric])

lemma flag_bits [simp]:
  "busy b \<longleftrightarrow> bit (bflags b) 0" "valid b \<longleftrightarrow> bit (bflags b) 1" "dirty b \<longleftrightarrow> bit (bflags b) 2"
  using and_power_eq_0[of "bflags b" 0] and_power_eq_0[of "bflags b" 1] and_power_eq_0[of "bflags b" 2]
  by (simp_all add: busy_def valid_def dirty_def)

lemma bit_flag_const [simp]:
  "bit (1::uint) k \<longleftrightarrow> k = 0" "bit (2::uint) k \<longleftrightarrow> k = 1" "bit (4::uint) k \<longleftrightarrow> k = 2"
  using bit_push_bit_iff[of 1 "1::uint" k] bit_push_bit_iff[of 2 "1::uint" k]
  by (auto simp: bit_1_iff)

lemma bit_flags_3 [simp]: "bit (3::uint) 0" "bit (3::uint) (Suc 0)" "\<not> bit (3::uint) 2"
  by (simp_all add: bit_numeral_rec numeral_2_eq_2)

lemma valid_not_dirty_iff: "(f::uint) AND (B_VALID OR B_DIRTY) = B_VALID \<longleftrightarrow> bit f 1 \<and> \<not> bit f 2"
    (is "?l = ?r")
proof
  assume ?l
  then have "bit (f AND (B_VALID OR B_DIRTY)) k = bit (B_VALID) k" for k by simp
  from this[of 1] this[of 2] show ?r unfolding bit_and_iff bit_or_iff bit_flag_const by simp
next
  assume ?r
  then show ?l unfolding bit_eq_iff[where 'a = uint] bit_and_iff bit_or_iff bit_flag_const by auto
qed

section \<open>The LRU list\<close>

definition nexts :: "(nat \<Rightarrow> buf) \<Rightarrow> nat \<Rightarrow> nat" where "nexts bs = (\<lambda>i. bnext (bs i))"
definition prevs :: "(nat \<Rightarrow> buf) \<Rightarrow> nat \<Rightarrow> nat" where "prevs bs = (\<lambda>i. bprev (bs i))"

text \<open>The cache's pointers spell the list \<open>xs\<close>, most recently used buffer first.\<close>

definition lru :: "(nat \<Rightarrow> buf) \<Rightarrow> nat list \<Rightarrow> bool" where
  "lru bs xs \<longleftrightarrow> ring (nexts bs) (prevs bs) HEAD xs \<and> set xs = {0..<NBUF}"

lemma links_bupd [simp]:
  "nexts (bupd bs b (bnext_update f)) = (nexts bs)(b := f (nexts bs b))"
  "nexts (bupd bs b (bprev_update f)) = nexts bs"
  "prevs (bupd bs b (bnext_update f)) = prevs bs"
  "prevs (bupd bs b (bprev_update f)) = (prevs bs)(b := f (prevs bs b))"
  "nexts (bupd bs b (bdev_update g)) = nexts bs" "prevs (bupd bs b (bdev_update g)) = prevs bs"
  "nexts (bupd bs b (bsector_update g)) = nexts bs" "prevs (bupd bs b (bsector_update g)) = prevs bs"
  "nexts (bupd bs b (bflags_update g)) = nexts bs" "prevs (bupd bs b (bflags_update g)) = prevs bs"
  "nexts (bupd bs b (bdata_update h)) = nexts bs" "prevs (bupd bs b (bdata_update h)) = prevs bs"
  by (auto simp: nexts_def prevs_def bupd_def)

lemma link_apply: "bnext (bs i) = nexts bs i" "bprev (bs i) = prevs bs i"
  by (simp_all add: nexts_def prevs_def)

lemma lru_bound: "lru bs xs \<Longrightarrow> b \<in> set xs \<Longrightarrow> b < NBUF"
  by (auto simp: lru_def)

lemma brelse_links:
  assumes "brelse b s = Ok s'"
  shows "let nx = nexts (bufs s); pv = prevs (bufs s); nx1 = nx(pv b := nx b); pv1 = pv(nx b := pv b)
         in nexts (bufs s') = nx1(b := nx1 HEAD, HEAD := b) \<and> (b \<noteq> HEAD \<longrightarrow> pv b \<noteq> b \<longrightarrow> nx b \<noteq> b \<longrightarrow>
              prevs (bufs s') = pv1(b := HEAD, nx1 HEAD := b))"
  using assms unfolding brelse_def Let_def
  by (auto simp: link_apply split: if_splits)

lemma brelse_lru:
  assumes "brelse b s = Ok s'" "lru (bufs s) (ys @ b # zs)"
  shows "lru (bufs s') (b # ys @ zs)"
proof -
  have r: "ring (nexts (bufs s)) (prevs (bufs s)) HEAD (ys @ b # zs)" and "b \<noteq> HEAD"
    using assms(2) by (auto simp: lru_def ring_def)
  then show ?thesis
    using brelse_links[OF assms(1)] ring_move_front[OF r] ring_neighbours[OF r] assms(2)
    by (auto simp: lru_def Let_def)
qed

lemma binit_one_links:
  assumes "b \<noteq> HEAD"
  shows "nexts (binit_one b bs) = (nexts bs)(b := nexts bs HEAD, HEAD := b)"
    and "prevs (binit_one b bs) = (prevs bs)(b := HEAD, nexts bs HEAD := b)"
  using assms by (auto simp: binit_one_def Let_def link_apply)

lemma binit_loop_ring:
  assumes "ring (nexts bs) (prevs bs) HEAD xs" "distinct ns" "set ns \<inter> set (HEAD # xs) = {}"
  shows "ring (nexts (fold binit_one ns bs)) (prevs (fold binit_one ns bs)) HEAD (rev ns @ xs)"
  using assms
proof (induction ns arbitrary: bs xs)
  case (Cons b ns)
  then have "ring (nexts (binit_one b bs)) (prevs (binit_one b bs)) HEAD (b # xs)"
    by (auto simp: binit_one_links intro: ring_push)
  with Cons.IH[OF this] Cons.prems show ?case by simp
qed simp

lemma binit_lru: "lru (bufs (binit s)) (rev [0..<NBUF])"
proof -
  let ?bs = "bupd (bupd (bufs s) HEAD (bprev_update (\<lambda>_. HEAD))) HEAD (bnext_update (\<lambda>_. HEAD))"
  have "ring (nexts ?bs) (prevs ?bs) HEAD []" by (simp add: ring_def linked_def)
  from binit_loop_ring[OF this, of "[0..<NBUF]"] show ?thesis
    by (auto simp: lru_def binit_def Let_def simp del: upt_rec_numeral)
qed

section \<open>What a bget finds\<close>

definition holder :: "uint \<Rightarrow> uint \<Rightarrow> bcache \<Rightarrow> nat \<Rightarrow> bool" where
  "holder dev sector s b \<longleftrightarrow> bdev (bufs s b) = dev \<and> bsector (bufs s b) = sector"

definition reusable :: "bcache \<Rightarrow> nat \<Rightarrow> bool" where
  "reusable s b \<longleftrightarrow> \<not> busy (bufs s b) \<and> \<not> dirty (bufs s b)"

lemma bget_lru:
  assumes "lru (bufs s) xs"
  shows "bget dev sector s =
    (case find (holder dev sector s) xs of
       Some b \<Rightarrow> if busy (bufs s b) then Sleep (ChBuf b)
                 else Ok (b, s\<lparr>bufs := bupd (bufs s) b (bflags_update (\<lambda>f. f OR B_BUSY))\<rparr>)
     | None \<Rightarrow> (case find (reusable s) (rev xs) of
         Some b \<Rightarrow> Ok (b, s\<lparr>bufs := bupd (bufs s) b
                       (\<lambda>u. u\<lparr>bdev := dev, bsector := sector, bflags := B_BUSY\<rparr>)\<rparr>)
       | None \<Rightarrow> Panic ''bget: no buffers''))"
proof -
  have r: "ring (nexts (bufs s)) (prevs (bufs s)) HEAD xs" using assms by (simp add: lru_def)
  show ?thesis
    unfolding bget_def nexts_def[symmetric] prevs_def[symmetric] link_apply walk_ring[OF r] walk_ring_rev[OF r]
      holder_def[symmetric] reusable_def[symmetric]
    by (simp split: option.split)
qed

section \<open>The cache invariant and its abstraction\<close>

definition buf_ok :: "disk \<Rightarrow> buf \<Rightarrow> bool" where
  "buf_ok d u \<longleftrightarrow> length (bdata u) = BSIZE \<and>
     (bdev u = - 1 \<and> \<not> busy u \<and> \<not> valid u \<and> \<not> dirty u \<or> bdev u = 1 \<and> valid u \<and> bsector u < disksize d) \<and>
     (valid u \<and> \<not> busy u \<and> \<not> dirty u \<longrightarrow> bdata u = memdisk d (bsector u))"

definition cached :: "(nat \<Rightarrow> buf) \<Rightarrow> uint \<Rightarrow> nat \<Rightarrow> bool" where
  "cached bs n b \<longleftrightarrow> b < NBUF \<and> valid (bs b) \<and> bsector (bs b) = n"

text \<open>Every buffer is well formed, no sector is cached twice, and a clean idle buffer agrees with the disk.\<close>

definition cache_inv :: "bcache \<Rightarrow> bool" where
  "cache_inv s \<longleftrightarrow> (\<exists>xs. lru (bufs s) xs) \<and> (\<forall>b<NBUF. buf_ok (bdisk s) (bufs s b)) \<and>
     (\<forall>n b c. cached (bufs s) n b \<longrightarrow> cached (bufs s) n c \<longrightarrow> b = c) \<and>
     (\<forall>n<disksize (bdisk s). length (memdisk (bdisk s) n) = BSIZE)"

text \<open>
  What the cache promises: \<open>sview\<close> is the current content of every sector (cached or not),
  \<open>sdisk\<close> the content on the device, \<open>sheld\<close> the sectors whose buffers are busy, \<open>spinned\<close> the
  sectors whose buffers are dirty, \<open>strace\<close> the device writes so far.
\<close>

record bspec =
  sview :: "uint \<Rightarrow> block"
  sdisk :: "uint \<Rightarrow> block"
  sheld :: "uint set"
  spinned :: "uint set"
  ssize :: uint
  strace :: "(uint \<times> block) list"

definition bview :: "bcache \<Rightarrow> uint \<Rightarrow> block" where
  "bview s n = (case find (cached (bufs s) n) [0..<NBUF] of
      Some b \<Rightarrow> bdata (bufs s b) | None \<Rightarrow> memdisk (bdisk s) n)"

definition cache_abs :: "bcache \<Rightarrow> bspec" where
  "cache_abs s = \<lparr>sview = bview s, sdisk = memdisk (bdisk s),
     sheld = {bsector (bufs s b) |b. b < NBUF \<and> busy (bufs s b)},
     spinned = {bsector (bufs s b) |b. b < NBUF \<and> dirty (bufs s b)},
     ssize = disksize (bdisk s), strace = dtrace (bdisk s)\<rparr>"

definition holds :: "bcache \<Rightarrow> nat \<Rightarrow> uint \<Rightarrow> bool" where
  "holds s b n \<longleftrightarrow> cached (bufs s) n b \<and> busy (bufs s b)"

lemma cached_unique: "cache_inv s \<Longrightarrow> cached (bufs s) n b \<Longrightarrow> cached (bufs s) n c \<Longrightarrow> b = c"
  by (auto simp: cache_inv_def)

lemma bview_cached: "cache_inv s \<Longrightarrow> cached (bufs s) n b \<Longrightarrow> bview s n = bdata (bufs s b)"
proof -
  assume inv: "cache_inv s" and b: "cached (bufs s) n b"
  then have "\<exists>c\<in>set [0..<NBUF]. cached (bufs s) n c" by (auto simp: cached_def)
  then obtain c where "find (cached (bufs s) n) [0..<NBUF] = Some c" "cached (bufs s) n c"
    by (metis (mono_tags, lifting) find_None_iff find_Some_iff not_Some_eq)
  then show ?thesis using inv b by (auto simp: bview_def cache_inv_def)
qed

lemma bview_uncached: "(\<And>b. \<not> cached (bufs s) n b) \<Longrightarrow> bview s n = memdisk (bdisk s) n"
  by (simp add: bview_def find_None_iff[THEN iffD2] del: upt_rec_numeral)

section \<open>Operations on one buffer\<close>

definition same_core :: "buf \<Rightarrow> buf \<Rightarrow> bool" where
  "same_core u v \<longleftrightarrow> bflags u = bflags v \<and> bdev u = bdev v \<and> bsector u = bsector v \<and> bdata u = bdata v"

text \<open>
  The step from \<open>s\<close> to \<open>s'\<close> changes the contents of buffer \<open>b\<close> only, and the device only at
  that buffer's sector. Every operation of the cache is such a step.
\<close>

definition touches :: "bcache \<Rightarrow> nat \<Rightarrow> bcache \<Rightarrow> bool" where
  "touches s b s' \<longleftrightarrow> b < NBUF \<and> (\<exists>xs. lru (bufs s') xs) \<and> (\<forall>c. c \<noteq> b \<longrightarrow> same_core (bufs s' c) (bufs s c)) \<and>
     valid (bufs s' b) \<and> buf_ok (bdisk s') (bufs s' b) \<and> disksize (bdisk s') = disksize (bdisk s) \<and>
     (\<forall>n. n \<noteq> bsector (bufs s' b) \<longrightarrow> memdisk (bdisk s') n = memdisk (bdisk s) n) \<and>
     length (memdisk (bdisk s') (bsector (bufs s' b))) = BSIZE \<and>
     (\<forall>c. c \<noteq> b \<longrightarrow> \<not> cached (bufs s) (bsector (bufs s' b)) c) \<and>
     (cached (bufs s) (bsector (bufs s' b)) b \<or> reusable s b)"

lemma touches_cached:
  assumes "touches s b s'"
  shows "cached (bufs s') n c \<longleftrightarrow> (if c = b then n = bsector (bufs s' b) else cached (bufs s) n c)"
  using assms by (auto simp: touches_def cached_def same_core_def)

lemma touches_inv:
  assumes "cache_inv s" and t: "touches s b s'"
  shows "cache_inv s'"
proof -
  have "buf_ok (bdisk s') (bufs s' c)" if "c < NBUF" for c
  proof (cases "c = b")
    case False
    then have "same_core (bufs s' c) (bufs s c)" "buf_ok (bdisk s) (bufs s c)"
      and "valid (bufs s c) \<Longrightarrow> bsector (bufs s c) \<noteq> bsector (bufs s' b)"
      using assms that by (auto simp: touches_def cache_inv_def cached_def)
    then show ?thesis using t by (auto simp: buf_ok_def same_core_def touches_def)
  qed (use t in \<open>simp add: touches_def\<close>)
  moreover have "b1 = c1" if "cached (bufs s') n b1" "cached (bufs s') n c1" for n b1 c1
    using that assms unfolding touches_cached[OF t] by (auto simp: cache_inv_def touches_def split: if_splits)
  moreover have "length (memdisk (bdisk s') n) = BSIZE" if "n < disksize (bdisk s')" for n
    using that assms by (cases "n = bsector (bufs s' b)") (auto simp: cache_inv_def touches_def)
  ultimately show ?thesis using t by (auto simp: cache_inv_def touches_def)
qed

lemma touches_view:
  assumes inv: "cache_inv s" and t: "touches s b s'"
  shows "bview s' = (bview s)(bsector (bufs s' b) := bdata (bufs s' b))"
proof
  fix n
  let ?n = "bsector (bufs s' b)"
  have inv': "cache_inv s'" using touches_inv[OF assms] .
  show "bview s' n = ((bview s)(?n := bdata (bufs s' b))) n"
  proof (cases "n = ?n")
    case True
    then show ?thesis using bview_cached[OF inv', of ?n b] touches_cached[OF t] by simp
  next
    case n: False
    then have mem: "memdisk (bdisk s') n = memdisk (bdisk s) n" using t by (simp add: touches_def)
    show ?thesis
    proof (cases "\<exists>c. c \<noteq> b \<and> cached (bufs s) n c")
      case True
      then obtain c where c: "c \<noteq> b" "cached (bufs s) n c" by blast
      then have "cached (bufs s') n c" "bdata (bufs s' c) = bdata (bufs s c)"
        using t touches_cached[OF t] by (auto simp: touches_def same_core_def)
      then show ?thesis using bview_cached[OF inv] bview_cached[OF inv'] c n by simp
    next
      case False
      then have "bview s' n = memdisk (bdisk s') n"
        using touches_cached[OF t] n by (intro bview_uncached) auto
      moreover have "bview s n = memdisk (bdisk s) n"
      proof (cases "cached (bufs s) n b")
        case True
        then have "reusable s b" "buf_ok (bdisk s) (bufs s b)"
          using t n inv by (auto simp: touches_def cached_def cache_inv_def)
        then show ?thesis
          using bview_cached[OF inv True] True by (simp add: buf_ok_def reusable_def cached_def)
      qed (use False in \<open>auto intro: bview_uncached\<close>)
      ultimately show ?thesis using mem n by simp
    qed
  qed
qed

lemma marked_valid:
  assumes "cache_inv s" "c < NBUF" "busy (bufs s c) \<or> dirty (bufs s c)"
  shows "cached (bufs s) (bsector (bufs s c)) c"
  using assms by (auto simp: cache_inv_def buf_ok_def cached_def)

lemma pinned_cached:
  assumes "cache_inv s" "n \<in> spinned (cache_abs s)"
  shows "\<exists>c. cached (bufs s) n c \<and> dirty (bufs s c)"
proof -
  obtain c where "c < NBUF" "dirty (bufs s c)" "bsector (bufs s c) = n"
    using assms(2) by (auto simp: cache_abs_def)
  then show ?thesis using marked_valid[OF assms(1), of c] by blast
qed

lemma pinned_iff:
  assumes "cache_inv s" "cached (bufs s) n b"
  shows "n \<in> spinned (cache_abs s) \<longleftrightarrow> dirty (bufs s b)"
proof
  assume "n \<in> spinned (cache_abs s)"
  then show "dirty (bufs s b)" using pinned_cached[OF assms(1)] cached_unique[OF assms] by blast
next
  assume "dirty (bufs s b)"
  then show "n \<in> spinned (cache_abs s)" using assms(2) unfolding cache_abs_def cached_def by auto
qed

lemma touches_marked:
  assumes inv: "cache_inv s" and t: "touches s b s'"
    and F: "\<And>u v. same_core u v \<Longrightarrow> F u = F v" "\<And>u. F u \<Longrightarrow> busy u \<or> dirty u"
  shows "{bsector (bufs s' c) |c. c < NBUF \<and> F (bufs s' c)} =
     {bsector (bufs s c) |c. c < NBUF \<and> F (bufs s c)} - {bsector (bufs s' b)} \<union>
     (if F (bufs s' b) then {bsector (bufs s' b)} else {})" (is "?L = ?R")
proof -
  let ?n = "bsector (bufs s' b)"
  have b: "b < NBUF" and core: "\<And>c. c \<noteq> b \<Longrightarrow> same_core (bufs s' c) (bufs s c)"
    using t by (auto simp: touches_def)
  have ne: "bsector (bufs s c) \<noteq> ?n" if "c < NBUF" "c \<noteq> b" "F (bufs s c)" for c
    using marked_valid[OF inv that(1)] F(2)[OF that(3)] t that(2) by (auto simp: touches_def)
  have old: "bsector (bufs s b) = ?n" if "F (bufs s b)"
    using F(2)[OF that] t by (auto simp: touches_def cached_def reusable_def)
  have "?L = {bsector (bufs s c) |c. c < NBUF \<and> c \<noteq> b \<and> F (bufs s c)} \<union> (if F (bufs s' b) then {?n} else {})"
    using b F(1)[OF core] core unfolding same_core_def by (auto split: if_splits; metis)
  also have "\<dots> = ?R"
    using ne old by auto
  finally show ?thesis .
qed

lemma touches_abs:
  assumes "cache_inv s" "touches s b s'"
  defines "n \<equiv> bsector (bufs s' b)"
  shows "cache_abs s' = \<lparr>sview = (sview (cache_abs s))(n := bdata (bufs s' b)), sdisk = memdisk (bdisk s'),
     sheld = sheld (cache_abs s) - {n} \<union> (if busy (bufs s' b) then {n} else {}),
     spinned = spinned (cache_abs s) - {n} \<union> (if dirty (bufs s' b) then {n} else {}),
     ssize = ssize (cache_abs s), strace = dtrace (bdisk s')\<rparr>"
  using touches_marked[OF assms(1,2), of busy] touches_marked[OF assms(1,2), of dirty]
    touches_view[OF assms(1,2)] assms(2)
  by (simp add: cache_abs_def n_def same_core_def touches_def)

lemma touches_holds:
  "touches s b s' \<Longrightarrow> holds s' c m \<longleftrightarrow> (if c = b then m = bsector (bufs s' b) \<and> busy (bufs s' b) else holds s c m)"
  using touches_cached[of s b s'] by (auto simp: holds_def touches_def same_core_def)

lemma holds_touch:
  assumes "cache_inv s" "holds s b n"
  shows "b < NBUF" "busy (bufs s b)" "valid (bufs s b)" "bsector (bufs s b) = n" "bdev (bufs s b) = 1"
    "n < disksize (bdisk s)" "length (bdata (bufs s b)) = BSIZE" "c \<noteq> b \<Longrightarrow> \<not> cached (bufs s) n c"
    "length (memdisk (bdisk s) n) = BSIZE"
  using assms by (auto simp: holds_def cached_def cache_inv_def buf_ok_def)

text \<open>The operations on a held buffer.\<close>

lemma lru_upd:
  assumes "bnext u = bnext (bs b)" "bprev u = bprev (bs b)"
  shows "lru (bs(b := u)) xs = lru bs xs"
proof -
  have "nexts (bs(b := u)) = nexts bs" "prevs (bs(b := u)) = prevs bs"
    using assms by (auto simp: nexts_def prevs_def)
  then show ?thesis by (simp only: lru_def)
qed

lemma holds_cached: "holds s b n \<Longrightarrow> cached (bufs s) n b"
  by (simp add: holds_def)

lemma cached_touches:
  assumes inv: "cache_inv s" and h: "cached (bufs s) n b"
    and s': "bufs s' = (bufs s)(b := u)" "bnext u = bnext (bufs s b)" "bprev u = bprev (bufs s b)"
      "bsector u = n" "valid u" "buf_ok (bdisk s') u" "disksize (bdisk s') = disksize (bdisk s)"
      "\<And>m. m \<noteq> n \<Longrightarrow> memdisk (bdisk s') m = memdisk (bdisk s) m" "length (memdisk (bdisk s') n) = BSIZE"
  shows "touches s b s'"
proof -
  have "\<exists>xs. lru (bufs s') xs" using inv s'(1) lru_upd[where bs = "bufs s", OF s'(2,3)] by (simp add: cache_inv_def)
  moreover have "\<not> cached (bufs s) n c" if "c \<noteq> b" for c using cached_unique[OF inv h] that by blast
  moreover have "b < NBUF" using h by (simp add: cached_def)
  ultimately show ?thesis
    using h s' by (simp add: touches_def same_core_def)
qed

lemma bstore_touches:
  assumes "cache_inv s" "holds s b n" "length d = BSIZE"
  shows "touches s b (bstore b d s)"
  using holds_touch[OF assms(1,2)] assms(3)
  by (intro cached_touches[OF assms(1) holds_cached[OF assms(2)], where u = "(bufs s b)\<lparr>bdata := d\<rparr>"]) (auto simp: bstore_def bupd_def buf_ok_def)

lemma bpin_touches:
  assumes "cache_inv s" "holds s b n"
  shows "touches s b (bpin b s)"
  using holds_touch[OF assms(1,2)]
  by (intro cached_touches[OF assms(1) holds_cached[OF assms(2)], where u = "bflags_update (\<lambda>f. f OR B_DIRTY) (bufs s b)"]) (auto simp: bpin_def bupd_def buf_ok_def bit_or_iff)

lemma bwrite_touches:
  assumes "cache_inv s" "holds s b n"
  shows "\<exists>s'. bwrite b s = Ok s' \<and> touches s b s' \<and> busy (bufs s' b) \<and> \<not> dirty (bufs s' b) \<and>
    bsector (bufs s' b) = n \<and> bdata (bufs s' b) = bdata (bufs s b) \<and>
    memdisk (bdisk s') = (memdisk (bdisk s))(n := bdata (bufs s b)) \<and>
    dtrace (bdisk s') = dtrace (bdisk s) @ [(n, bdata (bufs s b))]"
proof -
  let ?u = "(bufs s b)\<lparr>bflags := (bflags (bufs s b) OR B_DIRTY) AND NOT B_DIRTY OR B_VALID\<rparr>"
  let ?d = "(bdisk s)\<lparr>memdisk := (memdisk (bdisk s))(n := bdata (bufs s b)),
                     dtrace := dtrace (bdisk s) @ [(n, bdata (bufs s b))]\<rparr>"
  let ?s = "s\<lparr>bufs := (bufs s)(b := ?u), bdisk := ?d\<rparr>"
  note h = holds_touch[OF assms]
  have "bwrite b s = Ok ?s"
    using h unfolding bwrite_def bio_rw_def iderw_def valid_not_dirty_iff
    by (simp add: bupd_def bit_or_iff not_le Let_def)
  moreover have "touches s b ?s"
    using h by (intro cached_touches[OF assms(1) holds_cached[OF assms(2)], where u = ?u]) (auto simp: buf_ok_def bit_or_iff bit_and_iff bit_not_iff)
  ultimately show ?thesis using h by (auto simp: bit_or_iff bit_and_iff bit_not_iff)
qed

lemma core_bupd_links [simp]:
  "bflags (bupd bs b (bnext_update f) c) = bflags (bs c)" "bflags (bupd bs b (bprev_update f) c) = bflags (bs c)"
  "bdev (bupd bs b (bnext_update f) c) = bdev (bs c)" "bdev (bupd bs b (bprev_update f) c) = bdev (bs c)"
  "bsector (bupd bs b (bnext_update f) c) = bsector (bs c)" "bsector (bupd bs b (bprev_update f) c) = bsector (bs c)"
  "bdata (bupd bs b (bnext_update f) c) = bdata (bs c)" "bdata (bupd bs b (bprev_update f) c) = bdata (bs c)"
  "bdev (bupd bs b (bflags_update g) c) = bdev (bs c)" "bsector (bupd bs b (bflags_update g) c) = bsector (bs c)"
  "bdata (bupd bs b (bflags_update g) c) = bdata (bs c)"
  "bflags (bupd bs b (bflags_update g) c) = (if c = b then g (bflags (bs b)) else bflags (bs c))"
  by (simp_all add: bupd_def)

lemma brelse_core:
  assumes "brelse b s = Ok s'"
  shows "bflags (bufs s' c) = (if c = b then bflags (bufs s b) AND NOT B_BUSY else bflags (bufs s c))"
    "bdev (bufs s' c) = bdev (bufs s c)" "bsector (bufs s' c) = bsector (bufs s c)"
    "bdata (bufs s' c) = bdata (bufs s c)" "bdisk s' = bdisk s"
  using assms by (simp_all add: brelse_def Let_def split: if_splits) (drule sym, simp)+

lemma brelse_touches:
  assumes "cache_inv s" "holds s b n" "dirty (bufs s b) \<or> bdata (bufs s b) = memdisk (bdisk s) n"
  shows "\<exists>s'. brelse b s = Ok s' \<and> touches s b s' \<and> \<not> busy (bufs s' b) \<and> dirty (bufs s' b) = dirty (bufs s b) \<and>
    bsector (bufs s' b) = n \<and> bdata (bufs s' b) = bdata (bufs s b) \<and> bdisk s' = bdisk s"
proof -
  note h = holds_touch[OF assms(1,2)]
  obtain s' where s': "brelse b s = Ok s'" using h(2) by (simp add: brelse_def Let_def)
  note core = brelse_core[OF s']
  obtain xs where xs: "lru (bufs s) xs" using assms(1) by (auto simp: cache_inv_def)
  then obtain ys zs where "xs = ys @ b # zs"
    using h(1) by (metis atLeastLessThan_iff le0 lru_def split_list)
  then have "\<exists>xs. lru (bufs s') xs" using brelse_lru[OF s'] xs by blast
  moreover have "buf_ok (bdisk s') (bufs s' b)"
    using h assms(3) by (auto simp: buf_ok_def core bit_and_iff bit_not_iff)
  ultimately have "touches s b s'"
    using h assms(2) by (auto simp: touches_def same_core_def core holds_def bit_and_iff bit_not_iff)
  then show ?thesis using s' h by (auto simp: core bit_and_iff bit_not_iff)
qed

lemma free_buffer:
  assumes "cache_inv s" "card (sheld (cache_abs s) \<union> spinned (cache_abs s)) < NBUF"
  shows "\<exists>b<NBUF. reusable s b"
proof (rule ccontr)
  assume "\<not> ?thesis"
  then have m: "busy (bufs s b) \<or> dirty (bufs s b)" if "b < NBUF" for b using that by (auto simp: reusable_def)
  have "cached (bufs s) (bsector (bufs s b)) b" if "b < NBUF" for b
    using marked_valid[OF assms(1) that m[OF that]] .
  then have inj: "inj_on (\<lambda>b. bsector (bufs s b)) {0..<NBUF}"
    using cached_unique[OF assms(1)] by (intro inj_onI) (metis atLeastLessThan_iff)
  have "(\<lambda>b. bsector (bufs s b)) ` {0..<NBUF} \<subseteq> sheld (cache_abs s) \<union> spinned (cache_abs s)"
    using m by (fastforce simp: cache_abs_def)
  moreover have "finite (sheld (cache_abs s) \<union> spinned (cache_abs s))" by (simp add: cache_abs_def)
  ultimately have "card {0..<NBUF} \<le> card (sheld (cache_abs s) \<union> spinned (cache_abs s))"
    using card_image[OF inj] card_mono by metis
  then show False using assms(2) by simp
qed

lemma holder_cached:
  assumes "cache_inv s" "b < NBUF"
  shows "holder 1 n s b \<longleftrightarrow> cached (bufs s) n b"
proof -
  have "buf_ok (bdisk s) (bufs s b)" using assms by (simp add: cache_inv_def)
  then show ?thesis using assms(2) by (auto simp: holder_def cached_def buf_ok_def)
qed

lemma find_SomeD: "find P xs = Some x \<Longrightarrow> x \<in> set xs \<and> P x"
  by (induction xs) (auto split: if_splits)

lemma find_split: "find P xs = Some x \<Longrightarrow> \<exists>as bs. xs = as @ x # bs \<and> P x \<and> (\<forall>c\<in>set as. \<not> P c)"
proof (induction xs)
  case (Cons y xs)
  then show ?case
  proof (cases "P y")
    case False
    then obtain as bs where "xs = as @ x # bs" "P x" "\<forall>c\<in>set as. \<not> P c" using Cons by auto
    with False show ?thesis by (intro exI[of _ "y # as"] exI[of _ bs]) auto
  qed force
qed simp

lemma find_SomeI: "x \<in> set xs \<Longrightarrow> P x \<Longrightarrow> \<exists>y. find P xs = Some y \<and> y \<in> set xs \<and> P y"
  by (induction xs) auto

definition bread_result :: "bcache \<Rightarrow> uint \<Rightarrow> nat \<Rightarrow> bcache \<Rightarrow> bool" where
  "bread_result s n b s' \<longleftrightarrow> bread 1 n s = Ok (b, s') \<and> touches s b s' \<and> busy (bufs s' b) \<and>
     (dirty (bufs s' b) \<longleftrightarrow> n \<in> spinned (cache_abs s)) \<and> bsector (bufs s' b) = n \<and>
     bdata (bufs s' b) = bview s n \<and> bdisk s' = bdisk s"

lemma bread_hit:
  assumes inv: "cache_inv s" and c: "cached (bufs s) n b" and nb: "n \<notin> sheld (cache_abs s)"
  shows "\<exists>s'. bread_result s n b s'"
proof -
  let ?u = "bflags_update (\<lambda>f. f OR B_BUSY) (bufs s b)"
  let ?s = "s\<lparr>bufs := (bufs s)(b := ?u)\<rparr>"
  obtain xs where xs: "lru (bufs s) xs" using inv by (auto simp: cache_inv_def)
  have b: "b \<in> set xs" "b < NBUF" using xs c by (auto simp: lru_def cached_def)
  obtain b' where "find (holder 1 n s) xs = Some b'" "b' \<in> set xs" "holder 1 n s b'"
    using find_SomeI[of b xs "holder 1 n s"] b holder_cached[OF inv] c by blast
  then have f: "find (holder 1 n s) xs = Some b"
    using cached_unique[OF inv c] holder_cached[OF inv] lru_bound[OF xs] by blast
  have free: "\<not> busy (bufs s b)" using nb b c by (auto simp: cache_abs_def cached_def)
  have ok: "buf_ok (bdisk s) (bufs s b)" using inv b by (simp add: cache_inv_def)
  have "bread 1 n s = Ok (b, ?s)"
    using f free c unfolding bread_def bget_lru[OF xs]
    by (simp add: cached_def bupd_def bit_or_iff)
  moreover have "touches s b ?s"
    using ok c inv by (intro cached_touches[OF inv c, where u = ?u]) (auto simp: buf_ok_def cached_def bit_or_iff cache_inv_def)
  moreover have "dirty (bufs s b) \<longleftrightarrow> n \<in> spinned (cache_abs s)"
    using pinned_iff[OF inv c] by simp
  moreover have "bdata (bufs s b) = bview s n" using bview_cached[OF inv c] by simp
  ultimately show ?thesis using c by (auto simp: bread_result_def bit_or_iff cached_def)
qed

lemma bread_miss_at:
  assumes inv: "cache_inv s" and c: "\<And>b. \<not> cached (bufs s) n b" and n: "n < disksize (bdisk s)"
    and xs: "lru (bufs s) xs" and f2: "find (reusable s) (rev xs) = Some b"
  shows "\<exists>s'. bread_result s n b s'"
proof -
  have f1: "find (holder 1 n s) xs = None"
    unfolding find_None_iff using holder_cached[OF inv] c lru_bound[OF xs] by blast
  have b: "b \<in> set xs" "reusable s b" using find_SomeD[OF f2] by simp_all
  let ?u = "(bufs s b)\<lparr>bdev := 1, bsector := n, bdata := memdisk (bdisk s) n, bflags := 3\<rparr>"
  let ?s = "s\<lparr>bufs := (bufs s)(b := ?u)\<rparr>"
  have len: "length (memdisk (bdisk s) n) = BSIZE" using inv n by (simp add: cache_inv_def)
  have "bread 1 n s = Ok (b, ?s)"
    unfolding bread_def bget_lru[OF xs] using f1 f2 n
    by (simp add: bupd_def bio_rw_def iderw_def valid_not_dirty_iff Let_def not_le)
  moreover have "touches s b ?s"
    using b c n len lru_bound[OF xs b(1)] xs lru_upd[of ?u "bufs s" b]
    by (auto simp: touches_def same_core_def buf_ok_def bit_or_iff)
  moreover have "n \<notin> spinned (cache_abs s)"
    using c pinned_cached[OF inv] by blast
  moreover have "bview s n = memdisk (bdisk s) n" using c by (rule bview_uncached)
  ultimately have "bread_result s n b ?s" by (auto simp: bread_result_def bit_or_iff)
  then show ?thesis by blast
qed

lemma bread_miss:
  assumes inv: "cache_inv s" and c: "\<And>b. \<not> cached (bufs s) n b" and n: "n < disksize (bdisk s)"
    and room: "card (sheld (cache_abs s) \<union> spinned (cache_abs s)) < NBUF"
  shows "\<exists>b s'. bread_result s n b s'"
proof -
  obtain xs where xs: "lru (bufs s) xs" using inv by (auto simp: cache_inv_def)
  obtain b where "b < NBUF" "reusable s b" using free_buffer[OF inv room] by blast
  then obtain b where "find (reusable s) (rev xs) = Some b"
    using find_SomeI[of b "rev xs" "reusable s"] xs by (auto simp: lru_def)
  then show ?thesis using bread_miss_at[OF inv c n xs] by blast
qed

lemma bread_succeeds:
  assumes "cache_inv s" "n < disksize (bdisk s)" "n \<notin> sheld (cache_abs s)"
    and "n \<in> spinned (cache_abs s) \<or> card (sheld (cache_abs s) \<union> spinned (cache_abs s)) < NBUF"
  shows "\<exists>b s'. bread_result s n b s'"
proof (cases "\<exists>b. cached (bufs s) n b")
  case False
  then have "n \<notin> spinned (cache_abs s)" using pinned_cached[OF assms(1)] by blast
  with False bread_miss[OF assms(1)] assms(2,4) show ?thesis by blast
qed (use bread_hit[OF assms(1)] assms(3) in blast)

section \<open>The contract of the buffer cache\<close>

text \<open>
  What the log and the file system rely on: the operations of the cache as functions on the
  abstract state. A read needs an idle buffer for the sector, so it succeeds when the sector is
  pinned already or some buffer is neither busy nor dirty.
\<close>

definition copied :: "bspec \<Rightarrow> uint \<Rightarrow> uint \<Rightarrow> bspec" where
  "copied a m n = a\<lparr>sview := (sview a)(n := sview a m), sdisk := (sdisk a)(n := sview a m),
                   spinned := spinned a - {n}, strace := strace a @ [(n, sview a m)]\<rparr>"

locale block_cache =
  fixes inv :: "'s \<Rightarrow> bool" and abs :: "'s \<Rightarrow> bspec" and hold :: "'s \<Rightarrow> nat \<Rightarrow> uint \<Rightarrow> bool"
    and data :: "'s \<Rightarrow> nat \<Rightarrow> block" and rd :: "uint \<Rightarrow> 's \<Rightarrow> (nat \<times> 's) res"
    and wr rel :: "nat \<Rightarrow> 's \<Rightarrow> 's res" and store :: "nat \<Rightarrow> block \<Rightarrow> 's \<Rightarrow> 's" and pin :: "nat \<Rightarrow> 's \<Rightarrow> 's"
  assumes rd: "\<lbrakk>inv s; n < ssize (abs s); n \<notin> sheld (abs s);
        n \<in> spinned (abs s) \<or> card (sheld (abs s) \<union> spinned (abs s)) < NBUF\<rbrakk>
      \<Longrightarrow> \<exists>b s'. rd n s = Ok (b, s') \<and> inv s' \<and> hold s' b n \<and> (\<forall>c m. hold s c m \<longrightarrow> hold s' c m) \<and>
            abs s' = (abs s)\<lparr>sheld := insert n (sheld (abs s))\<rparr>"
    and wr: "\<lbrakk>inv s; hold s b n\<rbrakk>
      \<Longrightarrow> \<exists>s'. wr b s = Ok s' \<and> inv s' \<and> (\<forall>c m. hold s' c m = hold s c m) \<and>
            abs s' = (abs s)\<lparr>sdisk := (sdisk (abs s))(n := sview (abs s) n), spinned := spinned (abs s) - {n},
                            strace := strace (abs s) @ [(n, sview (abs s) n)]\<rparr>"
    and rel: "\<lbrakk>inv s; hold s b n; n \<in> spinned (abs s) \<or> sview (abs s) n = sdisk (abs s) n\<rbrakk>
      \<Longrightarrow> \<exists>s'. rel b s = Ok s' \<and> inv s' \<and> (\<forall>c m. hold s' c m \<longleftrightarrow> c \<noteq> b \<and> hold s c m) \<and>
            abs s' = (abs s)\<lparr>sheld := sheld (abs s) - {n}\<rparr>"
    and store: "\<lbrakk>inv s; hold s b n; length d = BSIZE\<rbrakk>
      \<Longrightarrow> inv (store b d s) \<and> (\<forall>c m. hold (store b d s) c m = hold s c m) \<and>
            abs (store b d s) = (abs s)\<lparr>sview := (sview (abs s))(n := d)\<rparr>"
    and pin: "\<lbrakk>inv s; hold s b n\<rbrakk>
      \<Longrightarrow> inv (pin b s) \<and> (\<forall>c m. hold (pin b s) c m = hold s c m) \<and>
            abs (pin b s) = (abs s)\<lparr>spinned := insert n (spinned (abs s))\<rparr>"
    and data: "\<lbrakk>inv s; hold s b n\<rbrakk> \<Longrightarrow> data s b = sview (abs s) n"
    and held: "\<lbrakk>inv s; hold s b n\<rbrakk> \<Longrightarrow> n \<in> sheld (abs s) \<and> n < ssize (abs s)"
    and inj: "\<lbrakk>inv s; hold s b n; hold s c m\<rbrakk> \<Longrightarrow> b = c \<longleftrightarrow> n = m"
    and len: "\<lbrakk>inv s; n < ssize (abs s)\<rbrakk> \<Longrightarrow> length (sview (abs s) n) = BSIZE"
    and coherent: "\<lbrakk>inv s; n \<notin> sheld (abs s); n \<notin> spinned (abs s)\<rbrakk> \<Longrightarrow> sview (abs s) n = sdisk (abs s) n"
    and finite_marks: "finite (sheld (abs s) \<union> spinned (abs s))"
begin

text \<open>Reading a sector and releasing it: \<open>b = bread(n); ... b->data ...; brelse(b)\<close>.\<close>

lemma read_release:
  assumes "inv s" "n < ssize (abs s)" "n \<notin> sheld (abs s)" "card (sheld (abs s) \<union> spinned (abs s)) < NBUF"
  shows "\<exists>b s1 s2. rd n s = Ok (b, s1) \<and> data s1 b = sview (abs s) n \<and> rel b s1 = Ok s2 \<and> inv s2 \<and> abs s2 = abs s"
proof -
  obtain b s1 where r: "rd n s = Ok (b, s1)" "inv s1" "hold s1 b n"
      "abs s1 = (abs s)\<lparr>sheld := insert n (sheld (abs s))\<rparr>"
    using rd[OF assms(1-3)] assms(4) by blast
  have "n \<in> spinned (abs s1) \<or> sview (abs s1) n = sdisk (abs s1) n"
    using coherent[OF assms(1,3)] r(4) by auto
  then obtain s2 where "rel b s1 = Ok s2" "inv s2" "abs s2 = (abs s1)\<lparr>sheld := sheld (abs s1) - {n}\<rparr>"
    using rel[OF r(2,3)] by blast
  then show ?thesis using r data[OF r(2,3)] assms(3) by auto
qed

text \<open>Reading a sector, changing its data, writing it through and releasing it.\<close>

lemma read_write_release:
  assumes "inv s" "n < ssize (abs s)" "n \<notin> sheld (abs s)" "card (sheld (abs s) \<union> spinned (abs s)) < NBUF"
    and f: "length (f (sview (abs s) n)) = BSIZE"
  shows "\<exists>s'. rbind (rd n s) (\<lambda>(b, s). rbind (wr b (store b (f (data s b)) s)) (rel b)) = Ok s' \<and> inv s' \<and>
    abs s' = (abs s)\<lparr>sview := (sview (abs s))(n := f (sview (abs s) n)),
                    sdisk := (sdisk (abs s))(n := f (sview (abs s) n)),
                    spinned := spinned (abs s) - {n}, strace := strace (abs s) @ [(n, f (sview (abs s) n))]\<rparr>"
proof -
  obtain b s1 where r: "rd n s = Ok (b, s1)" "inv s1" "hold s1 b n"
      "abs s1 = (abs s)\<lparr>sheld := insert n (sheld (abs s))\<rparr>"
    using rd[OF assms(1-3)] assms(4) by blast
  let ?s2 = "store b (f (data s1 b)) s1"
  have d: "data s1 b = sview (abs s) n" using data[OF r(2,3)] r(4) by simp
  note st = store[OF r(2,3), of "f (data s1 b)", unfolded d, OF f, folded d]
  have h2: "inv ?s2" "hold ?s2 b n" using st r(3) by simp_all
  obtain s3 where w: "wr b ?s2 = Ok s3" "inv s3" "hold s3 b n"
      "abs s3 = (abs ?s2)\<lparr>sdisk := (sdisk (abs ?s2))(n := sview (abs ?s2) n), spinned := spinned (abs ?s2) - {n},
                          strace := strace (abs ?s2) @ [(n, sview (abs ?s2) n)]\<rparr>"
    using wr[OF h2] h2(2) by metis
  obtain s4 where "rel b s3 = Ok s4" "inv s4" "abs s4 = (abs s3)\<lparr>sheld := sheld (abs s3) - {n}\<rparr>"
    using rel[OF w(2,3)] w(4) by auto
  then show ?thesis using r(1,4) w(1,4) st d assms(3) by simp
qed

text \<open>Reading a sector, changing its data, pinning and releasing it: the file system's way to write,
  \<open>b = bread(n); ... change b->data ...; log_write(b); brelse(b)\<close>.\<close>

lemma read_pin_release:
  assumes "inv s" "n < ssize (abs s)" "n \<notin> sheld (abs s)"
    and "n \<in> spinned (abs s) \<or> card (sheld (abs s) \<union> spinned (abs s)) < NBUF"
    and f: "length (f (sview (abs s) n)) = BSIZE"
  shows "\<exists>b s1 s2. rd n s = Ok (b, s1) \<and> hold s1 b n \<and> data s1 b = sview (abs s) n \<and>
    rel b (pin b (store b (f (data s1 b)) s1)) = Ok s2 \<and> inv s2 \<and>
    abs s2 = (abs s)\<lparr>sview := (sview (abs s))(n := f (sview (abs s) n)), spinned := insert n (spinned (abs s))\<rparr>"
proof -
  obtain b s1 where r: "rd n s = Ok (b, s1)" "inv s1" "hold s1 b n"
      "abs s1 = (abs s)\<lparr>sheld := insert n (sheld (abs s))\<rparr>"
    using rd[OF assms(1-4)] by blast
  have d: "data s1 b = sview (abs s) n" using data[OF r(2,3)] r(4) by simp
  note st = store[OF r(2,3), of "f (data s1 b)", unfolded d, OF f, folded d]
  let ?s2 = "store b (f (data s1 b)) s1"
  have h2: "inv ?s2" "hold ?s2 b n" using st r(3) by simp_all
  have h3: "inv (pin b ?s2)" "hold (pin b ?s2) b n" using pin[OF h2] h2(2) by simp_all
  obtain s3 where "rel b (pin b ?s2) = Ok s3" "inv s3"
      "abs s3 = (abs (pin b ?s2))\<lparr>sheld := sheld (abs (pin b ?s2)) - {n}\<rparr>"
    using rel[OF h3] pin[OF h2] by auto
  then show ?thesis using r d st pin[OF h2] assms(3) by auto
qed

text \<open>Copying a held sector into another one, as the loops of the log do.\<close>

lemma copy_held:
  assumes i: "inv s" and x: "hold s x m" and y: "hold s y n" and "m \<noteq> n"
    and m: "m \<in> spinned (abs s) \<or> sview (abs s) m = sdisk (abs s) m"
  shows "\<exists>s'. rbind (wr y (store y (data s x) s)) (\<lambda>s. rbind (rel x s) (rel y)) = Ok s' \<and> inv s' \<and>
    abs s' = (abs s)\<lparr>sview := (sview (abs s))(n := sview (abs s) m), sdisk := (sdisk (abs s))(n := sview (abs s) m),
                    sheld := sheld (abs s) - {m, n}, spinned := spinned (abs s) - {n},
                    strace := strace (abs s) @ [(n, sview (abs s) m)]\<rparr>"
proof -
  have d: "data s x = sview (abs s) m" and l: "length (sview (abs s) m) = BSIZE"
    using data[OF i x] held[OF i x] len[OF i] by auto
  let ?s2 = "store y (data s x) s"
  note st = store[OF i y, of "data s x", unfolded d, OF l, folded d]
  have h2: "inv ?s2" "hold ?s2 y n" "hold ?s2 x m" using st x y by simp_all
  have neq: "x \<noteq> y" using inj[OF i x y] assms(4) by simp
  obtain s3 where w: "wr y ?s2 = Ok s3" "inv s3" "hold s3 x m" "hold s3 y n"
      "abs s3 = (abs ?s2)\<lparr>sdisk := (sdisk (abs ?s2))(n := sview (abs ?s2) n), spinned := spinned (abs ?s2) - {n},
                          strace := strace (abs ?s2) @ [(n, sview (abs ?s2) n)]\<rparr>"
    using wr[OF h2(1,2)] h2(2,3) by metis
  have "m \<in> spinned (abs s3) \<or> sview (abs s3) m = sdisk (abs s3) m" using m w(5) st assms(4) by auto
  then obtain s4 where r: "rel x s3 = Ok s4" "inv s4" "hold s4 y n"
      "abs s4 = (abs s3)\<lparr>sheld := sheld (abs s3) - {m}\<rparr>"
    using rel[OF w(2,3)] w(4) neq by metis
  obtain s5 where "rel y s4 = Ok s5" "inv s5" "abs s5 = (abs s4)\<lparr>sheld := sheld (abs s4) - {n}\<rparr>"
    using rel[OF r(2,3)] r(4) w(5) st by auto
  then show ?thesis using w(1,5) r(1,4) st d by (simp add: Diff_insert2[of _ m "{n}"])
qed

lemma read_two:
  assumes i: "inv s" and m: "m < ssize (abs s)" "m \<notin> sheld (abs s)" and n: "n < ssize (abs s)" "n \<notin> sheld (abs s)"
    and "m \<noteq> n" and room: "card (sheld (abs s) \<union> spinned (abs s)) < NBUF"
      "n \<in> spinned (abs s) \<or> card (sheld (abs s) \<union> spinned (abs s)) + 1 < NBUF"
  shows "\<exists>x s1 y s2. rd m s = Ok (x, s1) \<and> rd n s1 = Ok (y, s2) \<and> inv s2 \<and> hold s2 x m \<and> hold s2 y n \<and>
    abs s2 = (abs s)\<lparr>sheld := insert n (insert m (sheld (abs s)))\<rparr>"
proof -
  obtain x s1 where r: "rd m s = Ok (x, s1)" "inv s1" "hold s1 x m"
      "abs s1 = (abs s)\<lparr>sheld := insert m (sheld (abs s))\<rparr>"
    using rd[OF i m] room(1) by blast
  have "n < ssize (abs s1)" "n \<notin> sheld (abs s1)" using n r(4) assms(6) by auto
  moreover have "n \<in> spinned (abs s1) \<or> card (sheld (abs s1) \<union> spinned (abs s1)) < NBUF"
    using room(2) r(4) finite_marks[of s] by (auto simp: card_insert_if)
  ultimately obtain y s2 where r2: "rd n s1 = Ok (y, s2)" "inv s2" "hold s2 y n" "\<forall>c k. hold s1 c k \<longrightarrow> hold s2 c k"
      "abs s2 = (abs s1)\<lparr>sheld := insert n (sheld (abs s1))\<rparr>"
    using rd[OF r(2)] by blast
  then have "abs s2 = (abs s)\<lparr>sheld := insert n (insert m (sheld (abs s)))\<rparr>" using r(4) by simp
  with r r2 show ?thesis by blast
qed

text \<open>The two loop bodies: \<open>install_trans\<close> copies the first sector it reads into the second,
  \<open>write_log\<close> the second into the first.\<close>

lemma copy_forward:
  assumes i: "inv s" and m: "m < ssize (abs s)" "m \<notin> sheld (abs s)" and n: "n < ssize (abs s)" "n \<notin> sheld (abs s)"
    and "m \<noteq> n" and room: "card (sheld (abs s) \<union> spinned (abs s)) < NBUF"
      "n \<in> spinned (abs s) \<or> card (sheld (abs s) \<union> spinned (abs s)) + 1 < NBUF"
  shows "\<exists>s'. rbind (rd m s) (\<lambda>(x, s). rbind (rd n s) (\<lambda>(y, s).
           rbind (wr y (store y (data s x) s)) (\<lambda>s. rbind (rel x s) (rel y)))) = Ok s' \<and>
         inv s' \<and> abs s' = copied (abs s) m n"
proof -
  obtain x s1 y s2 where r: "rd m s = Ok (x, s1)" "rd n s1 = Ok (y, s2)" "inv s2" "hold s2 x m" "hold s2 y n"
    "abs s2 = (abs s)\<lparr>sheld := insert n (insert m (sheld (abs s)))\<rparr>"
    using read_two[OF assms] by blast
  have "m \<in> spinned (abs s2) \<or> sview (abs s2) m = sdisk (abs s2) m" using coherent[OF i m(2)] r(6) by auto
  from copy_held[OF r(3,4,5) assms(6) this] show ?thesis
    using r(1,2,6) m(2) n(2) by (auto simp: copied_def)
qed

lemma copy_backward:
  assumes i: "inv s" and m: "m < ssize (abs s)" "m \<notin> sheld (abs s)" and n: "n < ssize (abs s)" "n \<notin> sheld (abs s)"
    and "m \<noteq> n" and room: "card (sheld (abs s) \<union> spinned (abs s)) < NBUF"
      "n \<in> spinned (abs s) \<or> card (sheld (abs s) \<union> spinned (abs s)) + 1 < NBUF"
  shows "\<exists>s'. rbind (rd m s) (\<lambda>(x, s). rbind (rd n s) (\<lambda>(y, s).
           rbind (wr x (store x (data s y) s)) (\<lambda>s. rbind (rel y s) (rel x)))) = Ok s' \<and>
         inv s' \<and> abs s' = copied (abs s) n m"
proof -
  obtain x s1 y s2 where r: "rd m s = Ok (x, s1)" "rd n s1 = Ok (y, s2)" "inv s2" "hold s2 x m" "hold s2 y n"
    "abs s2 = (abs s)\<lparr>sheld := insert n (insert m (sheld (abs s)))\<rparr>"
    using read_two[OF assms] by blast
  have "n \<in> spinned (abs s2) \<or> sview (abs s2) n = sdisk (abs s2) n" using coherent[OF i n(2)] r(6) by auto
  from copy_held[OF r(3,5,4) assms(6)[symmetric] this] show ?thesis
    using r(1,2,6) m(2) n(2) by (auto simp: copied_def)
qed

end

section \<open>The cache meets its contract\<close>

lemma bread_contract:
  assumes "cache_inv s" "n < ssize (cache_abs s)" "n \<notin> sheld (cache_abs s)"
    and "n \<in> spinned (cache_abs s) \<or> card (sheld (cache_abs s) \<union> spinned (cache_abs s)) < NBUF"
  shows "\<exists>b s'. bread 1 n s = Ok (b, s') \<and> cache_inv s' \<and> holds s' b n \<and> (\<forall>c m. holds s c m \<longrightarrow> holds s' c m) \<and>
            cache_abs s' = (cache_abs s)\<lparr>sheld := insert n (sheld (cache_abs s))\<rparr>"
proof -
  have "n < disksize (bdisk s)" using assms(2) by (simp add: cache_abs_def)
  then obtain b s' where r: "bread_result s n b s'" using bread_succeeds[OF assms(1) _ assms(3,4)] by blast
  then have t: "touches s b s'" by (simp add: bread_result_def)
  have "\<not> holds s b m" for m
    using t assms(3) r by (auto simp: touches_def holds_def cached_def cache_abs_def reusable_def bread_result_def)
  then show ?thesis
    using r touches_inv[OF assms(1) t] touches_abs[OF assms(1) t] touches_holds[OF t]
    by (auto simp: bread_result_def cache_abs_def)
qed

lemma holds_abs:
  assumes "cache_inv s" "holds s b n"
  shows "n \<in> sheld (cache_abs s)" "n < ssize (cache_abs s)" "bdata (bufs s b) = sview (cache_abs s) n"
    "n \<in> spinned (cache_abs s) \<longleftrightarrow> dirty (bufs s b)"
proof -
  note h = holds_touch[OF assms]
  show "n < ssize (cache_abs s)" using h by (simp add: cache_abs_def)
  show "n \<in> sheld (cache_abs s)" unfolding cache_abs_def using h(1,2,4) by auto
  show "bdata (bufs s b) = sview (cache_abs s) n"
    using bview_cached[OF assms(1) holds_cached[OF assms(2)]] by (simp add: cache_abs_def)
  show "n \<in> spinned (cache_abs s) \<longleftrightarrow> dirty (bufs s b)"
    by (rule pinned_iff[OF assms(1) holds_cached[OF assms(2)]])
qed

lemma holds_same_sector:
  assumes "cache_inv s" "holds s b n" "touches s b s'" "bsector (bufs s' b) = n" "busy (bufs s' b)"
  shows "holds s' c m = holds s c m"
  using touches_holds[OF assms(3)] assms(2,4,5) by (auto simp: holds_def cached_def)

lemma bwrite_contract:
  assumes i: "cache_inv s" and h: "holds s b n"
  shows "\<exists>s'. bwrite b s = Ok s' \<and> cache_inv s' \<and> (\<forall>c m. holds s' c m = holds s c m) \<and>
     cache_abs s' = (cache_abs s)\<lparr>sdisk := (sdisk (cache_abs s))(n := sview (cache_abs s) n),
        spinned := spinned (cache_abs s) - {n}, strace := strace (cache_abs s) @ [(n, sview (cache_abs s) n)]\<rparr>"
proof -
  obtain s' where s': "bwrite b s = Ok s'" "touches s b s'" "busy (bufs s' b)" "\<not> dirty (bufs s' b)"
    "bsector (bufs s' b) = n" "bdata (bufs s' b) = bdata (bufs s b)"
    "memdisk (bdisk s') = (memdisk (bdisk s))(n := bdata (bufs s b))"
    "dtrace (bdisk s') = dtrace (bdisk s) @ [(n, bdata (bufs s b))]"
    using bwrite_touches[OF assms] by blast
  note a = holds_abs[OF assms]
  have "sdisk (cache_abs s) = memdisk (bdisk s)" "strace (cache_abs s) = dtrace (bdisk s)"
    by (simp_all add: cache_abs_def)
  then have "cache_abs s' = (cache_abs s)\<lparr>sdisk := (sdisk (cache_abs s))(n := sview (cache_abs s) n),
      spinned := spinned (cache_abs s) - {n}, strace := strace (cache_abs s) @ [(n, sview (cache_abs s) n)]\<rparr>"
    using touches_abs[OF i s'(2)] a s'(3-8) by (simp add: insert_absorb)
  then show ?thesis
    using s' touches_inv[OF i s'(2)] holds_same_sector[OF i h s'(2,5,3)] by blast
qed

lemma brelse_contract:
  assumes i: "cache_inv s" and h: "holds s b n"
    and c: "n \<in> spinned (cache_abs s) \<or> sview (cache_abs s) n = sdisk (cache_abs s) n"
  shows "\<exists>s'. brelse b s = Ok s' \<and> cache_inv s' \<and> (\<forall>c m. holds s' c m \<longleftrightarrow> c \<noteq> b \<and> holds s c m) \<and>
     cache_abs s' = (cache_abs s)\<lparr>sheld := sheld (cache_abs s) - {n}\<rparr>"
proof -
  note a = holds_abs[OF i h]
  have sd: "sdisk (cache_abs s) = memdisk (bdisk s)" "strace (cache_abs s) = dtrace (bdisk s)"
    by (simp_all add: cache_abs_def)
  have "dirty (bufs s b) \<or> bdata (bufs s b) = memdisk (bdisk s) n" using c a sd by simp
  then obtain s' where s': "brelse b s = Ok s'" "touches s b s'" "\<not> busy (bufs s' b)"
    "dirty (bufs s' b) = dirty (bufs s b)" "bsector (bufs s' b) = n" "bdata (bufs s' b) = bdata (bufs s b)"
    "bdisk s' = bdisk s"
    using brelse_touches[OF i h] by blast
  have "cache_abs s' = (cache_abs s)\<lparr>sheld := sheld (cache_abs s) - {n}\<rparr>"
    using touches_abs[OF i s'(2)] a s'(3-7) sd by (auto simp: insert_absorb)
  then show ?thesis
    using s' touches_inv[OF i s'(2)] touches_holds[OF s'(2)] by auto
qed

lemma bstore_contract:
  assumes i: "cache_inv s" and h: "holds s b n" and "length d = BSIZE"
  shows "cache_inv (bstore b d s) \<and> (\<forall>c m. holds (bstore b d s) c m = holds s c m) \<and>
     cache_abs (bstore b d s) = (cache_abs s)\<lparr>sview := (sview (cache_abs s))(n := d)\<rparr>"
proof -
  note t = bstore_touches[OF assms] and a = holds_abs[OF i h] and ht = holds_touch[OF i h]
  have u: "bufs (bstore b d s) b = (bufs s b)\<lparr>bdata := d\<rparr>" "bdisk (bstore b d s) = bdisk s"
    by (simp_all add: bstore_def bupd_def)
  have sd: "sdisk (cache_abs s) = memdisk (bdisk s)" "strace (cache_abs s) = dtrace (bdisk s)"
    by (simp_all add: cache_abs_def)
  have "cache_abs (bstore b d s) = (cache_abs s)\<lparr>sview := (sview (cache_abs s))(n := d)\<rparr>"
    using touches_abs[OF i t] a ht(2,4) sd by (auto simp: u insert_absorb)
  then show ?thesis
    using touches_inv[OF i t] holds_same_sector[OF i h t] ht(2,4) by (simp add: u)
qed

lemma bpin_contract:
  assumes i: "cache_inv s" and h: "holds s b n"
  shows "cache_inv (bpin b s) \<and> (\<forall>c m. holds (bpin b s) c m = holds s c m) \<and>
     cache_abs (bpin b s) = (cache_abs s)\<lparr>spinned := insert n (spinned (cache_abs s))\<rparr>"
proof -
  note t = bpin_touches[OF assms] and a = holds_abs[OF i h] and ht = holds_touch[OF i h]
  have u: "bufs (bpin b s) b = bflags_update (\<lambda>f. f OR B_DIRTY) (bufs s b)" "bdisk (bpin b s) = bdisk s"
    by (simp_all add: bpin_def bupd_def)
  have sd: "sdisk (cache_abs s) = memdisk (bdisk s)" "strace (cache_abs s) = dtrace (bdisk s)"
    by (simp_all add: cache_abs_def)
  have "cache_abs (bpin b s) = (cache_abs s)\<lparr>spinned := insert n (spinned (cache_abs s))\<rparr>"
    using touches_abs[OF i t] a ht(2,4) sd by (auto simp: u insert_absorb bit_or_iff)
  then show ?thesis
    using touches_inv[OF i t] holds_same_sector[OF i h t] ht(2,4) by (simp add: u bit_or_iff)
qed

lemma cache_view_length:
  assumes "cache_inv s" "n < ssize (cache_abs s)"
  shows "length (sview (cache_abs s) n) = BSIZE"
proof (cases "\<exists>b. cached (bufs s) n b")
  case True
  then obtain b where b: "cached (bufs s) n b" by blast
  then have "buf_ok (bdisk s) (bufs s b)" using assms(1) by (simp add: cached_def cache_inv_def)
  then show ?thesis using bview_cached[OF assms(1) b] by (simp add: cache_abs_def buf_ok_def)
next
  case False
  then show ?thesis using bview_uncached[of s n] assms by (auto simp: cache_abs_def cache_inv_def)
qed

lemma cache_coherent:
  assumes "cache_inv s" "n \<notin> sheld (cache_abs s)" "n \<notin> spinned (cache_abs s)"
  shows "sview (cache_abs s) n = sdisk (cache_abs s) n"
proof (cases "\<exists>b. cached (bufs s) n b")
  case True
  then obtain b where b: "cached (bufs s) n b" by blast
  then have "\<not> busy (bufs s b)" "\<not> dirty (bufs s b)"
    using assms(2) pinned_iff[OF assms(1) b] assms(3) unfolding cache_abs_def cached_def by auto
  moreover have "buf_ok (bdisk s) (bufs s b)" using assms(1) b by (simp add: cached_def cache_inv_def)
  ultimately show ?thesis using bview_cached[OF assms(1) b] b by (simp add: cache_abs_def buf_ok_def cached_def)
next
  case False
  then show ?thesis using bview_uncached[of s n] by (simp add: cache_abs_def)
qed

interpretation bc: block_cache cache_inv cache_abs holds "\<lambda>s b. bdata (bufs s b)" "bread 1" bwrite brelse bstore bpin
proof (unfold_locales, goal_cases)
  case (1 s n) then show ?case by (rule bread_contract)
next
  case (2 s b n) then show ?case by (rule bwrite_contract)
next
  case (3 s b n) then show ?case by (rule brelse_contract)
next
  case (4 s b n d) then show ?case by (rule bstore_contract)
next
  case (5 s b n) then show ?case by (rule bpin_contract)
next
  case (6 s b n) then show ?case by (rule holds_abs(3))
next
  case (7 s b n) then show ?case using holds_abs(1,2) by blast
next
  case (8 s b n c m) then show ?case using cached_unique by (auto simp: holds_def cached_def)
next
  case (9 s n) then show ?case by (rule cache_view_length)
next
  case (10 s n) then show ?case by (rule cache_coherent)
next
  case (11 s) then show ?case by (simp add: cache_abs_def)
qed

section \<open>Reachable caches\<close>

definition buf_zero :: buf where
  "buf_zero = \<lparr>bflags = 0, bdev = 0, bsector = 0, bprev = 0, bnext = 0, bqnext = None, bdata = replicate BSIZE 0\<rparr>"

text \<open>The cache in the zeroed data segment, over a disk image.\<close>

definition bcache_boot :: "disk \<Rightarrow> bcache" where
  "bcache_boot d = \<lparr>bclock = \<lparr>locked = 0, lname = [], lcpu = None, pcs = []\<rparr>, bufs = (\<lambda>_. buf_zero), bdisk = d, bwakes = []\<rparr>"

lemma fold_binit_core:
  "bflags (fold binit_one ns bs c) = bflags (bs c) \<and> bdata (fold binit_one ns bs c) = bdata (bs c) \<and>
   (c \<in> set ns \<longrightarrow> bdev (fold binit_one ns bs c) = - 1)"
proof (induction ns rule: rev_induct)
  case (snoc b ns)
  have "bflags (binit_one b bs' c) = bflags (bs' c)" "bdata (binit_one b bs' c) = bdata (bs' c)"
    "bdev (binit_one b bs' c) = (if c = b then - 1 else bdev (bs' c))" for bs'
    by (simp_all add: binit_one_def Let_def bupd_def)
  with snoc show ?case by auto
qed simp

lemma binit_inv:
  assumes "\<forall>n<disksize d. length (memdisk d n) = BSIZE"
  shows "cache_inv (binit (bcache_boot d))"
proof -
  have "bflags (bufs (binit (bcache_boot d)) b) = 0" "length (bdata (bufs (binit (bcache_boot d)) b)) = BSIZE" for b
    using fold_binit_core[of "[0..<NBUF]" _ b]
    by (auto simp: binit_def Let_def bcache_boot_def buf_zero_def bupd_def simp del: upt_rec_numeral)
  moreover have "bdev (bufs (binit (bcache_boot d)) b) = - 1" if "b < NBUF" for b
    using fold_binit_core[of "[0..<NBUF]" _ b] that
    by (auto simp: binit_def Let_def simp del: upt_rec_numeral)
  moreover have "bdisk (binit (bcache_boot d)) = d" by (simp add: binit_def bcache_boot_def Let_def)
  ultimately show ?thesis
    using binit_lru[of "bcache_boot d"] assms by (auto simp: cache_inv_def buf_ok_def cached_def)
qed

text \<open>
  The calls the kernel makes: any sector may be read, and a buffer that is held may be changed,
  written, pinned, or released when it is pinned or agrees with the disk.
\<close>

inductive cache_step :: "bcache \<Rightarrow> bcache \<Rightarrow> bool" where
  read: "bread 1 n s = Ok (b, s') \<Longrightarrow> cache_step s s'"
| change: "holds s b n \<Longrightarrow> length d = BSIZE \<Longrightarrow> cache_step s (bstore b d s)"
| writeout: "holds s b n \<Longrightarrow> bwrite b s = Ok s' \<Longrightarrow> cache_step s s'"
| pinned: "holds s b n \<Longrightarrow> cache_step s (bpin b s)"
| freed: "holds s b n \<Longrightarrow> dirty (bufs s b) \<or> bdata (bufs s b) = memdisk (bdisk s) n \<Longrightarrow>
            brelse b s = Ok s' \<Longrightarrow> cache_step s s'"

inductive_cases cache_stepE: "cache_step s s'"

inductive cache_reachable :: "disk \<Rightarrow> bcache \<Rightarrow> bool" for d where
  boot: "cache_reachable d (binit (bcache_boot d))"
| step: "cache_reachable d s \<Longrightarrow> cache_step s s' \<Longrightarrow> cache_reachable d s'"

text \<open>A read that returns found the sector idle in the cache, or a buffer to reuse.\<close>

lemma bread_Ok_touches:
  assumes i: "cache_inv s" and r: "bread 1 n s = Ok (b, s')"
  shows "touches s b s'"
proof -
  obtain xs where xs: "lru (bufs s) xs" using i by (auto simp: cache_inv_def)
  note g = r[unfolded bread_def bget_lru[OF xs]]
  show ?thesis
  proof (cases "\<exists>c. cached (bufs s) n c")
    case True
    then obtain c where c: "cached (bufs s) n c" by blast
    then have "holder 1 n s c" "c \<in> set xs" using holder_cached[OF i] xs by (auto simp: cached_def lru_def)
    then obtain d where d: "find (holder 1 n s) xs = Some d" "d \<in> set xs" "holder 1 n s d"
      using find_SomeI by metis
    then have "cached (bufs s) n d" using holder_cached[OF i lru_bound[OF xs]] by blast
    moreover have "\<not> busy (bufs s d)" using g d(1) by (auto split: if_splits)
    ultimately have "n \<notin> sheld (cache_abs s)"
      using cached_unique[OF i] marked_valid[OF i] unfolding cache_abs_def by auto
    then show ?thesis using bread_hit[OF i c] r by (auto simp: bread_result_def)
  next
    case False
    then have "find (holder 1 n s) xs = None"
      unfolding find_None_iff using holder_cached[OF i] lru_bound[OF xs] by blast
    then obtain d where f2: "find (reusable s) (rev xs) = Some d"
      using g by (cases "find (reusable s) (rev xs)") auto
    have "n < disksize (bdisk s)"
      using g \<open>find (holder 1 n s) xs = None\<close> f2
      by (auto simp: bupd_def bio_rw_def iderw_def Let_def split: if_splits)
    then obtain s'' where "bread_result s n d s''" using bread_miss_at[OF i _ _ xs f2] False by blast
    then show ?thesis using r by (simp add: bread_result_def)
  qed
qed

lemma cache_step_inv: "cache_step s s' \<Longrightarrow> cache_inv s \<Longrightarrow> cache_inv s'"
proof (induction rule: cache_step.induct)
  case (read n s b s')
  then show ?case using bread_Ok_touches touches_inv by blast
next
  case (change s b n d)
  then show ?case using bstore_contract by blast
next
  case (writeout s b n s')
  then show ?case using bwrite_contract[of s b n] by auto
next
  case (pinned s b n)
  then show ?case using bpin_contract by blast
next
  case (freed s b n s')
  then show ?case using brelse_touches[of s b n] touches_inv by fastforce
qed

lemma cache_reachable_inv:
  "cache_reachable d s \<Longrightarrow> \<forall>n<disksize d. length (memdisk d n) = BSIZE \<Longrightarrow> cache_inv s"
  by (induction rule: cache_reachable.induct) (auto intro: binit_inv cache_step_inv)

text \<open>C3: in every state the kernel can bring the buffer cache to, the LRU list is an intact circular list
  of all the buffers, no sector is cached in two buffers, and a buffer that is valid, idle and
  clean holds what the disk holds.\<close>

theorem bcache_coherent:
  assumes "cache_reachable d s" and "\<forall>n<disksize d. length (memdisk d n) = BSIZE"
  shows "(\<exists>xs. lru (bufs s) xs) \<and>
    (\<forall>b c. b < NBUF \<longrightarrow> c < NBUF \<longrightarrow> valid (bufs s b) \<longrightarrow> valid (bufs s c) \<longrightarrow>
        bsector (bufs s b) = bsector (bufs s c) \<longrightarrow> b = c) \<and>
    (\<forall>b<NBUF. valid (bufs s b) \<and> \<not> busy (bufs s b) \<and> \<not> dirty (bufs s b) \<longrightarrow>
        bdata (bufs s b) = memdisk (bdisk s) (bsector (bufs s b)))"
  using cache_reachable_inv[OF assms] unfolding cache_inv_def cached_def buf_ok_def by blast

definition disk_zero :: disk where
  "disk_zero = \<lparr>memdisk = (\<lambda>_. replicate BSIZE 0), disksize = 1000, dtrace = []\<rparr>"

theorem bcache_coherent_witness:
  "\<exists>s. cache_reachable disk_zero s \<and> (\<exists>xs. lru (bufs s) xs) \<and> (\<exists>b. holds s b 7)"
proof -
  let ?s = "binit (bcache_boot disk_zero)"
  have len: "\<forall>n<disksize disk_zero. length (memdisk disk_zero n) = BSIZE" by (simp add: disk_zero_def)
  have i: "cache_inv ?s" using binit_inv[OF len] .
  have "sheld (cache_abs ?s) = {}" "spinned (cache_abs ?s) = {}" "ssize (cache_abs ?s) = 1000"
    using fold_binit_core[of "[0..<NBUF]"]
    by (auto simp: cache_abs_def binit_def Let_def bcache_boot_def buf_zero_def bupd_def disk_zero_def
        simp del: upt_rec_numeral)
  then obtain b s' where "bread 1 7 ?s = Ok (b, s')" "holds s' b 7"
    using bread_contract[OF i, of 7] by auto
  then show ?thesis
    using bcache_coherent[OF _ len, of s'] cache_reachable.intros cache_step.read by blast
qed

text \<open>C12: under the cache's invariant \<open>bread\<close> of a sector nobody holds returns a busy buffer with the
  sector's current content, and changes neither the content of any sector nor the disk. It needs
  the sector to be dirty in the cache already or one buffer that is neither busy nor dirty.\<close>

theorem bread_current:
  assumes "cache_inv s" and "n < disksize (bdisk s)" and "n \<notin> sheld (cache_abs s)"
    and "n \<in> spinned (cache_abs s) \<or> card (sheld (cache_abs s) \<union> spinned (cache_abs s)) < NBUF"
  shows "\<exists>b s'. bread 1 n s = Ok (b, s') \<and> cache_inv s' \<and> busy (bufs s' b) \<and> bsector (bufs s' b) = n \<and>
      bdata (bufs s' b) = bview s n \<and> bview s' = bview s \<and> bdisk s' = bdisk s"
proof -
  obtain b s' where r: "bread_result s n b s'" using bread_succeeds[OF assms] by blast
  then have t: "touches s b s'" by (simp add: bread_result_def)
  show ?thesis
    using r touches_inv[OF assms(1) t] touches_view[OF assms(1) t] by (auto simp: bread_result_def)
qed

lemma boot_marks:
  "sheld (cache_abs (binit (bcache_boot d))) = {}" "spinned (cache_abs (binit (bcache_boot d))) = {}"
  "bdisk (binit (bcache_boot d)) = d"
  using fold_binit_core[of "[0..<NBUF]"]
  by (auto simp: cache_abs_def binit_def Let_def bcache_boot_def buf_zero_def bupd_def simp del: upt_rec_numeral)

lemma disk_zero_inv: "cache_inv (binit (bcache_boot disk_zero))"
  by (rule binit_inv) (simp add: disk_zero_def)

theorem bread_current_witness:
  "\<exists>b s'. bread 1 7 (binit (bcache_boot disk_zero)) = Ok (b, s') \<and> bsector (bufs s' b) = 7 \<and>
     bdata (bufs s' b) = bview (binit (bcache_boot disk_zero)) 7"
  using bread_current[OF disk_zero_inv, of 7] by (auto simp: boot_marks disk_zero_def)

text \<open>C27: when the sector is not cached, \<open>bget\<close> reuses the least recently used buffer that is neither busy
  nor dirty: every buffer behind it in the LRU list is busy or dirty. The buffer is handed out
  busy and invalid, for the requested sector.\<close>

theorem bget_evicts_lru:
  assumes "lru (bufs s) xs" and "\<forall>b\<in>set xs. \<not> holder dev sector s b" and "bget dev sector s = Ok (b, s')"
  shows "\<exists>ys zs. xs = ys @ b # zs \<and> \<not> busy (bufs s b) \<and> \<not> dirty (bufs s b) \<and>
      (\<forall>c\<in>set zs. busy (bufs s c) \<or> dirty (bufs s c)) \<and>
      bdev (bufs s' b) = dev \<and> bsector (bufs s' b) = sector \<and> bflags (bufs s' b) = B_BUSY"
proof -
  have "find (holder dev sector s) xs = None" using assms(2) by (simp add: find_None_iff)
  then have f: "find (reusable s) (rev xs) = Some b"
    and s': "s' = s\<lparr>bufs := bupd (bufs s) b (\<lambda>u. u\<lparr>bdev := dev, bsector := sector, bflags := B_BUSY\<rparr>)\<rparr>"
    using assms(3) unfolding bget_lru[OF assms(1)] by (auto split: option.splits)
  obtain as bs where x: "rev xs = as @ b # bs" "\<forall>c\<in>set as. \<not> reusable s c" and r: "reusable s b"
    using find_split[OF f] by blast
  then have "xs = rev bs @ b # rev as" by (metis append.assoc append_Cons append_Nil rev_append rev.simps(2) rev_rev_ident)
  moreover have "\<forall>c\<in>set (rev as). busy (bufs s c) \<or> dirty (bufs s c)" using x(2) by (auto simp: reusable_def)
  ultimately show ?thesis
    using r s' by (intro exI[of _ "rev bs"] exI[of _ "rev as"]) (simp add: reusable_def bupd_def)
qed

theorem bget_evicts_lru_witness:
  "\<exists>b s'. bget 1 7 (binit (bcache_boot disk_zero)) = Ok (b, s') \<and> bflags (bufs s' b) = B_BUSY"
proof -
  let ?s = "binit (bcache_boot disk_zero)" and ?xs = "rev [0..<NBUF]"
  have l: "lru (bufs ?s) ?xs" by (rule binit_lru)
  have dev: "bdev (bufs ?s b) = - 1" if "b \<in> set ?xs" for b
    using fold_binit_core[of "[0..<NBUF]" _ b] that by (auto simp: binit_def Let_def simp del: upt_rec_numeral)
  then have n: "\<forall>b\<in>set ?xs. \<not> holder 1 7 ?s b" by (auto simp: holder_def simp del: upt_rec_numeral)
  have "7 < ssize (cache_abs ?s)" by (simp add: cache_abs_def boot_marks(3)) (simp add: disk_zero_def)
  then obtain r where "bread 1 7 ?s = Ok r"
    using bread_contract[OF disk_zero_inv, of 7] by (auto simp: boot_marks(1,2))
  then obtain b s' where g: "bget 1 7 ?s = Ok (b, s')" by (auto simp: bread_def)
  from bget_evicts_lru[OF l n g] g show ?thesis by blast
qed

text \<open>C38: \<open>brelse\<close> makes the released buffer the most recently used one and leaves the order of the others,
  by six pointer updates; it clears the busy flag, keeps the data and wakes the processes that
  wait for the buffer.\<close>

theorem brelse_most_recent:
  assumes "lru (bufs s) xs" and "b < NBUF" and "busy (bufs s b)"
  shows "\<exists>s'. brelse b s = Ok s' \<and> lru (bufs s') (b # remove1 b xs) \<and> \<not> busy (bufs s' b) \<and>
     bdata (bufs s' b) = bdata (bufs s b) \<and> bwakes s' = bwakes s @ [ChBuf b]"
proof -
  obtain s' where s': "brelse b s = Ok s'" using assms(3) by (simp add: brelse_def Let_def)
  have "b \<in> set xs" using assms by (simp add: lru_def)
  then obtain ys zs where "xs = ys @ b # zs" "b \<notin> set ys" by (metis split_list_first)
  then have "lru (bufs s') (b # remove1 b xs)" using brelse_lru[OF s'] assms(1) by (simp add: remove1_append)
  moreover have "bwakes s' = bwakes s @ [ChBuf b]" using s' by (auto simp: brelse_def Let_def split: if_splits)
  ultimately show ?thesis using s' by (auto simp: brelse_core[OF s'] bit_and_iff bit_not_iff)
qed

theorem brelse_most_recent_witness:
  "\<exists>s s'. brelse 4 s = Ok s' \<and> lru (bufs s') (4 # remove1 4 (rev [0..<NBUF]))"
proof -
  let ?s = "binit (bcache_boot disk_zero)"
  let ?t = "?s\<lparr>bufs := (bufs ?s)(4 := (bufs ?s 4)\<lparr>bflags := 1\<rparr>)\<rparr>"
  have "lru (bufs ?t) (rev [0..<NBUF])" using binit_lru[of "bcache_boot disk_zero"] by (simp add: lru_upd del: upt_rec_numeral)
  moreover have "busy (bufs ?t 4)" by simp
  ultimately show ?thesis using brelse_most_recent[of ?t "rev [0..<NBUF]" 4] by fastforce
qed

end
