(* ===== verification/Xv6_Bytes.thy ===== *)
theory Xv6_Bytes
  imports Xv6_Prelude
begin

text \<open>
  Integers inside a disk block. The file system and the log cast a buffer's data area to a
  \<open>struct\<close>; here the fields are read and written by their byte offset, little endian as on x86.
  \<open>rfold\<close> is a C \<open>for\<close> loop whose body may panic.
\<close>

definition get32 :: "block \<Rightarrow> nat \<Rightarrow> uint" where
  "get32 d k = word_of_bytes (d ! k) (d ! (k + 1)) (d ! (k + 2)) (d ! (k + 3))"

definition put32 :: "block \<Rightarrow> nat \<Rightarrow> uint \<Rightarrow> block" where
  "put32 d k v = d[k := byte_of 0 v, k + 1 := byte_of 1 v, k + 2 := byte_of 2 v, k + 3 := byte_of 3 v]"

definition get16 :: "block \<Rightarrow> nat \<Rightarrow> ushort" where
  "get16 d k = ucast (d ! k) OR push_bit 8 (ucast (d ! (k + 1)))"

definition put16 :: "block \<Rightarrow> nat \<Rightarrow> ushort \<Rightarrow> block" where
  "put16 d k v = d[k := ucast v, k + 1 := ucast (drop_bit 8 v)]"

lemma length_put [simp]: "length (put32 d k v) = length d" "length (put16 d k w) = length d"
  by (simp_all add: put32_def put16_def)

lemma get32_put32 [simp]: "k + 3 < length d \<Longrightarrow> get32 (put32 d k v) k = v"
  by (simp add: get32_def put32_def)

lemma get16_put16 [simp]:
  assumes "k + 1 < length d" shows "get16 (put16 d k v) k = v"
proof -
  have "(ucast (ucast v :: uchar) OR push_bit 8 (ucast (ucast (drop_bit 8 v) :: uchar))) = v"
    by (rule bit_word_eqI) (auto simp: bit_simps)
  then show ?thesis using assms by (simp add: get16_def put16_def)
qed

text \<open>Fields that do not overlap do not disturb each other.\<close>

lemma get_put_other [layout]:
  "j + 4 \<le> k \<or> k + 4 \<le> j \<Longrightarrow> get32 (put32 d k v) j = get32 d j"
  "j + 4 \<le> k \<or> k + 2 \<le> j \<Longrightarrow> get32 (put16 d k w) j = get32 d j"
  "j + 2 \<le> k \<or> k + 4 \<le> j \<Longrightarrow> get16 (put32 d k v) j = get16 d j"
  "j + 2 \<le> k \<or> k + 2 \<le> j \<Longrightarrow> get16 (put16 d k w) j = get16 d j"
  by (auto simp: get32_def put32_def get16_def put16_def nth_list_update)

lemma nth_put_other [layout]:
  "j < k \<or> k + 4 \<le> j \<Longrightarrow> put32 d k v ! j = d ! j"
  "j < k \<or> k + 2 \<le> j \<Longrightarrow> put16 d k w ! j = d ! j"
  by (auto simp: put32_def put16_def nth_list_update)

text \<open>Copying \<open>length bs\<close> bytes into a block at offset \<open>k\<close>.\<close>

definition blk_write :: "block \<Rightarrow> nat \<Rightarrow> uchar list \<Rightarrow> block" where
  "blk_write d k bs = take k d @ bs @ drop (k + length bs) d"

lemma length_blk_write [simp]: "k + length bs \<le> length d \<Longrightarrow> length (blk_write d k bs) = length d"
  by (simp add: blk_write_def)

lemma nth_blk_write:
  "k + length bs \<le> length d \<Longrightarrow> j < length d \<Longrightarrow>
     blk_write d k bs ! j = (if k \<le> j \<and> j < k + length bs then bs ! (j - k) else d ! j)"
  by (auto simp: blk_write_def nth_append min_def)

lemma take_drop_blk_write:
  "k + length bs \<le> length d \<Longrightarrow> take (length bs) (drop k (blk_write d k bs)) = bs"
  by (simp add: blk_write_def)

section \<open>Loops that may fail\<close>

fun rfold :: "('x \<Rightarrow> 's \<Rightarrow> 's res) \<Rightarrow> 'x list \<Rightarrow> 's \<Rightarrow> 's res" where
  "rfold f [] s = Ok s"
| "rfold f (x # xs) s = rbind (f x s) (rfold f xs)"

lemma rfold_append: "rfold f (xs @ ys) s = rbind (rfold f xs s) (rfold f ys)"
  by (induction xs arbitrary: s) (auto simp: rbind_assoc intro!: rbind_cong)

text \<open>A loop whose body is described by \<open>g\<close> on an abstraction, as long as \<open>P\<close> holds of the
  elements still to come.\<close>

lemma rfold_refines:
  assumes "\<And>x xs s. P (x # xs) s \<Longrightarrow> \<exists>s'. f x s = Ok s' \<and> A s' = g x (A s) \<and> P xs s'"
    and "P xs s"
  shows "\<exists>s'. rfold f xs s = Ok s' \<and> A s' = fold g xs (A s) \<and> P [] s'"
  using assms(2)
proof (induction xs arbitrary: s)
  case (Cons x xs)
  then obtain s1 where "f x s = Ok s1" "A s1 = g x (A s)" "P xs s1" using assms(1) by blast
  with Cons.IH[of s1] show ?case by auto
qed simp

end
