(* ===== verification/Xv6_Log.thy ===== *)
theory Xv6_Log
  imports Xv6_Bio Xv6_Bytes
begin

text \<open>
  \<^verbatim>\<open>log.c\<close>: the redo log that makes a group of file system calls atomic. The operations run on
  the in-memory \<open>struct log\<close> and the buffer cache of \<^verbatim>\<open>Xv6_Bio\<close>. The main result is crash
  safety: cut the device writes of \<open>commit\<close> after any prefix, reboot and recover, and every block
  outside the log has its old content or every block has its new content.
\<close>

section \<open>State\<close>

record log =
  llock :: spinlock
  lstart :: uint
  lsize :: int
  outstanding :: int
  committing :: bool
  ldev :: uint
  lh_n :: int
  lh_sector :: "uint list"

record logsys =
  lg :: log
  bc :: bcache
  lwakes :: "chan list"

text \<open>\<open>log.lh.sector[i]\<close>; reading or writing outside the array is undefined.\<close>

definition log_sector :: "log \<Rightarrow> nat \<Rightarrow> uint" where
  "log_sector l i = lh_sector l ! i"

definition log_block :: "log \<Rightarrow> nat \<Rightarrow> uint" where
  "log_block l i = lstart l + of_nat i + 1"

section \<open>Operations\<close>

text \<open>The body of the loop of \<open>install_trans\<close>.\<close>

definition install_one :: "log \<Rightarrow> nat \<Rightarrow> bcache \<Rightarrow> bcache res" where
  "install_one l tail c =
     (if tail \<ge> length (lh_sector l) then Fault ''lh.sector'' else
      rbind (bread (ldev l) (log_block l tail) c) (\<lambda>(lbuf, c).
      rbind (bread (ldev l) (log_sector l tail) c) (\<lambda>(dbuf, c).
      rbind (bwrite dbuf (bstore dbuf (bdata (bufs c lbuf)) c)) (\<lambda>c.
      rbind (brelse lbuf c) (brelse dbuf)))))"

definition install_trans :: "logsys \<Rightarrow> logsys res" where
  "install_trans s = rbind (rfold (install_one (lg s)) [0..<nat (lh_n (lg s))] (bc s)) (\<lambda>c. Ok (s\<lparr>bc := c\<rparr>))"

text \<open>The loop of \<open>read_head\<close>: the header block is a \<open>struct logheader\<close>.\<close>

fun read_sectors :: "block \<Rightarrow> nat list \<Rightarrow> uint list \<Rightarrow> uint list res" where
  "read_sectors d [] secs = Ok secs"
| "read_sectors d (i # is) secs =
     (if i \<ge> length secs then Fault ''lh.sector'' else read_sectors d is (secs[i := get32 d (4 + 4 * i)]))"

definition read_head :: "logsys \<Rightarrow> logsys res" where
  "read_head s =
     rbind (bread (ldev (lg s)) (lstart (lg s)) (bc s)) (\<lambda>(b, c).
     let d = bdata (bufs c b); n = sint (get32 d 0)
     in rbind (read_sectors d [0..<nat n] (lh_sector (lg s))) (\<lambda>secs.
        rbind (brelse b c) (\<lambda>c. Ok (s\<lparr>lg := (lg s)\<lparr>lh_n := n, lh_sector := secs\<rparr>, bc := c\<rparr>))))"

text \<open>The header as \<open>write_head\<close> lays it out over the old bytes of the block.\<close>

fun put_sectors :: "uint list \<Rightarrow> nat list \<Rightarrow> block \<Rightarrow> block" where
  "put_sectors secs [] d = d"
| "put_sectors secs (i # is) d = put_sectors secs is (put32 d (4 + 4 * i) (secs ! i))"

definition head_block :: "log \<Rightarrow> block \<Rightarrow> block" where
  "head_block l d = put_sectors (lh_sector l) [0..<nat (lh_n l)] (put32 d 0 (word_of_int (lh_n l)))"

definition write_head :: "logsys \<Rightarrow> logsys res" where
  "write_head s =
     (if nat (lh_n (lg s)) > length (lh_sector (lg s)) then Fault ''lh.sector'' else
      rbind (rbind (bread (ldev (lg s)) (lstart (lg s)) (bc s)) (\<lambda>(b, c).
        rbind (bwrite b (bstore b (head_block (lg s) (bdata (bufs c b))) c)) (brelse b)))
      (\<lambda>c. Ok (s\<lparr>bc := c\<rparr>)))"

definition recover_from_log :: "logsys \<Rightarrow> logsys res" where
  "recover_from_log s =
     rbind (read_head s) (\<lambda>s.
     rbind (install_trans s) (\<lambda>s.
     write_head (s\<lparr>lg := (lg s)\<lparr>lh_n := 0\<rparr>\<rparr>)))"

record superblock =
  sb_size :: uint
  sb_nblocks :: uint
  sb_ninodes :: uint
  sb_nlog :: uint

definition sb_of :: "block \<Rightarrow> superblock" where
  "sb_of d = \<lparr>sb_size = get32 d 0, sb_nblocks = get32 d 4, sb_ninodes = get32 d 8, sb_nlog = get32 d 12\<rparr>"

definition readsb :: "uint \<Rightarrow> bcache \<Rightarrow> (superblock \<times> bcache) res" where
  "readsb dev c =
     rbind (bread dev 1 c) (\<lambda>(b, c). let sb = sb_of (bdata (bufs c b)) in rbind (brelse b c) (\<lambda>c. Ok (sb, c)))"

text \<open>\<open>sizeof(struct logheader)\<close> is 4 + 4 * LOGSIZE.\<close>

definition initlog :: "logsys \<Rightarrow> logsys res" where
  "initlog s =
     (if 4 + 4 * LOGSIZE \<ge> BSIZE then Panic ''initlog: too big logheader'' else
      rbind (readsb 1 (bc s)) (\<lambda>(sb, c).
      recover_from_log (s\<lparr>lg := (lg s)\<lparr>llock := initlock (llock (lg s)) ''log'', lstart := sb_size sb - sb_nlog sb,
                                      lsize := sint (sb_nlog sb), ldev := 1\<rparr>, bc := c\<rparr>)))"

definition begin_op :: "logsys \<Rightarrow> logsys res" where
  "begin_op s =
     (if committing (lg s) then Sleep ChLog
      else if lh_n (lg s) + (outstanding (lg s) + 1) * int MAXOPBLOCKS > int LOGSIZE then Sleep ChLog
      else Ok (s\<lparr>lg := (lg s)\<lparr>outstanding := outstanding (lg s) + 1\<rparr>\<rparr>))"

text \<open>The body of the loop of \<open>write_log\<close>.\<close>

definition write_one :: "log \<Rightarrow> nat \<Rightarrow> bcache \<Rightarrow> bcache res" where
  "write_one l tail c =
     (if tail \<ge> length (lh_sector l) then Fault ''lh.sector'' else
      rbind (bread (ldev l) (log_block l tail) c) (\<lambda>(to, c).
      rbind (bread (ldev l) (log_sector l tail) c) (\<lambda>(from, c).
      rbind (bwrite to (bstore to (bdata (bufs c from)) c)) (\<lambda>c.
      rbind (brelse from c) (brelse to)))))"

definition write_log :: "logsys \<Rightarrow> logsys res" where
  "write_log s = rbind (rfold (write_one (lg s)) [0..<nat (lh_n (lg s))] (bc s)) (\<lambda>c. Ok (s\<lparr>bc := c\<rparr>))"

definition commit :: "logsys \<Rightarrow> logsys res" where
  "commit s =
     (if lh_n (lg s) > 0
      then rbind (write_log s) (\<lambda>s.
           rbind (write_head s) (\<lambda>s.
           rbind (install_trans s) (\<lambda>s.
           write_head (s\<lparr>lg := (lg s)\<lparr>lh_n := 0\<rparr>\<rparr>))))
      else Ok s)"

text \<open>\<open>end_op\<close>: the part under the lock, the commit without it, and the part that ends the commit.
  While \<open>committing\<close> is set, \<open>begin_op\<close> sleeps, so no other call runs between the parts.\<close>

definition end_op_begin :: "logsys \<Rightarrow> (bool \<times> logsys) res" where
  "end_op_begin s =
     (let s = s\<lparr>lg := (lg s)\<lparr>outstanding := outstanding (lg s) - 1\<rparr>\<rparr>
      in if committing (lg s) then Panic ''log.committing''
         else if outstanding (lg s) = 0 then Ok (True, s\<lparr>lg := (lg s)\<lparr>committing := True\<rparr>\<rparr>)
         else Ok (False, s\<lparr>lwakes := lwakes s @ [ChLog]\<rparr>))"

definition end_op :: "logsys \<Rightarrow> logsys res" where
  "end_op s =
     rbind (end_op_begin s) (\<lambda>(do_commit, s).
     if do_commit
     then rbind (commit s) (\<lambda>s. Ok (s\<lparr>lg := (lg s)\<lparr>committing := False\<rparr>, lwakes := lwakes s @ [ChLog]\<rparr>))
     else Ok s)"

text \<open>The absorption loop of \<open>log_write\<close>: the first index that holds the sector, or \<open>n\<close>.\<close>

fun absorb :: "uint list \<Rightarrow> uint \<Rightarrow> nat \<Rightarrow> nat list \<Rightarrow> nat" where
  "absorb secs sector n [] = n"
| "absorb secs sector n (i # is) = (if secs ! i = sector then i else absorb secs sector n is)"

definition log_write :: "nat \<Rightarrow> logsys \<Rightarrow> logsys res" where
  "log_write b s =
     (let l = lg s in
      if lh_n l \<ge> int LOGSIZE \<or> lh_n l \<ge> lsize l - 1 then Panic ''too big a transaction''
      else if outstanding l < 1 then Panic ''log_write outside of trans''
      else let sector = bsector (bufs (bc s) b);
               i = absorb (lh_sector l) sector (nat (lh_n l)) [0..<nat (lh_n l)];
               l = l\<lparr>lh_sector := (lh_sector l)[i := sector]\<rparr>;
               l = (if int i = lh_n l then l\<lparr>lh_n := lh_n l + 1\<rparr> else l)
        in Ok (s\<lparr>lg := l, bc := bpin b (bc s)\<rparr>))"

section \<open>Sequences of device writes\<close>

definition upds :: "(uint \<Rightarrow> block) \<Rightarrow> (uint \<times> block) list \<Rightarrow> uint \<Rightarrow> block" where
  "upds D ws = fold (\<lambda>(n, d) D. D(n := d)) ws D"

lemma upds_simps [simp]: "upds D [] = D" "upds D ((n, d) # ws) = upds (D(n := d)) ws"
  "upds D (ws @ us) = upds (upds D ws) us"
  by (simp_all add: upds_def)

lemma upds_notin: "n \<notin> fst ` set ws \<Longrightarrow> upds D ws n = D n"
  by (induction ws arbitrary: D) auto

lemma upds_in: "distinct (map fst ws) \<Longrightarrow> (n, d) \<in> set ws \<Longrightarrow> upds D ws n = d"
  by (induction ws arbitrary: D) (auto simp: upds_notin)

lemma upds_length: "\<forall>(n, d)\<in>set ws. length d = BSIZE \<Longrightarrow> length (D n) = BSIZE \<Longrightarrow> length (upds D ws n) = BSIZE"
  by (induction ws arbitrary: D) auto

lemma fold_copied:
  assumes "\<And>t u. t \<in> set ts \<Longrightarrow> u \<in> set ts \<Longrightarrow> src t \<noteq> dst u"
  shows "fold (\<lambda>t a. copied a (src t) (dst t)) ts a =
    (let W = map (\<lambda>t. (dst t, sview a (src t))) ts
     in a\<lparr>sview := upds (sview a) W, sdisk := upds (sdisk a) W, spinned := spinned a - dst ` set ts,
          strace := strace a @ W\<rparr>)"
  using assms
proof (induction ts arbitrary: a)
  case (Cons t ts)
  let ?a = "copied a (src t) (dst t)"
  have "sview ?a (src u) = sview a (src u)" if "u \<in> set ts" for u
    using Cons.prems[of u t] that by (auto simp: copied_def)
  then have w: "map (\<lambda>t. (dst t, sview ?a (src t))) ts = map (\<lambda>t. (dst t, sview a (src t))) ts" by simp
  have "fold (\<lambda>t a. copied a (src t) (dst t)) ts ?a =
    (let W = map (\<lambda>t. (dst t, sview ?a (src t))) ts
     in ?a\<lparr>sview := upds (sview ?a) W, sdisk := upds (sdisk ?a) W, spinned := spinned ?a - dst ` set ts,
           strace := strace ?a @ W\<rparr>)"
    using Cons.IH[of ?a] Cons.prems by simp
  from this[unfolded w] show ?case
    by (simp add: Let_def del: fun_upd_apply) (simp add: copied_def Diff_insert2[of _ "dst t" "dst ` set ts"] del: fun_upd_apply)
qed simp

section \<open>Where the log and the logged sectors are\<close>

text \<open>
  The log fills the end of the disk, the header first. \<open>N\<close> logged sectors are distinct and lie
  below the log, and the log has room for them.
\<close>

definition log_wf :: "log \<Rightarrow> nat \<Rightarrow> uint \<Rightarrow> bool" where
  "log_wf l N sz \<longleftrightarrow> ldev l = 1 \<and> N \<le> length (lh_sector l) \<and> N \<le> LOGSIZE \<and> distinct (take N (lh_sector l)) \<and>
     (\<forall>i<N. log_sector l i < lstart l) \<and> unat (lstart l) + N < unat sz"

lemma log_wf_block:
  assumes "log_wf l N sz" "i < N"
  shows "unat (log_block l i) = unat (lstart l) + i + 1" "log_block l i < sz" "lstart l < log_block l i"
    "log_sector l i < sz" "log_sector l i < lstart l" "log_sector l j = log_block l i \<Longrightarrow> j < N \<Longrightarrow> False"
proof -
  have sz: "unat sz < 2 ^ 32" using unsigned_less[of sz, where 'a = nat] by simp
  have N: "unat (lstart l) + N < unat sz" "i < N" using assms by (simp_all add: log_wf_def)
  show u: "unat (log_block l i) = unat (lstart l) + i + 1"
    using sz N by (simp add: log_block_def unat_word_ariths unat_of_nat)
  show "log_block l i < sz" "lstart l < log_block l i" using u N by (simp_all add: word_less_nat_alt)
  have sec: "log_sector l j < lstart l" if "j < N" for j using assms that by (simp add: log_wf_def)
  then show "log_sector l i < lstart l" using assms(2) .
  show "log_sector l i < sz" using sec[OF assms(2)] N by (simp add: word_less_nat_alt)
  show False if "log_sector l j = log_block l i" "j < N"
    using sec[OF that(2)] that(1) u by (simp add: word_less_nat_alt)
qed

section \<open>The loops\<close>

text \<open>An idle cache: nothing is held, and the buffers that are pinned leave room.\<close>

definition cache_idle :: "bcache \<Rightarrow> uint \<Rightarrow> bool" where
  "cache_idle c sz \<longleftrightarrow> cache_inv c \<and> sheld (cache_abs c) = {} \<and> ssize (cache_abs c) = sz \<and>
     card (spinned (cache_abs c)) < NBUF"

lemma copied_idle:
  assumes "cache_idle c sz" "cache_inv c'" "cache_abs c' = copied (cache_abs c) m n"
  shows "cache_idle c' sz"
proof -
  have "finite (spinned (cache_abs c))" using bc.finite_marks[of c] by simp
  then have "card (spinned (cache_abs c) - {n}) \<le> card (spinned (cache_abs c))" by (intro card_mono) auto
  then show ?thesis using assms by (simp add: cache_idle_def copied_def)
qed

definition install_room :: "log \<Rightarrow> nat list \<Rightarrow> bcache \<Rightarrow> bool" where
  "install_room l ts c \<longleftrightarrow>
     (\<forall>t\<in>set ts. log_sector l t \<in> spinned (cache_abs c)) \<or> spinned (cache_abs c) = {}"

lemma install_loop:
  assumes wf: "log_wf l N sz" and "cache_idle c sz" "install_room l ts c"
    and "distinct (map (log_sector l) ts)" "set ts \<subseteq> {..<N}"
  shows "\<exists>c'. rfold (install_one l) ts c = Ok c' \<and>
    cache_abs c' = fold (\<lambda>t a. copied a (log_block l t) (log_sector l t)) ts (cache_abs c) \<and> cache_idle c' sz"
proof -
  let ?P = "\<lambda>ts c. cache_idle c sz \<and> install_room l ts c \<and> distinct (map (log_sector l) ts) \<and> set ts \<subseteq> {..<N}"
  have "\<exists>c'. install_one l t c = Ok c' \<and> cache_abs c' = copied (cache_abs c) (log_block l t) (log_sector l t) \<and> ?P ts c'"
    if P: "?P (t # ts) c" for t ts c
  proof -
    have t: "t < N" "t < length (lh_sector l)" "ldev l = 1" using P wf by (auto simp: log_wf_def)
    note b = log_wf_block[OF wf t(1)]
    have i: "cache_inv c" "sheld (cache_abs c) = {}" "ssize (cache_abs c) = sz" "card (spinned (cache_abs c)) < NBUF"
      using P by (simp_all add: cache_idle_def)
    have "\<exists>c'. install_one l t c = Ok c' \<and> cache_inv c' \<and> cache_abs c' = copied (cache_abs c) (log_block l t) (log_sector l t)"
      using t bc.copy_forward[OF i(1), of "log_block l t" "log_sector l t"] b i P
      by (auto simp: install_one_def install_room_def)
    then obtain c' where c': "install_one l t c = Ok c'" "cache_inv c'"
      "cache_abs c' = copied (cache_abs c) (log_block l t) (log_sector l t)" by blast
    moreover have "\<forall>u\<in>set ts. log_sector l u \<noteq> log_sector l t"
      using P by (metis distinct.simps(2) image_eqI list.simps(9) set_map)
    then have "install_room l ts c'" using P c'(3) by (auto simp: install_room_def copied_def)
    ultimately show ?thesis using P copied_idle by auto
  qed
  from rfold_refines[of ?P "install_one l" cache_abs, OF this] show ?thesis using assms(2-5) by fastforce
qed

definition write_room :: "log \<Rightarrow> nat list \<Rightarrow> bcache \<Rightarrow> bool" where
  "write_room l ts c \<longleftrightarrow> (\<forall>t\<in>set ts. log_sector l t \<in> spinned (cache_abs c)) \<and>
     (\<forall>n\<in>spinned (cache_abs c). n < lstart l)"

lemma write_loop:
  assumes wf: "log_wf l N sz" and "cache_idle c sz" "write_room l ts c" "set ts \<subseteq> {..<N}"
  shows "\<exists>c'. rfold (write_one l) ts c = Ok c' \<and>
    cache_abs c' = fold (\<lambda>t a. copied a (log_sector l t) (log_block l t)) ts (cache_abs c) \<and> cache_idle c' sz"
proof -
  let ?P = "\<lambda>ts c. cache_idle c sz \<and> write_room l ts c \<and> set ts \<subseteq> {..<N}"
  have "\<exists>c'. write_one l t c = Ok c' \<and> cache_abs c' = copied (cache_abs c) (log_sector l t) (log_block l t) \<and> ?P ts c'"
    if P: "?P (t # ts) c" for t ts c
  proof -
    have t: "t < N" "t < length (lh_sector l)" "ldev l = 1" using P wf by (auto simp: log_wf_def)
    note b = log_wf_block[OF wf t(1)]
    have i: "cache_inv c" "sheld (cache_abs c) = {}" "ssize (cache_abs c) = sz" "card (spinned (cache_abs c)) < NBUF"
      using P by (simp_all add: cache_idle_def)
    have "\<exists>c'. write_one l t c = Ok c' \<and> cache_inv c' \<and> cache_abs c' = copied (cache_abs c) (log_sector l t) (log_block l t)"
      using t bc.copy_backward[OF i(1), of "log_block l t" "log_sector l t"] b i P
      by (auto simp: write_one_def write_room_def)
    then obtain c' where c': "write_one l t c = Ok c'" "cache_inv c'"
      "cache_abs c' = copied (cache_abs c) (log_sector l t) (log_block l t)" by blast
    have "log_block l t \<notin> spinned (cache_abs c)" using P b(3) by (auto simp: write_room_def)
    then have "write_room l ts c'" using P c'(3) by (auto simp: write_room_def copied_def)
    with c' show ?thesis using P copied_idle by auto
  qed
  from rfold_refines[of ?P "write_one l" cache_abs, OF this] show ?thesis using assms(2-4) by fastforce
qed

section \<open>The header block\<close>

lemma length_put_sectors [simp]: "length (put_sectors secs is d) = length d"
  by (induction "is" arbitrary: d) auto

lemma length_head_block [simp]: "length (head_block l d) = length d"
  by (simp add: head_block_def)

lemma get32_put_sectors_0: "get32 (put_sectors secs is d) 0 = get32 d 0"
  by (induction "is" arbitrary: d) (auto simp: layout)

lemma get32_put_sectors:
  assumes "distinct is" "\<forall>i\<in>set is. 4 * i + 7 < length d"
  shows "get32 (put_sectors secs is d) (4 + 4 * j) = (if j \<in> set is then secs ! j else get32 d (4 + 4 * j))"
  using assms
proof (induction "is" arbitrary: d)
  case (Cons i "is")
  have "get32 (put32 d (4 + 4 * i) (secs ! i)) (4 + 4 * j) = get32 d (4 + 4 * j)" if "j \<noteq> i"
    using that by (intro get_put_other) auto
  with Cons show ?case by auto
qed simp

lemma read_sectors_eq:
  "n \<le> length secs \<Longrightarrow>
     read_sectors d [k..<n] secs = Ok (take k secs @ map (\<lambda>i. get32 d (4 + 4 * i)) [k..<n] @ drop (max k n) secs)"
proof (induction "n - k" arbitrary: k secs)
  case (Suc m)
  then have k: "k < n" "k < length secs" by simp_all
  have "read_sectors d [Suc k..<n] (secs[k := get32 d (4 + 4 * k)]) =
      Ok (take (Suc k) (secs[k := get32 d (4 + 4 * k)]) @ map (\<lambda>i. get32 d (4 + 4 * i)) [Suc k..<n] @
          drop (max (Suc k) n) (secs[k := get32 d (4 + 4 * k)]))"
    using Suc.hyps(1)[of "Suc k"] Suc.hyps(2) Suc.prems by simp
  then show ?case
    using k by (simp add: upt_conv_Cons take_Suc_conv_app_nth drop_update_cancel max_absorb2)
qed (simp add: max_absorb1)

lemma sint_small: "0 \<le> n \<Longrightarrow> n \<le> 30 \<Longrightarrow> sint (word_of_int n :: uint) = n"
  by (simp add: sint_sbintrunc' signed_take_bit_int_eq_self)

text \<open>Reading a header back gives the count and the sectors that were written.\<close>

lemma head_roundtrip:
  assumes "lh_n l = int N" "N \<le> LOGSIZE" "N \<le> length (lh_sector l)" "length d = BSIZE"
  shows "sint (get32 (head_block l d) 0) = int N"
    and "map (\<lambda>i. get32 (head_block l d) (4 + 4 * i)) [0..<N] = take N (lh_sector l)"
proof -
  show "sint (get32 (head_block l d) 0) = int N"
    using assms sint_small[of "int N"] by (simp add: head_block_def get32_put_sectors_0)
  show "map (\<lambda>i. get32 (head_block l d) (4 + 4 * i)) [0..<N] = take N (lh_sector l)"
    using assms by (intro nth_equalityI) (simp_all add: head_block_def get32_put_sectors)
qed

definition head_written :: "bspec \<Rightarrow> log \<Rightarrow> bspec" where
  "head_written a l = (let h = head_block l (sview a (lstart l))
     in a\<lparr>sview := (sview a)(lstart l := h), sdisk := (sdisk a)(lstart l := h),
          spinned := spinned a - {lstart l}, strace := strace a @ [(lstart l, h)]\<rparr>)"

lemma write_head_ok:
  assumes "cache_idle (bc s) sz" "lstart (lg s) < sz" "ldev (lg s) = 1" "nat (lh_n (lg s)) \<le> length (lh_sector (lg s))"
  shows "\<exists>c'. write_head s = Ok (s\<lparr>bc := c'\<rparr>) \<and> cache_idle c' sz \<and> cache_abs c' = head_written (cache_abs (bc s)) (lg s)"
proof -
  let ?c = "bc s" and ?l = "lg s"
  have i: "cache_inv ?c" "lstart ?l < ssize (cache_abs ?c)" "lstart ?l \<notin> sheld (cache_abs ?c)"
    "card (sheld (cache_abs ?c) \<union> spinned (cache_abs ?c)) < NBUF"
    using assms by (simp_all add: cache_idle_def)
  have "length (head_block ?l (sview (cache_abs ?c) (lstart ?l))) = BSIZE" using bc.len[OF i(1,2)] by simp
  then obtain c' where c': "rbind (bread 1 (lstart ?l) ?c) (\<lambda>(b, s). rbind (bwrite b (bstore b (head_block ?l (bdata (bufs s b))) s)) (brelse b)) = Ok c'"
      "cache_inv c'" "cache_abs c' = head_written (cache_abs ?c) ?l"
    using bc.read_write_release[OF i, of "head_block ?l"] unfolding head_written_def Let_def by blast
  have "card (spinned (cache_abs ?c) - {lstart ?l}) \<le> card (spinned (cache_abs ?c))"
    using bc.finite_marks[of ?c] by (intro card_mono) auto
  then have "cache_idle c' sz" using assms(1) c'(2,3) by (simp add: cache_idle_def head_written_def Let_def)
  moreover have "write_head s = Ok (s\<lparr>bc := c'\<rparr>)"
    using c'(1) assms(3,4) unfolding write_head_def by auto
  ultimately show ?thesis using c'(3) by blast
qed

section \<open>Commit\<close>

text \<open>The log is ready to commit: the dirty sectors are exactly the logged ones and nobody holds a buffer.\<close>

definition commit_ready :: "logsys \<Rightarrow> nat \<Rightarrow> uint \<Rightarrow> bool" where
  "commit_ready s N sz \<longleftrightarrow> lh_n (lg s) = int N \<and> 0 < N \<and> log_wf (lg s) N sz \<and> length (lh_sector (lg s)) = LOGSIZE \<and>
     cache_idle (bc s) sz \<and> spinned (cache_abs (bc s)) = log_sector (lg s) ` {..<N}"

text \<open>The device writes of \<open>commit\<close>: the log blocks, the header, the home sectors, the empty header.\<close>

definition log_writes :: "log \<Rightarrow> nat \<Rightarrow> (uint \<Rightarrow> block) \<Rightarrow> (uint \<times> block) list" where
  "log_writes l N v = map (\<lambda>i. (log_block l i, v (log_sector l i))) [0..<N]"

definition home_writes :: "log \<Rightarrow> nat \<Rightarrow> (uint \<Rightarrow> block) \<Rightarrow> (uint \<times> block) list" where
  "home_writes l N v = map (\<lambda>i. (log_sector l i, v (log_sector l i))) [0..<N]"

definition commit_head :: "log \<Rightarrow> (uint \<Rightarrow> block) \<Rightarrow> block" where
  "commit_head l v = head_block l (v (lstart l))"

definition commit_writes :: "log \<Rightarrow> nat \<Rightarrow> (uint \<Rightarrow> block) \<Rightarrow> (uint \<times> block) list" where
  "commit_writes l N v = log_writes l N v @ [(lstart l, commit_head l v)] @ home_writes l N v @
     [(lstart l, head_block (l\<lparr>lh_n := 0\<rparr>) (commit_head l v))]"

lemma log_block_inj:
  assumes "log_wf l N sz" "i < N" "j < N" "log_block l i = log_block l j" shows "i = j"
proof -
  have "unat (lstart l) + i + 1 = unat (lstart l) + j + 1"
    using log_wf_block(1)[OF assms(1,2)] log_wf_block(1)[OF assms(1,3)] assms(4) by metis
  then show ?thesis by simp
qed

lemma log_writes_notin:
  assumes "log_wf l N sz" "x \<le> lstart l"
  shows "upds D (log_writes l N v) x = D x"
proof (rule upds_notin)
  have "x \<noteq> log_block l i" if "i < N" for i
    using log_wf_block(3)[OF assms(1) that] assms(2) by auto
  then show "x \<notin> fst ` set (log_writes l N v)" unfolding log_writes_def by (auto simp del: set_upt) (metis atLeastLessThan_iff set_upt)
qed

lemma log_writes_in:
  assumes "log_wf l N sz" "i < N"
  shows "upds D (log_writes l N v) (log_block l i) = v (log_sector l i)"
proof (rule upds_in)
  show "distinct (map fst (log_writes l N v))"
    using log_block_inj[OF assms(1)] by (auto simp: log_writes_def distinct_map inj_on_def comp_def)
qed (use assms(2) in \<open>auto simp: log_writes_def\<close>)

lemma sectors_distinct: "log_wf l N sz \<Longrightarrow> distinct (map (log_sector l) [0..<N])"
proof -
  assume "log_wf l N sz"
  moreover then have "map (log_sector l) [0..<N] = take N (lh_sector l)"
    by (intro nth_equalityI) (auto simp: log_wf_def log_sector_def)
  ultimately show ?thesis by (simp add: log_wf_def)
qed

lemma home_writes_in:
  assumes "log_wf l N sz" "i < N"
  shows "upds D (home_writes l N v) (log_sector l i) = v (log_sector l i)"
proof (rule upds_in)
  show "distinct (map fst (home_writes l N v))"
    using sectors_distinct[OF assms(1)] by (simp add: home_writes_def comp_def)
qed (use assms(2) in \<open>auto simp: home_writes_def\<close>)

lemma home_writes_notin: "x \<notin> log_sector l ` {..<N} \<Longrightarrow> upds D (home_writes l N v) x = D x"
  by (rule upds_notin) (auto simp: home_writes_def)

lemma write_log_ok:
  assumes r: "commit_ready s N sz"
  shows "\<exists>c. write_log s = Ok (s\<lparr>bc := c\<rparr>) \<and> cache_idle c sz \<and>
    cache_abs c = (let a = cache_abs (bc s); W = log_writes (lg s) N (sview a)
      in a\<lparr>sview := upds (sview a) W, sdisk := upds (sdisk a) W, strace := strace a @ W\<rparr>)"
proof -
  let ?l = "lg s" and ?a = "cache_abs (bc s)"
  have wf: "log_wf ?l N sz" and i: "cache_idle (bc s) sz" and p: "spinned ?a = log_sector ?l ` {..<N}" and n: "nat (lh_n ?l) = N"
    using r by (simp_all add: commit_ready_def)
  have room: "write_room ?l [0..<N] (bc s)" using p log_wf_block(5)[OF wf] by (auto simp: write_room_def)
  obtain c where c: "rfold (write_one ?l) [0..<N] (bc s) = Ok c" "cache_idle c sz"
    "cache_abs c = fold (\<lambda>t a. copied a (log_sector ?l t) (log_block ?l t)) [0..<N] ?a"
    using write_loop[OF wf i room] by (auto simp: atLeast0LessThan)
  have ne: "log_sector ?l t \<noteq> log_block ?l u" if "t \<in> set [0..<N]" "u \<in> set [0..<N]" for t u
    using log_wf_block(6)[OF wf, of u t] that by auto
  have "spinned ?a - log_block ?l ` set [0..<N] = spinned ?a" using p ne by (auto simp: atLeast0LessThan)
  then have "cache_abs c = (let W = log_writes ?l N (sview ?a)
      in ?a\<lparr>sview := upds (sview ?a) W, sdisk := upds (sdisk ?a) W, strace := strace ?a @ W\<rparr>)"
    using c(3) fold_copied[of "[0..<N]" "log_sector ?l" "log_block ?l" ?a, OF ne]
    by (simp add: Let_def log_writes_def del: set_upt)
  with c(1,2) n show ?thesis by (intro exI[of _ c]) (simp add: write_log_def Let_def)
qed

lemma install_trans_ok:
  assumes wf: "log_wf (lg s) N sz" and i: "cache_idle (bc s) sz" and n: "lh_n (lg s) = int N"
    and p: "spinned (cache_abs (bc s)) = log_sector (lg s) ` {..<N} \<or> spinned (cache_abs (bc s)) = {}"
  shows "\<exists>c. install_trans s = Ok (s\<lparr>bc := c\<rparr>) \<and> cache_idle c sz \<and>
    cache_abs c = (let a = cache_abs (bc s); W = map (\<lambda>i. (log_sector (lg s) i, sview a (log_block (lg s) i))) [0..<N]
      in a\<lparr>sview := upds (sview a) W, sdisk := upds (sdisk a) W, spinned := {}, strace := strace a @ W\<rparr>)"
proof -
  let ?l = "lg s" and ?a = "cache_abs (bc s)"
  have room: "install_room ?l [0..<N] (bc s)" using p by (auto simp: install_room_def)
  obtain c where c: "rfold (install_one ?l) [0..<N] (bc s) = Ok c" "cache_idle c sz"
    "cache_abs c = fold (\<lambda>t a. copied a (log_block ?l t) (log_sector ?l t)) [0..<N] ?a"
    using install_loop[OF wf i room sectors_distinct[OF wf]] by (auto simp: atLeast0LessThan)
  have ne: "log_block ?l t \<noteq> log_sector ?l u" if "t \<in> set [0..<N]" "u \<in> set [0..<N]" for t u
    using log_wf_block(6)[OF wf, of t u] that by auto
  have "spinned ?a - log_sector ?l ` set [0..<N] = {}" using p by (auto simp: atLeast0LessThan)
  then have "cache_abs c = (let W = map (\<lambda>i. (log_sector ?l i, sview ?a (log_block ?l i))) [0..<N]
      in ?a\<lparr>sview := upds (sview ?a) W, sdisk := upds (sdisk ?a) W, spinned := {}, strace := strace ?a @ W\<rparr>)"
    using c(3) fold_copied[of "[0..<N]" "log_block ?l" "log_sector ?l" ?a, OF ne]
    by (simp add: Let_def del: set_upt)
  with c(1,2) n show ?thesis by (intro exI[of _ c]) (simp add: install_trans_def Let_def)
qed

lemma commit_ok:
  assumes r: "commit_ready s N sz"
  shows "\<exists>c. commit s = Ok (s\<lparr>lg := (lg s)\<lparr>lh_n := 0\<rparr>, bc := c\<rparr>) \<and> cache_idle c sz \<and>
    cache_abs c = (let a = cache_abs (bc s); W = commit_writes (lg s) N (sview a)
      in a\<lparr>sview := upds (sview a) W, sdisk := upds (sdisk a) W, spinned := {}, strace := strace a @ W\<rparr>)"
proof -
  let ?l = "lg s" and ?a = "cache_abs (bc s)"
  let ?v = "sview ?a"
  have wf: "log_wf ?l N sz" and n: "lh_n ?l = int N" "0 < N" "ldev ?l = 1" "N \<le> length (lh_sector ?l)"
    and p: "spinned ?a = log_sector ?l ` {..<N}"
    using r by (simp_all add: commit_ready_def log_wf_def)
  have st: "lstart ?l < sz" using wf by (simp add: log_wf_def word_less_nat_alt)
  obtain c1 where c1: "write_log s = Ok (s\<lparr>bc := c1\<rparr>)" "cache_idle c1 sz"
    "cache_abs c1 = ?a\<lparr>sview := upds ?v (log_writes ?l N ?v), sdisk := upds (sdisk ?a) (log_writes ?l N ?v),
                      strace := strace ?a @ log_writes ?l N ?v\<rparr>"
    using write_log_ok[OF r] by (auto simp: Let_def)
  obtain c2 where c2: "write_head (s\<lparr>bc := c1\<rparr>) = Ok (s\<lparr>bc := c2\<rparr>)" "cache_idle c2 sz"
    "cache_abs c2 = head_written (cache_abs c1) ?l"
    using write_head_ok[of "s\<lparr>bc := c1\<rparr>" sz] c1(2) st n by auto
  have h: "head_block ?l (sview (cache_abs c1) (lstart ?l)) = commit_head ?l ?v"
    using c1(3) log_writes_notin[OF wf, of "lstart ?l"] by (simp add: commit_head_def)
  have ns: "lstart ?l \<notin> spinned ?a" using p log_wf_block(5)[OF wf] by fastforce
  let ?W2 = "log_writes ?l N ?v @ [(lstart ?l, commit_head ?l ?v)]"
  have a2: "cache_abs c2 = ?a\<lparr>sview := upds ?v ?W2, sdisk := upds (sdisk ?a) ?W2, strace := strace ?a @ ?W2\<rparr>"
    using c2(3) ns unfolding head_written_def Let_def h by (simp add: c1(3))
  obtain c3 where c3: "install_trans (s\<lparr>bc := c2\<rparr>) = Ok (s\<lparr>bc := c3\<rparr>)" "cache_idle c3 sz"
    "cache_abs c3 = (let W = map (\<lambda>i. (log_sector ?l i, sview (cache_abs c2) (log_block ?l i))) [0..<N]
       in (cache_abs c2)\<lparr>sview := upds (sview (cache_abs c2)) W, sdisk := upds (sdisk (cache_abs c2)) W,
           spinned := {}, strace := strace (cache_abs c2) @ W\<rparr>)"
    using install_trans_ok[of "s\<lparr>bc := c2\<rparr>" N sz] wf c2(2) n p a2 by (auto simp: Let_def)
  have "sview (cache_abs c2) (log_block ?l i) = ?v (log_sector ?l i)" if "i < N" for i
    using log_writes_in[OF wf that, of ?v ?v] log_wf_block(3)[OF wf that] a2 by auto
  then have "map (\<lambda>i. (log_sector ?l i, sview (cache_abs c2) (log_block ?l i))) [0..<N] = home_writes ?l N ?v"
    by (simp add: home_writes_def)
  then have a3: "cache_abs c3 = ?a\<lparr>sview := upds ?v (?W2 @ home_writes ?l N ?v), sdisk := upds (sdisk ?a) (?W2 @ home_writes ?l N ?v),
           spinned := {}, strace := strace ?a @ ?W2 @ home_writes ?l N ?v\<rparr>"
    using c3(3) a2 by (simp add: Let_def)
  let ?s3 = "s\<lparr>bc := c3, lg := ?l\<lparr>lh_n := 0\<rparr>\<rparr>"
  obtain c4 where c4: "write_head ?s3 = Ok (?s3\<lparr>bc := c4\<rparr>)" "cache_idle c4 sz"
    "cache_abs c4 = head_written (cache_abs c3) (?l\<lparr>lh_n := 0\<rparr>)"
    using write_head_ok[of ?s3 sz] c3(2) st n by auto
  have "lstart ?l \<notin> log_sector ?l ` {..<N}" using p ns by simp
  then have "sview (cache_abs c3) (lstart ?l) = commit_head ?l ?v"
    using a3 home_writes_notin by simp
  then have a4: "cache_abs c4 = ?a\<lparr>sview := upds ?v (commit_writes ?l N ?v), sdisk := upds (sdisk ?a) (commit_writes ?l N ?v),
           spinned := {}, strace := strace ?a @ commit_writes ?l N ?v\<rparr>"
    using c4(3) a3 by (simp add: head_written_def Let_def commit_writes_def)
  have "commit s = Ok (s\<lparr>lg := ?l\<lparr>lh_n := 0\<rparr>, bc := c4\<rparr>)"
    using c1(1) c2(1) c3(1) c4(1) n(1,2) by (simp add: commit_def)
  with c4(2) a4 show ?thesis by (auto simp: Let_def)
qed

section \<open>Recovery\<close>

text \<open>The log as \<open>read_head\<close> reads it off a header block with count \<open>N\<close>.\<close>

definition log_of_head :: "log \<Rightarrow> nat \<Rightarrow> block \<Rightarrow> log" where
  "log_of_head l N d = l\<lparr>lh_n := int N, lh_sector := map (\<lambda>i. get32 d (4 + 4 * i)) [0..<N] @ drop N (lh_sector l)\<rparr>"

lemma log_of_head_fields [simp]:
  "lstart (log_of_head l N d) = lstart l" "ldev (log_of_head l N d) = ldev l" "lh_n (log_of_head l N d) = int N"
  by (simp_all add: log_of_head_def)

lemma read_head_ok:
  assumes i: "cache_idle (bc s) sz" and l: "ldev (lg s) = 1" "lstart (lg s) < sz" "length (lh_sector (lg s)) = LOGSIZE"
    and n: "sint (get32 (sview (cache_abs (bc s)) (lstart (lg s))) 0) = int N" "N \<le> LOGSIZE"
  shows "\<exists>c. read_head s = Ok (s\<lparr>lg := log_of_head (lg s) N (sview (cache_abs (bc s)) (lstart (lg s))), bc := c\<rparr>) \<and>
     cache_idle c sz \<and> cache_abs c = cache_abs (bc s)"
proof -
  obtain b c1 c2 where c: "bread 1 (lstart (lg s)) (bc s) = Ok (b, c1)" "brelse b c1 = Ok c2"
    "bdata (bufs c1 b) = sview (cache_abs (bc s)) (lstart (lg s))" "cache_inv c2" "cache_abs c2 = cache_abs (bc s)"
    using bc.read_release[of "bc s" "lstart (lg s)"] i l(2) by (auto simp: cache_idle_def)
  have "cache_idle c2 sz" using i c(4,5) by (simp add: cache_idle_def)
  then show ?thesis
    using c n l by (intro exI[of _ c2]) (simp add: read_head_def log_of_head_def read_sectors_eq Let_def)
qed

lemma recover_ok:
  assumes i: "cache_idle (bc s) sz" and p: "spinned (cache_abs (bc s)) = {}"
    and l: "ldev (lg s) = 1" "lstart (lg s) < sz" "length (lh_sector (lg s)) = LOGSIZE"
    and n: "sint (get32 (sview (cache_abs (bc s)) (lstart (lg s))) 0) = int N" "N \<le> LOGSIZE"
    and wf: "log_wf (log_of_head (lg s) N (sview (cache_abs (bc s)) (lstart (lg s)))) N sz" (is "log_wf ?l _ _")
  shows "\<exists>s'. recover_from_log s = Ok s' \<and> cache_idle (bc s') sz \<and> spinned (cache_abs (bc s')) = {} \<and>
    sint (get32 (sdisk (cache_abs (bc s')) (lstart (lg s))) 0) = 0 \<and>
    (\<forall>x. x \<noteq> lstart (lg s) \<longrightarrow> sdisk (cache_abs (bc s')) x =
      upds (sdisk (cache_abs (bc s))) (map (\<lambda>i. (log_sector ?l i, sview (cache_abs (bc s)) (log_block ?l i))) [0..<N]) x)"
proof -
  let ?a = "cache_abs (bc s)"
  obtain c1 where c1: "read_head s = Ok (s\<lparr>lg := ?l, bc := c1\<rparr>)" "cache_idle c1 sz" "cache_abs c1 = ?a"
    using read_head_ok[OF i l n] by blast
  obtain c2 where c2: "install_trans (s\<lparr>lg := ?l, bc := c1\<rparr>) = Ok (s\<lparr>lg := ?l, bc := c2\<rparr>)" "cache_idle c2 sz"
    "sdisk (cache_abs c2) = upds (sdisk ?a) (map (\<lambda>i. (log_sector ?l i, sview ?a (log_block ?l i))) [0..<N])"
    "spinned (cache_abs c2) = {}"
    using install_trans_ok[of "s\<lparr>lg := ?l, bc := c1\<rparr>" N sz] wf c1(2,3) p by (auto simp: Let_def)
  let ?l0 = "?l\<lparr>lh_n := 0\<rparr>"
  let ?s2 = "s\<lparr>bc := c2, lg := ?l0\<rparr>"
  obtain c3 where c3: "write_head ?s2 = Ok (?s2\<lparr>bc := c3\<rparr>)" "cache_idle c3 sz"
    "cache_abs c3 = head_written (cache_abs c2) ?l0"
    using write_head_ok[of ?s2 sz] c2(2) l by auto
  have "length (sview (cache_abs c2) (lstart (lg s))) = BSIZE"
    using bc.len[of c2 "lstart (lg s)"] c2(2) l(2) by (simp add: cache_idle_def)
  then have "sint (get32 (head_block ?l0 (sview (cache_abs c2) (lstart (lg s)))) 0) = 0"
    by (simp add: head_block_def)
  moreover have "recover_from_log s = Ok (?s2\<lparr>bc := c3\<rparr>)"
    using c1(1) c2(1) c3(1) by (simp add: recover_from_log_def)
  ultimately show ?thesis
    using c2(3,4) c3(2,3) by (simp add: head_written_def Let_def)
qed

text \<open>The machine after a crash: empty cache and zeroed log structure over the disk the crash left.\<close>

definition log_zero :: log where
  "log_zero = \<lparr>llock = \<lparr>locked = 0, lname = [], lcpu = None, pcs = []\<rparr>, lstart = 0, lsize = 0, outstanding = 0,
     committing = False, ldev = 0, lh_n = 0, lh_sector = replicate LOGSIZE 0\<rparr>"

definition reboot :: "(uint \<Rightarrow> block) \<Rightarrow> uint \<Rightarrow> logsys" where
  "reboot D sz = \<lparr>lg = log_zero, bc = binit (bcache_boot \<lparr>memdisk = D, disksize = sz, dtrace = []\<rparr>), lwakes = []\<rparr>"

lemma reboot_idle:
  assumes "\<forall>n < sz. length (D n) = BSIZE"
  shows "cache_idle (bc (reboot D sz)) sz" "cache_abs (bc (reboot D sz)) =
     \<lparr>sview = D, sdisk = D, sheld = {}, spinned = {}, ssize = sz, strace = []\<rparr>"
proof -
  let ?d = "\<lparr>memdisk = D, disksize = sz, dtrace = []\<rparr>"
  let ?c = "bc (reboot D sz)"
  have i: "cache_inv ?c" using binit_inv[of ?d] assms by (simp add: reboot_def)
  have marks: "sheld (cache_abs ?c) = {}" "spinned (cache_abs ?c) = {}" "bdisk ?c = ?d"
    using boot_marks[of ?d] by (simp_all add: reboot_def)
  then have disk: "sdisk (cache_abs ?c) = D" "ssize (cache_abs ?c) = sz" "strace (cache_abs ?c) = []"
    by (simp_all add: cache_abs_def)
  have "sview (cache_abs ?c) = D" using bc.coherent[OF i] marks disk by (intro ext) simp
  then show "cache_abs ?c = \<lparr>sview = D, sdisk = D, sheld = {}, spinned = {}, ssize = sz, strace = []\<rparr>"
    using marks disk by simp
  then show "cache_idle ?c sz" using i by (simp add: cache_idle_def)
qed

definition log_at :: "uint \<Rightarrow> int \<Rightarrow> log" where
  "log_at start sz = log_zero\<lparr>llock := initlock (llock log_zero) ''log'', lstart := start, lsize := sz, ldev := 1\<rparr>"

lemma log_at_fields [simp]:
  "lstart (log_at start n) = start" "ldev (log_at start n) = 1" "lh_sector (log_at start n) = replicate LOGSIZE 0"
  by (simp_all add: log_at_def log_zero_def)

lemma initlog_ok:
  assumes len: "\<forall>n < sz. length (D n) = BSIZE" and st: "sb_size (sb_of (D 1)) - sb_nlog (sb_of (D 1)) = start"
    and sz: "1 < sz" "start < sz" and n: "sint (get32 (D start) 0) = int N" "N \<le> LOGSIZE"
    and wf: "log_wf (log_of_head (log_at start (sint (sb_nlog (sb_of (D 1))))) N (D start)) N sz" (is "log_wf ?l _ _")
  shows "\<exists>s'. initlog (reboot D sz) = Ok s' \<and> cache_idle (bc s') sz \<and> spinned (cache_abs (bc s')) = {} \<and>
    sint (get32 (sdisk (cache_abs (bc s')) start) 0) = 0 \<and>
    (\<forall>x. x \<noteq> start \<longrightarrow> sdisk (cache_abs (bc s')) x = upds D (map (\<lambda>i. (log_sector ?l i, D (log_block ?l i))) [0..<N]) x)"
proof -
  let ?s = "reboot D sz" and ?sb = "sb_of (D 1)"
  note b = reboot_idle[OF len]
  have i: "cache_inv (bc ?s)" using b(1) by (simp add: cache_idle_def)
  obtain u c1 c2 where c: "bread 1 1 (bc ?s) = Ok (u, c1)" "brelse u c1 = Ok c2" "bdata (bufs c1 u) = D 1"
    "cache_inv c2" "cache_abs c2 = cache_abs (bc ?s)"
    using bc.read_release[OF i, of 1] sz(1) by (auto simp: b(2))
  let ?t = "?s\<lparr>lg := log_at start (sint (sb_nlog ?sb)), bc := c2\<rparr>"
  have "lg ?s = log_zero" by (simp add: reboot_def)
  then have e: "initlog ?s = recover_from_log ?t"
    using c(1-3) st by (simp add: initlog_def readsb_def log_at_def Let_def)
  have "cache_idle (bc ?t) sz" using b(1) c(4,5) by (simp add: cache_idle_def)
  moreover have "ldev (lg ?t) = 1" "lstart (lg ?t) = start" "length (lh_sector (lg ?t)) = LOGSIZE"
    "cache_abs (bc ?t) = \<lparr>sview = D, sdisk = D, sheld = {}, spinned = {}, ssize = sz, strace = []\<rparr>"
    using c(5) b(2) by (simp_all add: log_at_def log_zero_def)
  ultimately show ?thesis using recover_ok[of ?t sz N] sz n wf unfolding e by auto
qed

section \<open>Crash safety\<close>

lemma cache_disk_length: "cache_inv c \<Longrightarrow> n < ssize (cache_abs c) \<Longrightarrow> length (sdisk (cache_abs c) n) = BSIZE"
  by (simp add: cache_abs_def cache_inv_def)

lemma commit_writes_length:
  assumes r: "commit_ready s N sz"
  shows "\<forall>(n, d)\<in>set (commit_writes (lg s) N (sview (cache_abs (bc s)))). length d = BSIZE"
proof -
  let ?v = "sview (cache_abs (bc s))" and ?l = "lg s"
  have wf: "log_wf ?l N sz" and i: "cache_inv (bc s)" "ssize (cache_abs (bc s)) = sz"
    using r by (simp_all add: commit_ready_def cache_idle_def)
  have "length (?v (log_sector ?l i)) = BSIZE" if "i < N" for i
    using bc.len[OF i(1)] log_wf_block(4)[OF wf that] i(2) by simp
  moreover have "length (?v (lstart ?l)) = BSIZE"
    using bc.len[OF i(1)] wf i(2) by (simp add: log_wf_def word_less_nat_alt)
  ultimately show ?thesis
    by (auto simp: commit_writes_def log_writes_def home_writes_def commit_head_def)
qed

text \<open>The disk when the power fails after \<open>k\<close> of the device writes of a commit.\<close>

definition crash_disk :: "logsys \<Rightarrow> nat \<Rightarrow> nat \<Rightarrow> uint \<Rightarrow> block" where
  "crash_disk s N k = (let a = cache_abs (bc s) in upds (sdisk a) (take k (commit_writes (lg s) N (sview a))))"

lemma crash_disk_length:
  assumes r: "commit_ready s N sz" and "n < sz"
  shows "length (crash_disk s N k n) = BSIZE"
proof -
  have "length (sdisk (cache_abs (bc s)) n) = BSIZE"
    using r assms(2) cache_disk_length by (simp add: commit_ready_def cache_idle_def)
  moreover have "\<forall>(n, d)\<in>set (take k (commit_writes (lg s) N (sview (cache_abs (bc s))))). length d = BSIZE"
    using commit_writes_length[OF r] set_take_subset by fast
  ultimately show ?thesis unfolding crash_disk_def Let_def by (intro upds_length)
qed

lemma clean_view:
  assumes "commit_ready s N sz" "x \<notin> log_sector (lg s) ` {..<N}"
  shows "sdisk (cache_abs (bc s)) x = sview (cache_abs (bc s)) x"
  using bc.coherent[of "bc s" x] assms by (simp add: commit_ready_def cache_idle_def)

text \<open>Before the header is written, nothing below the log has changed.\<close>

lemma crash_before:
  assumes wf: "log_wf (lg s) N sz" and "k \<le> N" "x \<le> lstart (lg s)"
  shows "crash_disk s N k x = sdisk (cache_abs (bc s)) x"
proof -
  let ?W = "log_writes (lg s) N (sview (cache_abs (bc s)))"
  have "x \<notin> fst ` set (take k ?W)"
    using log_wf_block(3)[OF wf] assms(3) set_take_subset[of k ?W] by (fastforce simp: log_writes_def)
  then show ?thesis
    using assms(2) by (simp add: crash_disk_def Let_def commit_writes_def upds_notin log_writes_def)
qed

text \<open>Once the header is written, the log holds the new contents until the header is cleared.\<close>

lemma crash_between:
  assumes r: "commit_ready s N sz" and k: "N < k" "k < 2 * N + 2"
  defines "v \<equiv> sview (cache_abs (bc s))"
  shows "crash_disk s N k (lstart (lg s)) = commit_head (lg s) v"
    and "i < N \<Longrightarrow> crash_disk s N k (log_block (lg s) i) = v (log_sector (lg s) i)"
    and "x < lstart (lg s) \<Longrightarrow> x \<notin> log_sector (lg s) ` {..<N} \<Longrightarrow> crash_disk s N k x = v x"
proof -
  let ?l = "lg s" and ?D = "sdisk (cache_abs (bc s))"
  let ?U = "take (k - N - 1) (home_writes ?l N v)"
  have wf: "log_wf ?l N sz" using r by (simp add: commit_ready_def)
  have D: "crash_disk s N k = upds ((upds ?D (log_writes ?l N v))(lstart ?l := commit_head ?l v)) ?U"
    using k by (simp add: crash_disk_def Let_def commit_writes_def log_writes_def home_writes_def v_def take_Cons')
  have U: "x \<notin> fst ` set ?U" if "x \<notin> log_sector ?l ` {..<N}" for x
    using that set_take_subset[of "k - N - 1" "home_writes ?l N v"] by (fastforce simp: home_writes_def)
  have st: "lstart ?l \<notin> log_sector ?l ` {..<N}" using log_wf_block(5)[OF wf] by fastforce
  show "crash_disk s N k (lstart ?l) = commit_head ?l v" using U[OF st] by (simp add: D upds_notin)
  show "crash_disk s N k (log_block ?l i) = v (log_sector ?l i)" if i: "i < N"
  proof -
    have "log_block ?l i \<notin> log_sector ?l ` {..<N}" using log_wf_block(6)[OF wf i] by fastforce
    moreover have "log_block ?l i \<noteq> lstart ?l" using log_wf_block(3)[OF wf i] by auto
    ultimately show ?thesis using U log_writes_in[OF wf i] by (simp add: D upds_notin)
  qed
  show "crash_disk s N k x = v x" if x: "x < lstart ?l" "x \<notin> log_sector ?l ` {..<N}"
    using U[OF x(2)] x log_writes_notin[OF wf] clean_view[OF r x(2)] by (auto simp: D upds_notin v_def)
qed

text \<open>After the last write every block below the log is new and the header is empty.\<close>

lemma crash_after:
  assumes r: "commit_ready s N sz" and k: "2 * N + 2 \<le> k"
  defines "v \<equiv> sview (cache_abs (bc s))"
  shows "crash_disk s N k (lstart (lg s)) = head_block ((lg s)\<lparr>lh_n := 0\<rparr>) (commit_head (lg s) v)"
    and "x < lstart (lg s) \<Longrightarrow> crash_disk s N k x = v x"
proof -
  let ?l = "lg s" and ?D = "sdisk (cache_abs (bc s))"
  have wf: "log_wf ?l N sz" using r by (simp add: commit_ready_def)
  have D: "crash_disk s N k = (upds ((upds ?D (log_writes ?l N v))(lstart ?l := commit_head ?l v)) (home_writes ?l N v))
      (lstart ?l := head_block (?l\<lparr>lh_n := 0\<rparr>) (commit_head ?l v))"
    using k by (simp add: crash_disk_def Let_def commit_writes_def log_writes_def home_writes_def v_def)
  show "crash_disk s N k (lstart ?l) = head_block (?l\<lparr>lh_n := 0\<rparr>) (commit_head ?l v)" by (simp add: D)
  show "crash_disk s N k x = v x" if x: "x < lstart ?l"
  proof (cases "x \<in> log_sector ?l ` {..<N}")
    case True
    then show ?thesis using home_writes_in[OF wf] x by (auto simp: D)
  next
    case False
    then show ?thesis
      using x home_writes_notin[OF False] log_writes_notin[OF wf] clean_view[OF r False] by (auto simp: D v_def)
  qed
qed

text \<open>A disk on which recovery may start: the superblock places the log and the header is empty.\<close>

definition disk_ready :: "logsys \<Rightarrow> nat \<Rightarrow> bool" where
  "disk_ready s N \<longleftrightarrow> (let D = sdisk (cache_abs (bc s)) in
     sb_size (sb_of (D 1)) - sb_nlog (sb_of (D 1)) = lstart (lg s) \<and> 1 < lstart (lg s) \<and>
     1 \<notin> log_sector (lg s) ` {..<N} \<and> sint (get32 (D (lstart (lg s))) 0) = 0)"

lemma recover_empty:
  assumes len: "\<forall>n < sz. length (D n) = BSIZE" and st: "sb_size (sb_of (D 1)) - sb_nlog (sb_of (D 1)) = start"
    and sz: "1 < start" "start < sz" and n: "sint (get32 (D start) 0) = 0"
  shows "\<exists>s'. initlog (reboot D sz) = Ok s' \<and> (\<forall>x < start. sdisk (cache_abs (bc s')) x = D x)"
proof -
  have "log_wf (log_of_head (log_at start i) 0 d) 0 sz" for i d
    using sz(2) by (simp add: log_wf_def log_at_def word_less_nat_alt)
  then show ?thesis using initlog_ok[OF len st _ sz(2), of 0] sz n by fastforce
qed

lemma recover_logged:
  assumes len: "\<forall>n < sz. length (D n) = BSIZE" and st: "sb_size (sb_of (D 1)) - sb_nlog (sb_of (D 1)) = lstart l"
    and wf: "log_wf l N sz" "lh_n l = int N" "1 < lstart l" and d: "D (lstart l) = head_block l d" "length d = BSIZE"
    and blocks: "\<And>i. i < N \<Longrightarrow> D (log_block l i) = v (log_sector l i)"
  shows "\<exists>s'. initlog (reboot D sz) = Ok s' \<and>
    (\<forall>x < lstart l. sdisk (cache_abs (bc s')) x = upds D (home_writes l N v) x)"
proof -
  let ?l = "log_of_head (log_at (lstart l) (sint (sb_nlog (sb_of (D 1))))) N (D (lstart l))"
  have N: "N \<le> LOGSIZE" "N \<le> length (lh_sector l)" using wf(1) by (simp_all add: log_wf_def)
  note h = head_roundtrip[OF wf(2) N d(2)]
  have secs: "lh_sector ?l = take N (lh_sector l) @ drop N (replicate LOGSIZE 0)"
    using h(2) by (simp add: log_of_head_def d(1) log_at_def log_zero_def)
  have sec: "log_sector ?l i = log_sector l i" if "i < N" for i
    using that N by (simp add: log_sector_def secs nth_append)
  have blk: "log_block ?l i = log_block l i" for i by (simp add: log_block_def)
  have lt: "lstart l < sz" using wf(1) by (simp add: log_wf_def word_less_nat_alt)
  have "log_wf ?l N sz" using wf(1) sec N by (simp add: log_wf_def secs)
  moreover have "1 < sz" using wf(3) lt by (rule less_trans)
  moreover have "map (\<lambda>i. (log_sector ?l i, D (log_block ?l i))) [0..<N] = home_writes l N v"
    using sec blocks by (simp add: home_writes_def blk)
  ultimately show ?thesis
    using initlog_ok[OF len st _ lt, of N] h(1) N(1) d(1) by (metis order_less_irrefl)
qed

lemma crash_recovers:
  assumes r: "commit_ready s N sz" and d: "disk_ready s N"
  shows "\<exists>s'. initlog (reboot (crash_disk s N k) sz) = Ok s' \<and>
     ((\<forall>x < lstart (lg s). memdisk (bdisk (bc s')) x = memdisk (bdisk (bc s)) x) \<or>
      (\<forall>x < lstart (lg s). memdisk (bdisk (bc s')) x = bview (bc s) x))"
proof -
  let ?l = "lg s" and ?a = "cache_abs (bc s)" and ?D = "crash_disk s N k"
  have wf: "log_wf ?l N sz" "lh_n ?l = int N" and i: "cache_inv (bc s)" "ssize ?a = sz"
    using r by (simp_all add: commit_ready_def cache_idle_def)
  have lt: "lstart ?l < sz" using wf by (simp add: log_wf_def word_less_nat_alt)
  have one: "1 < lstart ?l" "1 \<notin> log_sector ?l ` {..<N}" and h0: "sint (get32 (sdisk ?a (lstart ?l)) 0) = 0"
    and sb: "sb_size (sb_of (sdisk ?a 1)) - sb_nlog (sb_of (sdisk ?a 1)) = lstart ?l"
    using d by (simp_all add: disk_ready_def Let_def)
  have len: "\<forall>n < sz. length (?D n) = BSIZE" using crash_disk_length[OF r] by simp
  have sb1: "?D 1 = sdisk ?a 1"
  proof -
    consider "k \<le> N" | "N < k" "k < 2 * N + 2" | "2 * N + 2 \<le> k" by linarith
    then show ?thesis
      using crash_before[OF wf(1)] crash_between(3)[OF r] crash_after(2)[OF r] one clean_view[OF r one(2)]
      by cases auto
  qed
  have vst: "length (sview ?a (lstart ?l)) = BSIZE" using bc.len[OF i(1)] i(2) lt by simp
  consider "k \<le> N" | "N < k" "k < 2 * N + 2" | "2 * N + 2 \<le> k" by linarith
  then have "\<exists>s'. initlog (reboot ?D sz) = Ok s' \<and>
     ((\<forall>x < lstart ?l. sdisk (cache_abs (bc s')) x = sdisk ?a x) \<or> (\<forall>x < lstart ?l. sdisk (cache_abs (bc s')) x = sview ?a x))"
  proof cases
    case 1
    then show ?thesis
      using recover_empty[OF len, unfolded sb1, OF sb one(1) lt] crash_before[OF wf(1) 1] h0 by fastforce
  next
    case 2
    note b = crash_between[OF r 2]
    have "upds ?D (home_writes ?l N (sview ?a)) x = sview ?a x" if "x < lstart ?l" for x
      using home_writes_in[OF wf(1)] home_writes_notin b(3)[OF that] by (cases "x \<in> log_sector ?l ` {..<N}") auto
    then show ?thesis
      using recover_logged[OF len, unfolded sb1, OF sb wf one(1), of "sview ?a (lstart ?l)" "sview ?a"] b(1,2) vst
      by (auto simp: commit_head_def)
  next
    case 3
    note a = crash_after[OF r 3]
    have "sint (get32 (?D (lstart ?l)) 0) = 0" using a(1) vst by (simp add: head_block_def commit_head_def)
    then show ?thesis
      using recover_empty[OF len, unfolded sb1, OF sb one(1) lt] a(2) by fastforce
  qed
  then show "\<exists>s'. initlog (reboot ?D sz) = Ok s' \<and>
     ((\<forall>x < lstart ?l. memdisk (bdisk (bc s')) x = memdisk (bdisk (bc s)) x) \<or>
      (\<forall>x < lstart ?l. memdisk (bdisk (bc s')) x = bview (bc s) x))"
    by (simp add: cache_abs_def)
qed

text \<open>C1: crash safety of the log. Let a transaction of \<open>N\<close> blocks be ready to commit, over a disk whose
  log is empty. \<open>commit\<close> returns, and its device writes are exactly \<open>commit_writes\<close>. Cut these
  writes after any number \<open>k\<close> of sectors, reboot with an empty cache and run \<open>initlog\<close>: it
  returns, and below the log either every block has the content it had before the transaction or
  every block has the content the transaction gave it.\<close>

theorem commit_crash_safe:
  assumes "commit_ready s N sz" and "disk_ready s N"
  shows "(\<exists>c. commit s = Ok (s\<lparr>lg := (lg s)\<lparr>lh_n := 0\<rparr>, bc := c\<rparr>) \<and>
       dtrace (bdisk c) = dtrace (bdisk (bc s)) @ commit_writes (lg s) N (bview (bc s))) \<and>
     (\<exists>s'. initlog (reboot (crash_disk s N k) sz) = Ok s' \<and>
       ((\<forall>x < lstart (lg s). memdisk (bdisk (bc s')) x = memdisk (bdisk (bc s)) x) \<or>
        (\<forall>x < lstart (lg s). memdisk (bdisk (bc s')) x = bview (bc s) x)))"
  using commit_ok[OF assms(1)] crash_recovers[OF assms] by (auto simp: Let_def cache_abs_def)

text \<open>A one-block transaction on a disk of 1000 sectors whose superblock puts the log at sector 970.\<close>

definition sb_block :: block where
  "sb_block = put32 (put32 (replicate BSIZE 0) 0 1000) 12 30"

definition log_disk :: "uint \<Rightarrow> block" where
  "log_disk = (\<lambda>_. replicate BSIZE 0)(1 := sb_block)"

definition log_one :: log where
  "log_one = (log_at 970 30)\<lparr>lh_n := 1, lh_sector := 100 # replicate 29 0\<rparr>"

lemma get32_replicate_0: "k + 3 < n \<Longrightarrow> get32 (replicate n 0) k = 0"
  by (simp add: get32_def word_of_bytes_def)

theorem commit_crash_safe_witness:
  "\<exists>s. commit_ready s 1 1000 \<and> bview (bc s) 100 \<noteq> memdisk (bdisk (bc s)) 100 \<and>
     (\<exists>s'. initlog (reboot (crash_disk s 1 2) 1000) = Ok s')"
proof -
  let ?c = "bc (reboot log_disk 1000)" and ?d = "replicate BSIZE (7::uchar)"
  have len: "\<forall>n < 1000. length (log_disk n) = BSIZE" by (simp add: log_disk_def sb_block_def)
  note b = reboot_idle[OF len]
  obtain c where c: "cache_inv c" "cache_abs c = (cache_abs ?c)\<lparr>sview := log_disk(100 := ?d), spinned := {100}\<rparr>"
    using bc.read_pin_release[of ?c 100 "\<lambda>_. ?d"] b by (auto simp: cache_idle_def)
  let ?s = "\<lparr>lg = log_one, bc = c, lwakes = []\<rparr>"
  have wf: "log_wf log_one 1 1000" by (simp add: log_wf_def log_one_def log_sector_def)
  have sec: "log_sector log_one ` {..<1} = {100}" by (simp add: log_one_def log_sector_def lessThan_Suc)
  have r: "commit_ready ?s 1 1000"
    using c b(2) wf sec by (simp add: commit_ready_def cache_idle_def) (simp add: log_one_def)
  have "sb_size (sb_of (log_disk 1)) - sb_nlog (sb_of (log_disk 1)) = 970"
    by (simp add: log_disk_def sb_block_def sb_of_def layout)
  moreover have "sint (get32 (log_disk 970) 0) = 0" by (simp add: log_disk_def get32_replicate_0)
  moreover have "lstart log_one = 970" by (simp add: log_one_def)
  ultimately have "disk_ready ?s 1"
    using c(2) b(2) sec by (simp add: disk_ready_def)
  then have "\<exists>s'. initlog (reboot (crash_disk ?s 1 2) 1000) = Ok s'"
    using commit_crash_safe[OF r, of 2] by blast
  moreover have "sview (cache_abs c) 100 \<noteq> sdisk (cache_abs c) 100"
    using c(2) b(2) by simp (simp add: log_disk_def)
  then have "bview c 100 \<noteq> memdisk (bdisk c) 100" by (simp add: cache_abs_def)
  ultimately show ?thesis using r by (intro exI[of _ ?s]) simp
qed

section \<open>Transactions\<close>

lemma commit_lg:
  assumes "commit s = Ok s'"
  shows "lg s' = (if lh_n (lg s) > 0 then (lg s)\<lparr>lh_n := 0\<rparr> else lg s)"
proof -
  have w: "write_log s = Ok t \<Longrightarrow> lg t = lg s" "write_head s = Ok t \<Longrightarrow> lg t = lg s"
    "install_trans s = Ok t \<Longrightarrow> lg t = lg s" for s t
    by (auto simp: write_log_def write_head_def install_trans_def split: if_splits)
  show ?thesis
    using assms by (auto simp: commit_def split: if_splits dest!: w)
qed

text \<open>
  The calls of the processes inside a transaction. The list gives, for each outstanding call, how
  many times it has called \<open>log_write\<close>; \<open>MAXOPBLOCKS\<close> is the most a call may make.
\<close>

inductive log_step :: "logsys \<times> nat list \<Rightarrow> logsys \<times> nat list \<Rightarrow> bool" where
  enter: "begin_op s = Ok s' \<Longrightarrow> log_step (s, us) (s', us @ [0])"
| logged: "i < length us \<Longrightarrow> us ! i < MAXOPBLOCKS \<Longrightarrow> log_write b s = Ok s' \<Longrightarrow>
             log_step (s, us) (s', us[i := Suc (us ! i)])"
| cached_io: "lg s' = lg s \<Longrightarrow> log_step (s, us) (s', us)"
| leave: "i < length us \<Longrightarrow> end_op s = Ok s' \<Longrightarrow> log_step (s, us) (s', take i us @ drop (Suc i) us)"

inductive log_reachable :: "logsys \<Rightarrow> nat list \<Rightarrow> bool" where
  boot: "\<lbrakk>outstanding (lg s) = 0; \<not> committing (lg s); lh_n (lg s) = 0; length (lh_sector (lg s)) = LOGSIZE\<rbrakk>
      \<Longrightarrow> log_reachable s []"
| step: "log_reachable s us \<Longrightarrow> log_step (s, us) (s', us') \<Longrightarrow> log_reachable s' us'"

definition reserved :: "nat list \<Rightarrow> nat" where
  "reserved us = (\<Sum>u\<leftarrow>us. MAXOPBLOCKS - u)"

definition log_inv :: "logsys \<Rightarrow> nat list \<Rightarrow> bool" where
  "log_inv s us \<longleftrightarrow> outstanding (lg s) = int (length us) \<and> \<not> committing (lg s) \<and> 0 \<le> lh_n (lg s) \<and>
     lh_n (lg s) + int (reserved us) \<le> int LOGSIZE \<and> length (lh_sector (lg s)) = LOGSIZE \<and>
     distinct (take (nat (lh_n (lg s))) (lh_sector (lg s)))"

lemma absorb_cases:
  "absorb secs x n is = n \<and> (\<forall>i\<in>set is. secs ! i \<noteq> x) \<or> absorb secs x n is \<in> set is \<and> secs ! absorb secs x n is = x"
  by (induction "is") auto

lemma reserved_upd: "i < length us \<Longrightarrow> us ! i < MAXOPBLOCKS \<Longrightarrow> Suc (reserved (us[i := Suc (us ! i)])) = reserved us"
proof (induction us arbitrary: i)
  case (Cons u us)
  then show ?case by (cases i) (auto simp: reserved_def)
qed simp

lemma reserved_del: "reserved (take i us @ drop (Suc i) us) \<le> reserved us"
proof -
  have "reserved us = reserved (take i us) + reserved (drop i us)"
    unfolding reserved_def by (metis append_take_drop_id map_append sum_list_append)
  moreover have "reserved (drop (Suc i) us) \<le> reserved (drop i us)"
    by (cases "i < length us") (auto simp: reserved_def Cons_nth_drop_Suc[symmetric])
  ultimately show ?thesis by (simp add: reserved_def)
qed

lemma reserved_le: "reserved us \<le> MAXOPBLOCKS * length us"
  unfolding reserved_def by (induction us) auto

lemma log_write_inv:
  assumes inv: "log_inv s us" and i: "i < length us" "us ! i < MAXOPBLOCKS" and w: "log_write b s = Ok s'"
  shows "log_inv s' (us[i := Suc (us ! i)])"
proof -
  let ?l = "lg s" and ?x = "bsector (bufs (bc s) b)"
  obtain n where n0: "lh_n ?l = int n" using inv by (auto simp: log_inv_def elim: nonneg_int_cases)
  let ?k = "absorb (lh_sector ?l) ?x n [0..<n]"
  have n: "lh_n ?l = int n" "n < LOGSIZE" and len: "length (lh_sector ?l) = LOGSIZE" and dist: "distinct (take n (lh_sector ?l))"
    using inv w n0 by (auto simp: log_inv_def log_write_def Let_def split: if_splits)
  have r: "int n + int (reserved us) \<le> int LOGSIZE" using inv n by (simp add: log_inv_def)
  have l': "lg s' = (if ?k = n then ?l\<lparr>lh_sector := (lh_sector ?l)[n := ?x], lh_n := int n + 1\<rparr>
      else ?l\<lparr>lh_sector := (lh_sector ?l)[?k := ?x]\<rparr>)"
    using w n by (auto simp: log_write_def Let_def split: if_splits)
  consider "?k = n" "\<forall>j<n. lh_sector ?l ! j \<noteq> ?x" | "?k < n" "lh_sector ?l ! ?k = ?x"
    using absorb_cases[of "lh_sector ?l" ?x n "[0..<n]"] by auto
  then show ?thesis
  proof cases
    case 1
    then have "?x \<notin> set (take n (lh_sector ?l))" using n len by (auto simp: in_set_conv_nth)
    moreover have "take (Suc n) ((lh_sector ?l)[n := ?x]) = take n (lh_sector ?l) @ [?x]"
      using n len by (simp add: take_Suc_conv_app_nth)
    ultimately show ?thesis
      using inv l' 1(1) n r reserved_upd[OF i] dist by (auto simp: log_inv_def nat_add_distrib)
  next
    case 2
    then have "(lh_sector ?l)[?k := ?x] = lh_sector ?l" by (metis list_update_id)
    then show ?thesis
      using inv l' 2(1) n r reserved_upd[OF i] by (auto simp: log_inv_def)
  qed
qed

lemma end_op_inv:
  assumes "log_inv s us" "i < length us" "end_op s = Ok s'"
  shows "log_inv s' (take i us @ drop (Suc i) us)"
proof -
  have len: "length (take i us @ drop (Suc i) us) = length us - 1" using assms(2) by simp
  obtain dc t where e: "end_op_begin s = Ok (dc, t)"
    and s': "if dc then \<exists>u. commit t = Ok u \<and> lg s' = (lg u)\<lparr>committing := False\<rparr> else s' = t"
    using assms(3) by (auto simp: end_op_def split: if_splits)
  have lh: "0 \<le> lh_n (lg s)" "length (lh_sector (lg s)) = LOGSIZE" "\<not> committing (lg s)" "outstanding (lg s) = int (length us)"
    using assms(1) by (auto simp: log_inv_def)
  show ?thesis
  proof (cases dc)
    case True
    then have t: "lg t = (lg s)\<lparr>outstanding := 0, committing := True\<rparr>" "length us = 1"
      using e lh(4) by (auto simp: end_op_begin_def Let_def split: if_splits)
    obtain u where "commit t = Ok u" "lg s' = (lg u)\<lparr>committing := False\<rparr>" using s' True by auto
    then have "lg s' = (lg s)\<lparr>outstanding := 0, committing := False, lh_n := 0\<rparr>"
      using commit_lg[of t u] t(1) lh(1) by (auto split: if_splits)
    moreover have nil: "take i us @ drop (Suc i) us = []" using t(2) assms(2) by simp
    ultimately show ?thesis unfolding nil using lh by (simp add: log_inv_def reserved_def)
  next
    case False
    then have "lg s' = (lg s)\<lparr>outstanding := outstanding (lg s) - 1\<rparr>"
      using e s' by (auto simp: end_op_begin_def Let_def split: if_splits)
    then show ?thesis using assms(1,2) reserved_del[of i us] len by (auto simp: log_inv_def)
  qed
qed

lemma log_reachable_inv: "log_reachable s us \<Longrightarrow> log_inv s us"
proof (induction rule: log_reachable.induct)
  case (boot s)
  then show ?case by (simp add: log_inv_def reserved_def)
next
  case (step s us s' us')
  from step.hyps(2) show ?case
  proof (cases rule: log_step.cases)
    case (enter)
    moreover have "reserved (us @ [0]) = reserved us + MAXOPBLOCKS" by (simp add: reserved_def)
    ultimately show ?thesis
      using step.IH reserved_le[of us] by (auto simp: begin_op_def log_inv_def split: if_splits)
  next
    case (logged i b)
    then show ?thesis using log_write_inv[OF step.IH] by simp
  next
    case (cached_io)
    then show ?thesis using step.IH by (simp add: log_inv_def)
  next
    case (leave i)
    then show ?thesis using end_op_inv[OF step.IH] by simp
  qed
qed

text \<open>C11: \<open>begin_op\<close> reserves log space: in every state reachable by file system calls that keep to
  \<open>MAXOPBLOCKS\<close> calls of \<open>log_write\<close>, a call with budget left finds a free slot in the in-memory
  header, whose sectors are distinct; so its \<open>log_write\<close> succeeds, provided the on-disk log has
  more than \<open>LOGSIZE\<close> sectors.\<close>

theorem begin_op_reserves:
  assumes "log_reachable s us" and "i < length us" and "us ! i < MAXOPBLOCKS"
  shows "0 \<le> lh_n (lg s) \<and> lh_n (lg s) < int LOGSIZE \<and> distinct (take (nat (lh_n (lg s))) (lh_sector (lg s))) \<and>
     (int LOGSIZE < lsize (lg s) \<longrightarrow> (\<exists>s'. log_write b s = Ok s'))"
proof -
  have inv: "log_inv s us" using log_reachable_inv[OF assms(1)] .
  have "0 < reserved us" using reserved_upd[OF assms(2,3)] by linarith
  moreover have "1 \<le> outstanding (lg s)" using inv assms(2) by (simp add: log_inv_def)
  ultimately show ?thesis using inv by (auto simp: log_inv_def log_write_def Let_def)
qed

definition log_two :: logsys where
  "log_two = \<lparr>lg = log_at 970 31, bc = binit (bcache_boot disk_zero), lwakes = []\<rparr>"

lemma log_two_reachable:
  "log_reachable (log_two\<lparr>lg := (lg log_two)\<lparr>outstanding := 2\<rparr>\<rparr>) [0, 0]"
proof -
  have "log_reachable log_two []" by (rule log_reachable.boot) (simp_all add: log_two_def log_at_def log_zero_def)
  moreover have "log_step (log_two, []) (log_two\<lparr>lg := (lg log_two)\<lparr>outstanding := 1\<rparr>\<rparr>, [] @ [0])"
    by (rule log_step.enter) (simp add: begin_op_def log_two_def log_at_def log_zero_def)
  moreover have "log_step (log_two\<lparr>lg := (lg log_two)\<lparr>outstanding := 1\<rparr>\<rparr>, [0])
      (log_two\<lparr>lg := (lg log_two)\<lparr>outstanding := 2\<rparr>\<rparr>, [0] @ [0])"
    by (rule log_step.enter) (simp add: begin_op_def log_two_def log_at_def log_zero_def)
  ultimately show ?thesis by (metis append_Cons append_Nil log_reachable.step)
qed

theorem begin_op_reserves_witness:
  "\<exists>s'. log_write 3 (log_two\<lparr>lg := (lg log_two)\<lparr>outstanding := 2\<rparr>\<rparr>) = Ok s'"
  using begin_op_reserves[OF log_two_reachable, of 1 3] by (simp add: log_two_def log_at_def)



end
