(* ===== verification/Xv6_Ring.thy ===== *)
theory Xv6_Ring
  imports Xv6_Prelude
begin

text \<open>
  Ring buffers with free-running counters, as \<^verbatim>\<open>pipe.c\<close> (512 bytes) and the console input of
  \<^verbatim>\<open>console.c\<close> (128 bytes) use them: a slot is the counter modulo the size, and the counters are
  32-bit and wrap. The locale needs only that the size divides \<open>2^32\<close>; its lemmas say that storing
  at the write counter appends and reading at the read counter takes the oldest byte.
\<close>

definition slot :: "nat \<Rightarrow> uint \<Rightarrow> nat" where
  "slot N c = unat c mod N"

definition ring_bytes :: "nat \<Rightarrow> uchar list \<Rightarrow> uint \<Rightarrow> uint \<Rightarrow> uchar list" where
  "ring_bytes N d r w = map (\<lambda>k. d ! slot N (r + of_nat k)) [0..<unat (w - r)]"

lemma length_ring_bytes [simp]: "length (ring_bytes N d r w) = unat (w - r)"
  by (simp add: ring_bytes_def)

lemma ring_bytes_empty [simp]: "ring_bytes N d r r = []"
  by (simp add: ring_bytes_def)

lemma unat_diff_succ:
  fixes r w :: uint
  assumes "unat (w - r) + 1 < 2 ^ 32" shows "unat (w + 1 - r) = unat (w - r) + 1"
proof -
  have "w + 1 - r = (w - r) + 1" by simp
  then have "unat (w + 1 - r) = (unat (w - r) + 1) mod 2 ^ 32" by (simp only: unat_word_ariths) simp
  then show ?thesis using assms by simp
qed

lemma unat_diff_pred:
  fixes r w :: uint
  assumes "r \<noteq> w" shows "unat (w - r) = Suc (unat (w - r - 1))"
proof -
  have "w - r \<noteq> 0" using assms by simp
  then have "unat (w - r) \<noteq> 0" "unat (w - r - 1) = unat (w - r) - 1"
    by (simp_all add: unsigned_eq_0_iff unat_minus_one del: diff_eq_diff_eq right_minus_eq)
  then show ?thesis by simp
qed

locale ring_buffer =
  fixes N :: nat
  assumes pos: "0 < N" and size_dvd: "N dvd 2 ^ 32" and size_less: "N < 2 ^ 32"
begin

lemma slot_less: "slot N c < N"
  using pos by (simp add: slot_def)

lemma slot_add: "slot N (c + of_nat k) = (slot N c + k) mod N"
proof -
  have "unat (c + of_nat k) mod N = (unat c + k) mod 2 ^ 32 mod N"
    by (simp add: unat_word_ariths unat_of_nat mod_add_right_eq)
  also have "\<dots> = (unat c + k) mod N" using size_dvd by (simp add: mod_mod_cancel)
  finally show ?thesis by (simp add: slot_def mod_add_left_eq)
qed

text \<open>Two of \<open>N\<close> consecutive counters never share a slot, also across the wrap-around.\<close>

lemma slot_inj:
  assumes "j < k" "k < j + N" shows "slot N (r + of_nat j) \<noteq> slot N (r + of_nat k)"
proof
  assume "slot N (r + of_nat j) = slot N (r + of_nat k)"
  then have "(slot N r + j) mod N = (slot N r + k) mod N" by (simp add: slot_add)
  then have "N dvd (slot N r + k) - (slot N r + j)" using assms by (metis mod_eq_dvd_iff_nat nat_add_left_cancel_le nat_less_le)
  then have "N dvd k - j" by simp
  moreover have "0 < k - j" "k - j < N" using assms by auto
  ultimately show False using nat_dvd_not_less by blast
qed

lemma ring_put:
  assumes "length d = N" and room: "unat (w - r) < N"
  shows "ring_bytes N (d[slot N w := c]) r (w + 1) = ring_bytes N d r w @ [c]"
proof -
  let ?n = "unat (w - r)"
  have w: "r + of_nat ?n = w" by simp
  have "?n + 1 < 2 ^ 32" using room size_less by linarith
  then have "unat (w + 1 - r) = ?n + 1"
    by (rule unat_diff_succ)
  moreover have "d[slot N w := c] ! slot N (r + of_nat j) = d ! slot N (r + of_nat j)" if "j < ?n" for j
    using slot_inj[of j ?n r] that room w by simp
  ultimately show ?thesis
    using assms(1) slot_less w by (simp add: ring_bytes_def)
qed

lemma ring_get:
  assumes "r \<noteq> w"
  shows "ring_bytes N d r w = d ! slot N r # ring_bytes N d (r + 1) w"
proof -
  have n: "unat (w - r) = Suc (unat (w - (r + 1)))"
    using unat_diff_pred[OF assms] by (simp add: diff_diff_add)
  then show ?thesis
    unfolding ring_bytes_def n upt_conv_Cons[OF zero_less_Suc] map_Suc_upt[symmetric]
    by (simp add: comp_def ac_simps)
qed

lemma ring_unput:
  assumes "r \<noteq> w"
  shows "ring_bytes N d r (w - 1) = butlast (ring_bytes N d r w)"
    and "last (ring_bytes N d r w) = d ! slot N (w - 1)"
proof -
  have n: "unat (w - r) = Suc (unat (w - 1 - r))"
    using unat_diff_pred[OF assms] by (simp add: diff_diff_add add.commute)
  then show "ring_bytes N d r (w - 1) = butlast (ring_bytes N d r w)"
    by (simp add: ring_bytes_def)
  have "r + of_nat (unat (w - 1 - r)) = w - 1" by simp
  with n show "last (ring_bytes N d r w) = d ! slot N (w - 1)" by (simp add: ring_bytes_def)
qed

lemma ring_full: "(w::uint) = r + of_nat N \<longleftrightarrow> unat (w - r) = N"
proof -
  have N: "unat (of_nat N :: uint) = N" using size_less by (simp add: unat_of_nat)
  have "w = r + of_nat N \<longleftrightarrow> w - r = of_nat N" by (auto simp: diff_eq_eq add.commute)
  also have "\<dots> \<longleftrightarrow> unat (w - r) = unat (of_nat N :: uint)" by (rule word_eq_iff_unsigned)
  finally show ?thesis unfolding N .
qed

end

end
