(* ===== verification/Xv6_Pipe.thy ===== *)
theory Xv6_Pipe
  imports Xv6_Ring Xv6_Spinlock
begin

text \<open>
  \<^verbatim>\<open>pipe.c\<close>: a 512-byte ring buffer between two file descriptors. \<open>pipewrite\<close> and \<open>piperead\<close> may
  sleep in the middle; an outcome \<open>PSleep\<close> carries the bytes still to write, and calling the
  routine again with them is the process waking up in its \<open>while\<close> loop. \<open>pid\<close> names the pipe in
  the channels and \<open>killed\<close> is \<open>proc->killed\<close>.
\<close>

abbreviation (input) PIPESIZE :: nat where "PIPESIZE \<equiv> 512"

record pipe =
  plock :: spinlock
  pdata :: "uchar list"
  nread :: uint
  nwrite :: uint
  readopen :: bool
  writeopen :: bool
  pwakes :: "chan list"

text \<open>The fields \<open>pipealloc\<close> sets in the page it allocates; \<open>d\<close> is what the page held.\<close>

definition pipe_init :: "uchar list \<Rightarrow> pipe" where
  "pipe_init d = \<lparr>plock = initlock \<lparr>locked = 0, lname = [], lcpu = None, pcs = []\<rparr> ''pipe'', pdata = d,
     nread = 0, nwrite = 0, readopen = True, writeopen = True, pwakes = []\<rparr>"

definition pwakeup :: "chan \<Rightarrow> pipe \<Rightarrow> pipe" where
  "pwakeup ch p = p\<lparr>pwakes := pwakes p @ [ch]\<rparr>"

text \<open>The second component says that both ends are closed and the page is given back to \<open>kfree\<close>.\<close>

definition pipeclose :: "nat \<Rightarrow> bool \<Rightarrow> pipe \<Rightarrow> pipe \<times> bool" where
  "pipeclose pid writable p =
     (let p = (if writable then pwakeup (ChPipeRead pid) (p\<lparr>writeopen := False\<rparr>)
               else pwakeup (ChPipeWrite pid) (p\<lparr>readopen := False\<rparr>))
      in (p, \<not> readopen p \<and> \<not> writeopen p))"

datatype pipe_out = PReturn int | PSleep chan "uchar list"

fun pipewrite_loop :: "nat \<Rightarrow> bool \<Rightarrow> uchar list \<Rightarrow> pipe \<Rightarrow> pipe \<times> pipe_out option" where
  "pipewrite_loop pid killed [] p = (p, None)"
| "pipewrite_loop pid killed (c # cs) p =
     (if nwrite p = nread p + of_nat PIPESIZE
      then if \<not> readopen p \<or> killed then (p, Some (PReturn (- 1)))
           else (pwakeup (ChPipeRead pid) p, Some (PSleep (ChPipeWrite pid) (c # cs)))
      else pipewrite_loop pid killed cs
             (p\<lparr>pdata := (pdata p)[slot PIPESIZE (nwrite p) := c], nwrite := nwrite p + 1\<rparr>))"

text \<open>\<open>n\<close> is the caller's count; \<open>cs\<close> the bytes not yet written.\<close>

definition pipewrite :: "nat \<Rightarrow> bool \<Rightarrow> int \<Rightarrow> uchar list \<Rightarrow> pipe \<Rightarrow> pipe \<times> pipe_out" where
  "pipewrite pid killed n cs p =
     (case pipewrite_loop pid killed cs p of
        (p, Some out) \<Rightarrow> (p, out)
      | (p, None) \<Rightarrow> (pwakeup (ChPipeRead pid) p, PReturn n))"

fun piperead_loop :: "nat \<Rightarrow> pipe \<Rightarrow> uchar list \<times> pipe" where
  "piperead_loop 0 p = ([], p)"
| "piperead_loop (Suc n) p =
     (if nread p = nwrite p then ([], p)
      else let c = pdata p ! slot PIPESIZE (nread p);
               (cs, p) = piperead_loop n (p\<lparr>nread := nread p + 1\<rparr>)
        in (c # cs, p))"

definition piperead :: "nat \<Rightarrow> bool \<Rightarrow> int \<Rightarrow> pipe \<Rightarrow> pipe \<times> uchar list \<times> pipe_out" where
  "piperead pid killed n p =
     (if nread p = nwrite p \<and> writeopen p
      then if killed then (p, [], PReturn (- 1)) else (p, [], PSleep (ChPipeRead pid) [])
      else let (cs, p) = piperead_loop (nat n) p
        in (pwakeup (ChPipeWrite pid) p, cs, PReturn (int (length cs))))"

section \<open>The pipe as a queue\<close>

interpretation pring: ring_buffer PIPESIZE
  by unfold_locales simp_all

definition pipe_bytes :: "pipe \<Rightarrow> uchar list" where
  "pipe_bytes p = ring_bytes PIPESIZE (pdata p) (nread p) (nwrite p)"

definition pipe_ok :: "pipe \<Rightarrow> bool" where
  "pipe_ok p \<longleftrightarrow> length (pdata p) = PIPESIZE \<and> unat (nwrite p - nread p) \<le> PIPESIZE"

lemma pipe_full_iff: "nwrite p = nread p + of_nat PIPESIZE \<longleftrightarrow> length (pipe_bytes p) = PIPESIZE"
  unfolding pring.ring_full by (simp add: pipe_bytes_def)

lemma pipe_put:
  fixes c :: uchar
  assumes "pipe_ok p" "nwrite p \<noteq> nread p + of_nat PIPESIZE"
  defines "q \<equiv> p\<lparr>pdata := (pdata p)[slot PIPESIZE (nwrite p) := c], nwrite := nwrite p + 1\<rparr>"
  shows "pipe_ok q" "pipe_bytes q = pipe_bytes p @ [c]"
proof -
  have "unat (nwrite p - nread p) \<noteq> PIPESIZE" using assms(2) unfolding pring.ring_full .
  then have room: "unat (nwrite p - nread p) < PIPESIZE" using assms(1) by (simp add: pipe_ok_def)
  then show b: "pipe_bytes q = pipe_bytes p @ [c]"
    using assms(1) pring.ring_put by (simp add: pipe_bytes_def q_def pipe_ok_def)
  have "unat (nwrite q - nread q) = length (pipe_bytes q)" by (simp add: pipe_bytes_def)
  also have "\<dots> = Suc (unat (nwrite p - nread p))" unfolding b by (simp add: pipe_bytes_def)
  finally show "pipe_ok q" using assms(1) room by (simp add: pipe_ok_def q_def)
qed

lemma pipe_get:
  assumes "pipe_ok p" "nread p \<noteq> nwrite p"
  shows "pipe_ok (p\<lparr>nread := nread p + 1\<rparr>)"
    "pipe_bytes p = pdata p ! slot PIPESIZE (nread p) # pipe_bytes (p\<lparr>nread := nread p + 1\<rparr>)"
proof -
  show b: "pipe_bytes p = pdata p ! slot PIPESIZE (nread p) # pipe_bytes (p\<lparr>nread := nread p + 1\<rparr>)"
    using pring.ring_get[OF assms(2)] by (simp add: pipe_bytes_def)
  have "length (pipe_bytes p) = Suc (length (pipe_bytes (p\<lparr>nread := nread p + 1\<rparr>)))" unfolding b by simp
  then show "pipe_ok (p\<lparr>nread := nread p + 1\<rparr>)" using assms(1) by (simp add: pipe_ok_def pipe_bytes_def)
qed

lemma pipe_empty_iff: "nread p = nwrite p \<longleftrightarrow> pipe_bytes p = []"
proof
  assume "pipe_bytes p = []"
  then have "unat (nwrite p - nread p) = 0" by (metis length_0_conv length_ring_bytes pipe_bytes_def)
  then show "nread p = nwrite p" by (simp add: unsigned_eq_0_iff)
qed (simp add: pipe_bytes_def)

lemma pwakeup_fields [simp]:
  "pdata (pwakeup ch p) = pdata p" "nread (pwakeup ch p) = nread p" "nwrite (pwakeup ch p) = nwrite p"
  "readopen (pwakeup ch p) = readopen p" "writeopen (pwakeup ch p) = writeopen p"
  "pwakes (pwakeup ch p) = pwakes p @ [ch]"
  by (simp_all add: pwakeup_def)

lemma pwakeup_bytes [simp]: "pipe_bytes (pwakeup ch p) = pipe_bytes p" "pipe_ok (pwakeup ch p) = pipe_ok p"
  by (simp_all add: pipe_bytes_def pwakeup_def pipe_ok_def)

lemma pipewrite_loop_spec:
  assumes "pipe_ok p" "pipewrite_loop pid killed cs p = (p', out)"
  shows "\<exists>ws rs. cs = ws @ rs \<and> pipe_ok p' \<and> pipe_bytes p' = pipe_bytes p @ ws \<and> nwrite p' = nwrite p + of_nat (length ws) \<and>
     nread p' = nread p \<and> readopen p' = readopen p \<and> writeopen p' = writeopen p \<and>
     (case out of None \<Rightarrow> rs = []
      | Some (PReturn m) \<Rightarrow> m = - 1 \<and> rs \<noteq> [] \<and> (\<not> readopen p \<or> killed)
      | Some (PSleep ch ys) \<Rightarrow> ch = ChPipeWrite pid \<and> ys = rs \<and> rs \<noteq> [] \<and> length (pipe_bytes p') = PIPESIZE \<and>
          pwakes p' = pwakes p @ [ChPipeRead pid])"
  using assms
proof (induction cs arbitrary: p)
  case (Cons c cs)
  show ?case
  proof (cases "nwrite p = nread p + of_nat PIPESIZE")
    case True
    then have "length (pipe_bytes p) = PIPESIZE" unfolding pipe_full_iff .
    moreover have "(p', out) = (if \<not> readopen p \<or> killed then (p, Some (PReturn (- 1)))
           else (pwakeup (ChPipeRead pid) p, Some (PSleep (ChPipeWrite pid) (c # cs))))"
      using Cons.prems(2) True by simp
    ultimately show ?thesis
      using Cons.prems(1) by (auto split: if_splits intro!: exI[of _ "[]"])
  next
    case False
    let ?q = "p\<lparr>pdata := (pdata p)[slot PIPESIZE (nwrite p) := c], nwrite := nwrite p + 1\<rparr>"
    have "pipewrite_loop pid killed cs ?q = (p', out)" using Cons.prems(2) False by simp
    from Cons.IH[OF pipe_put(1)[OF Cons.prems(1) False] this] obtain ws rs where
      "cs = ws @ rs" "pipe_ok p'" "pipe_bytes p' = pipe_bytes ?q @ ws" and
      rest: "nwrite p' = nwrite ?q + of_nat (length ws)" "nread p' = nread ?q" "readopen p' = readopen ?q"
        "writeopen p' = writeopen ?q" "case out of None \<Rightarrow> rs = []
      | Some (PReturn m) \<Rightarrow> m = - 1 \<and> rs \<noteq> [] \<and> (\<not> readopen ?q \<or> killed)
      | Some (PSleep ch ys) \<Rightarrow> ch = ChPipeWrite pid \<and> ys = rs \<and> rs \<noteq> [] \<and> length (pipe_bytes p') = PIPESIZE \<and>
          pwakes p' = pwakes ?q @ [ChPipeRead pid]"
      by blast
    then have b: "c # cs = (c # ws) @ rs" "pipe_bytes p' = pipe_bytes p @ c # ws" "pipe_ok p'"
      using pipe_put(2)[OF Cons.prems(1) False] by simp_all
    show ?thesis
      by (rule exI[of _ "c # ws"], rule exI[of _ rs], insert b rest) (auto split: option.splits pipe_out.splits)
  qed
qed auto

lemma piperead_loop_spec:
  assumes "pipe_ok p" "piperead_loop n p = (cs, p')"
  shows "cs = take n (pipe_bytes p) \<and> pipe_ok p' \<and> pipe_bytes p' = drop n (pipe_bytes p) \<and> writeopen p' = writeopen p \<and>
    pwakes p' = pwakes p"
  using assms
proof (induction n arbitrary: p cs)
  case (Suc n)
  show ?case
  proof (cases "nread p = nwrite p")
    case True
    then have "pipe_bytes p = []" by (simp add: pipe_empty_iff)
    then show ?thesis using Suc.prems True by simp
  next
    case False
    obtain ds where ds: "piperead_loop n (p\<lparr>nread := nread p + 1\<rparr>) = (ds, p')" "cs = pdata p ! slot PIPESIZE (nread p) # ds"
      using Suc.prems(2) False by (auto simp: Let_def split: prod.splits)
    note g = pipe_get[OF Suc.prems(1) False]
    have "ds = take n (pipe_bytes (p\<lparr>nread := nread p + 1\<rparr>)) \<and> pipe_ok p' \<and>
        pipe_bytes p' = drop n (pipe_bytes (p\<lparr>nread := nread p + 1\<rparr>)) \<and> writeopen p' = writeopen p \<and> pwakes p' = pwakes p"
      using Suc.IH[OF g(1) ds(1)] by simp
    then show ?thesis using ds(2) unfolding g(2) by simp
  qed
qed simp

text \<open>C37: \<open>piperead\<close> sleeps exactly when the pipe is empty and the write end is open (returning -1 when
  the process is killed); otherwise it returns the oldest \<open>n\<close> bytes, or all there are, removes
  them in order and wakes the writers. An empty pipe whose write end is closed gives 0.\<close>

theorem piperead_correct:
  assumes "pipe_ok p" and "piperead pid killed n p = (p', cs, out)"
  shows "if pipe_bytes p = [] \<and> writeopen p
    then p' = p \<and> cs = [] \<and> out = (if killed then PReturn (- 1) else PSleep (ChPipeRead pid) [])
    else cs = take (nat n) (pipe_bytes p) \<and> pipe_bytes p' = drop (nat n) (pipe_bytes p) \<and>
      out = PReturn (int (length cs)) \<and> pwakes p' = pwakes p @ [ChPipeWrite pid]"
proof -
  obtain ds q where l: "piperead_loop (nat n) p = (ds, q)" by fastforce
  show ?thesis
    using assms(2) l piperead_loop_spec[OF assms(1) l] unfolding piperead_def pipe_empty_iff
    by (auto split: if_splits)
qed

definition pipe_abc :: pipe where
  "pipe_abc = (pipe_init (97 # 98 # 99 # replicate 509 0))\<lparr>nwrite := 3\<rparr>"

theorem piperead_correct_witness:
  "\<exists>p'. piperead 5 False 2 pipe_abc = (p', [97, 98], PReturn 2) \<and> pipe_bytes p' = [99]"
proof -
  have b: "pipe_bytes pipe_abc = [97, 98, 99]"
    by (simp add: pipe_bytes_def ring_bytes_def pipe_abc_def pipe_init_def slot_def upt_rec)
  have ok: "pipe_ok pipe_abc" by (simp add: pipe_ok_def pipe_abc_def pipe_init_def)
  obtain p' cs out where r: "piperead 5 False 2 pipe_abc = (p', cs, out)" by (metis prod_cases3)
  from piperead_correct[OF ok r] r show ?thesis by (auto simp: b numeral_2_eq_2)
qed

section \<open>Histories of a pipe\<close>

text \<open>
  A pipe with every byte ever written to it and every byte ever read from it, in order. A write
  counts the bytes it put into the buffer, also when it then sleeps or fails.
\<close>

inductive pipe_run :: "nat \<Rightarrow> pipe \<Rightarrow> uchar list \<Rightarrow> uchar list \<Rightarrow> bool" for pid where
  create: "length d = PIPESIZE \<Longrightarrow> pipe_run pid (pipe_init d) [] []"
| put: "pipe_run pid p sent recv \<Longrightarrow> pipewrite pid killed n cs p = (p', out) \<Longrightarrow>
          pipe_run pid p' (sent @ take (unat (nwrite p' - nwrite p)) cs) recv"
| get: "pipe_run pid p sent recv \<Longrightarrow> piperead pid killed n p = (p', cs, out) \<Longrightarrow> pipe_run pid p' sent (recv @ cs)"
| shut: "pipe_run pid p sent recv \<Longrightarrow> pipeclose pid writable p = (p', fr) \<Longrightarrow> pipe_run pid p' sent recv"

lemma pipewrite_spec:
  assumes "pipe_ok p" "pipewrite pid killed n cs p = (p', out)"
  shows "pipe_ok p' \<and> pipe_bytes p' = pipe_bytes p @ take (unat (nwrite p' - nwrite p)) cs"
proof -
  obtain q o1 where l: "pipewrite_loop pid killed cs p = (q, o1)" by fastforce
  obtain ws rs where w: "cs = ws @ rs" "pipe_ok q" "pipe_bytes q = pipe_bytes p @ ws" "nwrite q = nwrite p + of_nat (length ws)"
    using pipewrite_loop_spec[OF assms(1) l] by blast
  have "p' = q \<or> p' = pwakeup (ChPipeRead pid) q"
    using assms(2) l by (auto simp: pipewrite_def split: option.splits)
  moreover have "length ws \<le> PIPESIZE"
    using w(2,3) by (metis length_append length_ring_bytes pipe_bytes_def pipe_ok_def le_trans le_add2)
  then have "unat (nwrite q - nwrite p) = length ws" using w(4) by (simp add: unat_of_nat)
  ultimately show ?thesis using w by auto
qed

lemma piperead_ok:
  assumes "pipe_ok p" "piperead pid killed n p = (p', cs, out)"
  shows "pipe_ok p' \<and> pipe_bytes p = cs @ pipe_bytes p'"
proof -
  obtain ds q where l: "piperead_loop (nat n) p = (ds, q)" by fastforce
  show ?thesis
    using assms(2) l piperead_loop_spec[OF assms(1) l] assms(1) unfolding piperead_def by (auto split: if_splits)
qed

lemma pipeclose_ok:
  "pipeclose pid writable p = (p', fr) \<Longrightarrow> pipe_ok p' = pipe_ok p \<and> pipe_bytes p' = pipe_bytes p"
  by (auto simp: pipeclose_def Let_def pipe_ok_def pipe_bytes_def pwakeup_def split: if_splits)

lemma pipe_run_inv: "pipe_run pid p sent recv \<Longrightarrow> pipe_ok p \<and> sent = recv @ pipe_bytes p"
proof (induction rule: pipe_run.induct)
  case (create d)
  then show ?case by (simp add: pipe_ok_def pipe_bytes_def pipe_init_def)
next
  case (put p sent recv killed n cs p' out)
  then show ?case using pipewrite_spec[of p pid killed n cs p' out] by auto
next
  case (get p sent recv killed n p' cs out)
  then show ?case using piperead_ok[of p pid killed n p' cs out] by auto
next
  case (shut p sent recv writable p' fr)
  then show ?case using pipeclose_ok[of pid writable p p' fr] by auto
qed

text \<open>C4: a pipe is a first-in first-out queue of at most 512 bytes: after any sequence of writes, reads and
  closes, with any number of processes and also when the 32-bit counters have wrapped around, the
  bytes written are the bytes read followed by the bytes in the buffer.\<close>

theorem pipe_fifo:
  assumes "pipe_run pid p sent recv"
  shows "sent = recv @ pipe_bytes p \<and> length (pipe_bytes p) \<le> PIPESIZE"
  using pipe_run_inv[OF assms] by (auto simp: pipe_ok_def pipe_bytes_def)

theorem pipe_fifo_witness:
  "\<exists>p sent recv. pipe_run 0 p sent recv \<and> recv = [104] \<and> sent = recv @ pipe_bytes p \<and> pipe_bytes p = [105]"
proof -
  let ?p0 = "pipe_init (replicate PIPESIZE 0)"
  define p1 where "p1 = fst (pipewrite 0 False 2 [104, 105] ?p0)"
  obtain out where w: "pipewrite 0 False 2 [104, 105] ?p0 = (p1, out)" unfolding p1_def by (metis prod.collapse)
  have run1: "pipe_run 0 p1 ([] @ take (unat (nwrite p1 - nwrite ?p0)) [104, 105]) []"
    by (rule pipe_run.put[OF pipe_run.create w]) simp
  have "nwrite p1 = 2" by (simp add: p1_def pipewrite_def pipe_init_def)
  then have s1: "[] @ take (unat (nwrite p1 - nwrite ?p0)) [104, 105] = ([104, 105] :: uchar list)" by (simp add: pipe_init_def)
  have b1: "pipe_ok p1" "pipe_bytes p1 = [104, 105]" using pipe_run_inv[OF run1, unfolded s1] by simp_all
  obtain ds q where l: "piperead_loop 1 p1 = (ds, q)" by fastforce
  then have "ds = [104]" using piperead_loop_spec[OF b1(1) l] b1(2) by simp
  moreover have "nread p1 \<noteq> nwrite p1" using b1(2) by (simp add: pipe_empty_iff)
  ultimately obtain p' out where r: "piperead 0 False 1 p1 = (p', [104], out)" using l by (simp add: piperead_def)
  have "pipe_run 0 p' [104, 105] [104]" using pipe_run.get[OF run1 r] unfolding s1 by simp
  from pipe_fifo[OF this] this show ?thesis by fastforce
qed

end
