(* ===== verification/Xv6_Grep.thy ===== *)
theory Xv6_Grep
  imports Xv6_Prelude
begin

text \<open>
  \<^verbatim>\<open>grep.c\<close>: the regular expression matcher of Kernighan and Pike and the line reader around it.
  A C string is the list of its characters without the terminating NUL. The matcher is compared
  with the language of the pattern; the line reader works on the 1024-byte buffer and takes what
  each \<open>read\<close> returns as input.
\<close>

section \<open>The matcher\<close>

abbreviation (input) ch_caret :: char where "ch_caret \<equiv> CHR ''^''"
abbreviation (input) ch_star :: char where "ch_star \<equiv> CHR ''*''"
abbreviation (input) ch_dot :: char where "ch_dot \<equiv> CHR ''.''"
abbreviation (input) ch_dollar :: char where "ch_dollar \<equiv> CHR ''$''"

function (sequential) matchhere :: "string \<Rightarrow> string \<Rightarrow> bool"
  and matchstar :: "char \<Rightarrow> string \<Rightarrow> string \<Rightarrow> bool" where
  "matchhere [] text = True"
| "matchhere (c # re) text =
     (if re \<noteq> [] \<and> hd re = ch_star then matchstar c (tl re) text
      else if c = ch_dollar \<and> re = [] then text = []
      else if text \<noteq> [] \<and> (c = ch_dot \<or> c = hd text) then matchhere re (tl text)
      else False)"
| "matchstar c re text =
     (if matchhere re text then True
      else if text \<noteq> [] \<and> (hd text = c \<or> c = ch_dot) then matchstar c re (tl text)
      else False)"
  by pat_completeness auto
termination
  by (relation "measure (\<lambda>x. case x of Inl (re, text) \<Rightarrow> 2 * (length re + length text)
        | Inr (c, re, text) \<Rightarrow> 2 * (length re + length text) + 1)")
     (auto simp: neq_Nil_conv)

declare matchhere.simps [simp del] matchstar.simps [simp del]

text \<open>The \<open>do ... while\<close> loop of \<open>match\<close> tries every suffix, the empty one last.\<close>

fun match_from :: "string \<Rightarrow> string \<Rightarrow> bool" where
  "match_from re [] = matchhere re []"
| "match_from re (t # ts) = (if matchhere re (t # ts) then True else match_from re ts)"

definition match :: "string \<Rightarrow> string \<Rightarrow> bool" where
  "match re text = (if re \<noteq> [] \<and> hd re = ch_caret then matchhere (tl re) text else match_from re text)"

section \<open>The language of a pattern\<close>

text \<open>A pattern is a sequence of characters, each starred or not, and an optional final \<open>$\<close>.\<close>

fun pattern :: "string \<Rightarrow> (char \<times> bool) list \<times> bool" where
  "pattern [] = ([], False)"
| "pattern [c] = (if c = ch_dollar then ([], True) else ([(c, False)], False))"
| "pattern (c # d # re) =
     (if d = ch_star then let (xs, e) = pattern re in ((c, True) # xs, e)
      else let (xs, e) = pattern (d # re) in ((c, False) # xs, e))"

definition denotes :: "char \<Rightarrow> char \<Rightarrow> bool" where
  "denotes c t \<longleftrightarrow> c = ch_dot \<or> c = t"

fun item_lang :: "char \<times> bool \<Rightarrow> string set" where
  "item_lang (c, False) = {[t] |t. denotes c t}"
| "item_lang (c, True) = {ts. \<forall>t\<in>set ts. denotes c t}"

fun seq_lang :: "(char \<times> bool) list \<Rightarrow> string set" where
  "seq_lang [] = {[]}"
| "seq_lang (x # xs) = {u @ v |u v. u \<in> item_lang x \<and> v \<in> seq_lang xs}"

text \<open>\<open>re\<close> matches at the beginning of \<open>text\<close>.\<close>

definition matches_prefix :: "(char \<times> bool) list \<times> bool \<Rightarrow> string \<Rightarrow> bool" where
  "matches_prefix p text \<longleftrightarrow> (\<exists>u v. text = u @ v \<and> u \<in> seq_lang (fst p) \<and> (snd p \<longrightarrow> v = []))"

lemma matches_prefixI: "u \<in> seq_lang xs \<Longrightarrow> (e \<longrightarrow> v = []) \<Longrightarrow> matches_prefix (xs, e) (u @ v)"
  by (auto simp: matches_prefix_def)

lemma matches_prefixE:
  assumes "matches_prefix (xs, e) text"
  obtains u v where "text = u @ v" "u \<in> seq_lang xs" "e \<longrightarrow> v = []"
  using assms by (auto simp: matches_prefix_def)

lemma matches_prefix_Nil: "matches_prefix ([], e) text \<longleftrightarrow> (e \<longrightarrow> text = [])"
  by (auto simp: matches_prefix_def)

lemma matches_prefix_char:
  "matches_prefix ((c, False) # xs, e) text \<longleftrightarrow>
     (\<exists>t ts. text = t # ts \<and> denotes c t \<and> matches_prefix (xs, e) ts)"
  (is "?l = ?r")
proof
  assume ?l
  then obtain u v where *: "text = u @ v" "u \<in> seq_lang ((c, False) # xs)" "e \<longrightarrow> v = []"
    by (rule matches_prefixE)
  moreover from *(2) obtain t w where "u = t # w" "denotes c t" "w \<in> seq_lang xs" by auto
  ultimately show ?r using matches_prefixI[of w xs e v] by simp
next
  assume ?r
  then obtain t ts where "text = t # ts" "denotes c t" "matches_prefix (xs, e) ts" by blast
  moreover then obtain u v where "ts = u @ v" "u \<in> seq_lang xs" "e \<longrightarrow> v = []" by (elim matches_prefixE)
  moreover have "[t] \<in> item_lang (c, False)" using calculation(2) by simp
  moreover have "[t] @ u \<in> seq_lang ((c, False) # xs)"
    unfolding seq_lang.simps using calculation(5,7) by blast
  ultimately show ?l using matches_prefixI[of "[t] @ u" "(c, False) # xs" e v] by (simp del: seq_lang.simps)
qed

lemma matches_prefix_star:
  "matches_prefix ((c, True) # xs, e) text \<longleftrightarrow>
     matches_prefix (xs, e) text \<or> (\<exists>t ts. text = t # ts \<and> denotes c t \<and> matches_prefix ((c, True) # xs, e) ts)"
  (is "?l = ?r")
proof
  assume ?l
  then obtain u v where **: "text = u @ v" "u \<in> seq_lang ((c, True) # xs)" "e \<longrightarrow> v = []"
    by (rule matches_prefixE)
  then obtain us w where "u = us @ w" "\<forall>t\<in>set us. denotes c t" "w \<in> seq_lang xs" by auto
  with ** have *: "text = (us @ w) @ v" "\<forall>t\<in>set us. denotes c t" "w \<in> seq_lang xs" "e \<longrightarrow> v = []" by simp_all
  show ?r
  proof (cases us)
    case Nil
    with * matches_prefixI[of w xs e v] show ?thesis by simp
  next
    case (Cons t ts)
    with * have "ts @ w \<in> seq_lang ((c, True) # xs)" by auto
    from matches_prefixI[OF this, of e v] * Cons show ?thesis by simp
  qed
next
  assume ?r
  then consider "matches_prefix (xs, e) text"
    | t ts where "text = t # ts" "denotes c t" "matches_prefix ((c, True) # xs, e) ts" by blast
  then show ?l
  proof cases
    case 1
    then obtain u v where *: "text = u @ v" "u \<in> seq_lang xs" "e \<longrightarrow> v = []" by (rule matches_prefixE)
    moreover have "[] \<in> item_lang (c, True)" by simp
    ultimately have "[] @ u \<in> seq_lang ((c, True) # xs)" unfolding seq_lang.simps by blast
    from matches_prefixI[OF this, of e v] * show ?thesis by (simp del: seq_lang.simps)
  next
    case 2
    from 2(3) obtain u v where **: "ts = u @ v" "u \<in> seq_lang ((c, True) # xs)" "e \<longrightarrow> v = []"
      by (rule matches_prefixE)
    then obtain us w where "u = us @ w" "\<forall>t\<in>set us. denotes c t" "w \<in> seq_lang xs" by auto
    with ** 2(1) have *: "text = t # (us @ w) @ v" "\<forall>t\<in>set us. denotes c t" "w \<in> seq_lang xs" "e \<longrightarrow> v = []"
      by simp_all
    then have "t # us \<in> item_lang (c, True)" using 2(2) by simp
    with *(3) have "(t # us) @ w \<in> seq_lang ((c, True) # xs)" unfolding seq_lang.simps by blast
    from matches_prefixI[OF this, of e v] * show ?thesis by simp
  qed
qed

lemma matchhere_matches:
  "matchhere re tx \<longleftrightarrow> matches_prefix (pattern re) tx"
  "matchstar c re' tx' \<longleftrightarrow> matches_prefix ((c, True) # fst (pattern re'), snd (pattern re')) tx'"
proof (induction re tx and c re' tx' rule: matchhere_matchstar.induct)
  case (1 tx)
  then show ?case by (simp add: matchhere.simps matches_prefix_Nil)
next
  case (2 c re tx)
  show ?case
  proof (cases re)
    case Nil
    with 2 show ?thesis
      by (cases tx) (auto simp: matchhere.simps matches_prefix_Nil matches_prefix_char denotes_def)
  next
    case (Cons d rs)
    show ?thesis
    proof (cases "d = ch_star")
      case True
      with 2(1) Cons show ?thesis by (simp add: matchhere.simps(2) split: prod.split)
    next
      case False
      with 2(2) Cons show ?thesis
        by (cases tx) (auto simp: matchhere.simps(2) matches_prefix_char denotes_def split: prod.split)
    qed
  qed
next
  case (3 c re tx)
  then show ?case
    unfolding matchstar.simps[of c re tx] matches_prefix_star[of c _ _ tx]
    by (cases tx) (auto simp: denotes_def)
qed

text \<open>C17: \<open>match\<close> decides the language of the pattern: a leading \<open>^\<close> asks for a match at the beginning of
  the text, otherwise some suffix of the text has to start with a word of the pattern; a final
  \<open>$\<close> asks the word to end the text. The recursion terminates on every pattern and text.\<close>

theorem match_language:
  "match re text \<longleftrightarrow>
     (if re \<noteq> [] \<and> hd re = ch_caret then matches_prefix (pattern (tl re)) text
      else \<exists>u v. text = u @ v \<and> matches_prefix (pattern re) v)"
proof -
  have "match_from re text \<longleftrightarrow> (\<exists>u v. text = u @ v \<and> matchhere re v)"
  proof (induction "text")
    case (Cons t ts)
    have "(\<exists>u v. t # ts = u @ v \<and> matchhere re v) \<longleftrightarrow> matchhere re (t # ts) \<or> (\<exists>u v. ts = u @ v \<and> matchhere re v)"
      by (auto simp: Cons_eq_append_conv)
    with Cons show ?case by simp
  qed simp
  then show ?thesis unfolding match_def matchhere_matches by presburger
qed

section \<open>The line reader\<close>

text \<open>
  The buffer has 1024 bytes. \<open>strchr(p, '\n')\<close> looks for a newline from \<open>p\<close> up to the next NUL;
  running off the buffer reads other memory and is \<open>Fault\<close>. \<open>NoNl\<close> is its null result.
\<close>

abbreviation (input) BUFLEN :: nat where "BUFLEN \<equiv> 1024"
abbreviation (input) nul :: char where "nul \<equiv> CHR 0x00"
abbreviation (input) nl :: char where "nl \<equiv> CHR 0x0A"

fun strchr_nl :: "string \<Rightarrow> nat \<Rightarrow> nat \<Rightarrow> nat option res" where
  "strchr_nl buf p 0 = Fault ''strchr past buf''"
| "strchr_nl buf p (Suc k) =
     (if buf ! p = nul then Ok None
      else if buf ! p = nl then Ok (Some p)
      else strchr_nl buf (p + 1) k)"

text \<open>The C string at index \<open>p\<close> of the buffer.\<close>

fun cstring :: "string \<Rightarrow> string" where
  "cstring [] = []"
| "cstring (c # cs) = (if c = nul then [] else c # cstring cs)"

text \<open>The inner loop; \<open>k\<close> bounds the turns, and a turn moves \<open>p\<close> past a newline of the buffer.\<close>

primrec grep_lines :: "nat \<Rightarrow> string \<Rightarrow> string \<Rightarrow> nat \<Rightarrow> string \<Rightarrow> (string \<times> nat \<times> string) res" where
  "grep_lines 0 pat buf p out = Fault ''strchr past buf''"
| "grep_lines (Suc k) pat buf p out =
     rbind (strchr_nl buf p (BUFLEN - p)) (\<lambda>q. case q of
       None \<Rightarrow> Ok (buf, p, out)
     | Some q \<Rightarrow>
         let buf = buf[q := nul]
         in if match pat (cstring (drop p buf))
            then let buf = buf[q := nl] in grep_lines k pat buf (q + 1) (out @ take (q + 1 - p) (drop p buf))
            else grep_lines k pat buf (q + 1) out)"

text \<open>The outer loop: \<open>rs\<close> are the byte strings the successive \<open>read\<close> calls return; a read never
  returns more than it is asked for, and the first that returns nothing ends the loop.\<close>

primrec grep_loop :: "string \<Rightarrow> string list \<Rightarrow> string \<Rightarrow> nat \<Rightarrow> string \<Rightarrow> string res" where
  "grep_loop pat [] buf m out = Ok out"
| "grep_loop pat (r # rs) buf m out =
     (let r = take (BUFLEN - m) r
      in if r = [] then Ok out
         else let buf = take m buf @ r @ drop (m + length r) buf; m = m + length r
           in rbind (grep_lines (BUFLEN + 1) pat buf 0 out) (\<lambda>(buf, p, out).
                let m = (if p = 0 then 0 else m)
                in if m > 0
                   then let m = m - p in grep_loop pat rs (take m (drop p buf) @ drop m buf) m out
                   else grep_loop pat rs buf m out))"

definition grep :: "string \<Rightarrow> string list \<Rightarrow> string res" where
  "grep pat rs = grep_loop pat rs (replicate BUFLEN nul) 0 []"

lemma strchr_nl_scan:
  assumes "\<forall>x\<in>set l. x \<noteq> nl \<and> x \<noteq> nul" "length l < n" "c = nl \<or> c = nul"
  shows "strchr_nl (pre @ l @ c # post) (length pre) n = Ok (if c = nl then Some (length pre + length l) else None)"
  using assms
proof (induction l arbitrary: pre n)
  case Nil
  then obtain k where "n = Suc k" by (cases n) auto
  then show ?case using Nil by auto
next
  case (Cons x l)
  then obtain k where n: "n = Suc k" by (cases n) auto
  have "strchr_nl ((pre @ [x]) @ l @ c # post) (length (pre @ [x])) k = Ok (if c = nl then Some (length (pre @ [x]) + length l) else None)"
    using Cons.prems n by (intro Cons.IH) auto
  then show ?case using Cons.prems n by (simp add: nth_append)
qed

lemma cstring_upto: "\<forall>x\<in>set l. x \<noteq> nul \<Longrightarrow> cstring (l @ nul # post) = l"
  by (induction l) auto

definition unlines :: "string list \<Rightarrow> string" where
  "unlines ls = concat (map (\<lambda>l. l @ [nl]) ls)"

definition is_line :: "string \<Rightarrow> bool" where
  "is_line l \<longleftrightarrow> (\<forall>x\<in>set l. x \<noteq> nl \<and> x \<noteq> nul)"

lemma unlines_simps [simp]: "unlines [] = []" "unlines (l # ls) = l @ nl # unlines ls"
  by (simp_all add: unlines_def)

lemma upd_mid: "(pre @ l @ x # post)[length pre + length l := c] = pre @ l @ c # post"
  by (simp add: list_update_append)

lemma grep_lines_complete:
  assumes "\<forall>l\<in>set ls. is_line l" "length pre + length (unlines ls) < BUFLEN" "length ls < k"
    and "length pre + length (unlines ls) + Suc (length post) = BUFLEN"
  shows "\<exists>buf'. grep_lines k pat (pre @ unlines ls @ nul # post) (length pre) out =
     Ok (buf', length pre + length (unlines ls), out @ unlines (filter (match pat) ls)) \<and> length buf' = BUFLEN"
  using assms
proof (induction ls arbitrary: pre k out)
  case Nil
  then obtain k' where "k = Suc k'" by (cases k) auto
  then show ?case using strchr_nl_scan[of "[]" "BUFLEN - length pre" nul pre post] Nil by simp
next
  case (Cons l ls)
  obtain k' where k: "k = Suc k'" using Cons.prems(3) by (cases k) auto
  let ?rest = "unlines ls @ nul # post"
  let ?buf = "pre @ l @ nl # ?rest"
  have line: "\<forall>x\<in>set l. x \<noteq> nl \<and> x \<noteq> nul" using Cons.prems(1) by (simp add: is_line_def)
  have buf: "pre @ unlines (l # ls) @ nul # post = ?buf" by simp
  have len: "length (unlines (l # ls)) = length l + 1 + length (unlines ls)" by simp
  have s: "strchr_nl ?buf (length pre) (BUFLEN - length pre) = Ok (Some (length pre + length l))"
    using strchr_nl_scan[OF line, of "BUFLEN - length pre" nl pre ?rest] Cons.prems(2) len by simp
  have IH: "\<exists>buf'. grep_lines k' pat ((pre @ l @ [c]) @ ?rest) (length (pre @ l @ [c])) out' =
     Ok (buf', length (pre @ l @ [c]) + length (unlines ls), out' @ unlines (filter (match pat) ls)) \<and> length buf' = BUFLEN" for c out'
    using Cons.prems k len by (intro Cons.IH) auto
  have m: "cstring (drop (length pre) (pre @ l @ nul # ?rest)) = l" using cstring_upto line by simp
  show ?case
    unfolding buf k grep_lines.simps s
    using IH[of nl "out @ l @ [nl]"] IH[of nul out] m len by (cases "match pat l") (simp_all add: upd_mid Let_def add.assoc)
qed




end
