(* ===== verification/Xv6_Ulib.thy ===== *)
theory Xv6_Ulib
  imports Xv6_String
begin

text \<open>
  The user library: \<^verbatim>\<open>ulib.c\<close>, the formatted output of \<^verbatim>\<open>printf.c\<close> with its twin in the kernel
  (\<open>printint\<close> and \<open>cprintf\<close> of \<^verbatim>\<open>console.c\<close>), and the small programs \<^verbatim>\<open>wc.c\<close>, \<^verbatim>\<open>cat.c\<close> and
  \<^verbatim>\<open>echo.c\<close> that are built on them. Routines that walk memory work on a byte memory; where only the
  contents of a string matter it is the list of its characters without the terminating NUL. Output
  is the list of characters written.
\<close>

section \<open>ulib.c\<close>

partial_function (option) ulib_strcpy :: "mem \<Rightarrow> addr \<Rightarrow> addr \<Rightarrow> mem option" where
  "ulib_strcpy m s t =
     (let m' = m(s := m t) in if m t \<noteq> 0 then ulib_strcpy m' (s + 1) (t + 1) else Some m')"

partial_function (option) strcmp :: "mem \<Rightarrow> addr \<Rightarrow> addr \<Rightarrow> int option" where
  "strcmp m p q =
     (if m p \<noteq> 0 \<and> m p = m q then strcmp m (p + 1) (q + 1)
      else Some (uint (m p) - uint (m q)))"

partial_function (option) ulib_strlen_loop :: "mem \<Rightarrow> addr \<Rightarrow> nat \<Rightarrow> nat option" where
  "ulib_strlen_loop m s n = (if m (s + of_nat n) \<noteq> 0 then ulib_strlen_loop m s (Suc n) else Some n)"

definition ulib_strlen :: "mem \<Rightarrow> addr \<Rightarrow> nat option" where
  "ulib_strlen m s = ulib_strlen_loop m s 0"

definition ulib_memset :: "mem \<Rightarrow> addr \<Rightarrow> uchar \<Rightarrow> uint \<Rightarrow> mem" where
  "ulib_memset m dst c n = stosb m dst c (unat n)"

partial_function (option) strchr :: "mem \<Rightarrow> addr \<Rightarrow> uchar \<Rightarrow> addr option" where
  "strchr m s c = (if m s \<noteq> 0 then if m s = c then Some s else strchr m (s + 1) c else Some 0)"

text \<open>\<open>read(0, &c, 1)\<close> returns one character of the input or none at its end.\<close>

primrec gets_loop :: "nat \<Rightarrow> string \<Rightarrow> string \<Rightarrow> string \<times> string" where
  "gets_loop 0 inp buf = (buf, inp)"
| "gets_loop (Suc k) inp buf =
     (case inp of
        [] \<Rightarrow> (buf, [])
      | c # rest \<Rightarrow>
          if c = CHR 0x0A \<or> c = CHR 0x0D then (buf @ [c], rest)
          else gets_loop k rest (buf @ [c]))"

definition gets :: "int \<Rightarrow> string \<Rightarrow> string \<times> string" where
  "gets mx inp = gets_loop (nat (mx - 1)) inp []"

fun atoi_loop :: "uint \<Rightarrow> string \<Rightarrow> uint" where
  "atoi_loop n [] = n"
| "atoi_loop n (c # s) =
     (if of_char (CHR ''0'') \<le> (of_char c :: nat) \<and> (of_char c :: nat) \<le> of_char (CHR ''9'')
      then atoi_loop (n * 10 + of_char c - of_char (CHR ''0'')) s
      else n)"

definition atoi :: "string \<Rightarrow> uint" where
  "atoi s = atoi_loop 0 s"

primrec ulib_memmove_loop :: "mem \<Rightarrow> addr \<Rightarrow> addr \<Rightarrow> nat \<Rightarrow> mem" where
  "ulib_memmove_loop m dst src 0 = m"
| "ulib_memmove_loop m dst src (Suc n) = ulib_memmove_loop (m(dst := m src)) (dst + 1) (src + 1) n"

definition ulib_memmove :: "mem \<Rightarrow> addr \<Rightarrow> addr \<Rightarrow> int \<Rightarrow> mem" where
  "ulib_memmove m dst src n = ulib_memmove_loop m dst src (nat n)"

section \<open>printf.c\<close>

definition digits :: string where
  "digits = ''0123456789ABCDEF''"

text \<open>
  The digits go into \<open>buf[16]\<close>, the least significant first; the counter is the room that is left
  and a store past the buffer is a fault, as is a division by zero.
\<close>

primrec printint_loop :: "string \<Rightarrow> uint \<Rightarrow> nat \<Rightarrow> uint \<Rightarrow> string \<Rightarrow> string res" where
  "printint_loop ds base 0 x buf = Fault ''buf''"
| "printint_loop ds base (Suc room) x buf =
     (if base = 0 then Fault ''divide''
      else let buf' = buf @ [ds ! unat (x mod base)]; x' = x div base
           in if x' \<noteq> 0 then printint_loop ds base room x' buf' else Ok buf')"

definition printint :: "uint \<Rightarrow> uint \<Rightarrow> bool \<Rightarrow> string res" where
  "printint xx base sg =
     (let neg = (sg \<and> xx <s 0);
          x = (if neg then - xx else xx)
      in rbind (printint_loop digits base 16 x []) (\<lambda>buf.
         if neg then if length buf < 16 then Ok (rev (buf @ ''-'')) else Fault ''buf''
         else Ok (rev buf)))"

text \<open>
  The arguments are the words above \<open>fmt\<close> on the stack; \<open>strs\<close> is the string each address holds.
  Reading past the last argument is a fault.
\<close>

definition pop_arg :: "uint list \<Rightarrow> (uint \<Rightarrow> uint list \<Rightarrow> 'a res) \<Rightarrow> 'a res" where
  "pop_arg ap k = (case ap of [] \<Rightarrow> Fault ''va_arg'' | a # ap' \<Rightarrow> k a ap')"

fun printf_loop :: "(uint \<Rightarrow> string) \<Rightarrow> bool \<Rightarrow> string \<Rightarrow> uint list \<Rightarrow> string \<Rightarrow> string res" where
  "printf_loop strs st [] ap out = Ok out"
| "printf_loop strs False (c # fmt) ap out =
     (if c = CHR ''%'' then printf_loop strs True fmt ap out
      else printf_loop strs False fmt ap (out @ [c]))"
| "printf_loop strs True (c # fmt) ap out =
     (if c = CHR ''d'' then
        pop_arg ap (\<lambda>a ap'. rbind (printint a 10 True) (\<lambda>s. printf_loop strs False fmt ap' (out @ s)))
      else if c = CHR ''x'' \<or> c = CHR ''p'' then
        pop_arg ap (\<lambda>a ap'. rbind (printint a 16 False) (\<lambda>s. printf_loop strs False fmt ap' (out @ s)))
      else if c = CHR ''s'' then
        pop_arg ap (\<lambda>a ap'. printf_loop strs False fmt ap'
                             (out @ (if a = 0 then ''(null)'' else strs a)))
      else if c = CHR ''c'' then
        pop_arg ap (\<lambda>a ap'. printf_loop strs False fmt ap' (out @ [char_of (unat a)]))
      else if c = CHR ''%'' then printf_loop strs False fmt ap (out @ [c])
      else printf_loop strs False fmt ap (out @ [CHR ''%'', c]))"

definition printf :: "(uint \<Rightarrow> string) \<Rightarrow> string \<Rightarrow> uint list \<Rightarrow> string res" where
  "printf strs fmt ap = printf_loop strs False fmt ap []"

section \<open>The kernel's printint and cprintf\<close>

definition kdigits :: string where
  "kdigits = ''0123456789abcdef''"

definition kprintint :: "uint \<Rightarrow> uint \<Rightarrow> bool \<Rightarrow> string res" where
  "kprintint xx base sign =
     (let sign' = (sign \<and> xx <s 0);
          x = (if sign' then - xx else xx)
      in rbind (printint_loop kdigits base 16 x []) (\<lambda>buf.
         if sign' then if length buf < 16 then Ok (rev (buf @ ''-'')) else Fault ''buf''
         else Ok (rev buf)))"

fun cprintf_loop :: "(uint \<Rightarrow> string) \<Rightarrow> string \<Rightarrow> uint list \<Rightarrow> string \<Rightarrow> string res" where
  "cprintf_loop strs [] argp out = Ok out"
| "cprintf_loop strs [c] argp out = (if c \<noteq> CHR ''%'' then Ok (out @ [c]) else Ok out)"
| "cprintf_loop strs (c # d # fmt) argp out =
     (if c \<noteq> CHR ''%'' then cprintf_loop strs (d # fmt) argp (out @ [c])
      else if d = CHR ''d'' then
        pop_arg argp (\<lambda>a argp'. rbind (kprintint a 10 True) (\<lambda>s. cprintf_loop strs fmt argp' (out @ s)))
      else if d = CHR ''x'' \<or> d = CHR ''p'' then
        pop_arg argp (\<lambda>a argp'. rbind (kprintint a 16 False) (\<lambda>s. cprintf_loop strs fmt argp' (out @ s)))
      else if d = CHR ''s'' then
        pop_arg argp (\<lambda>a argp'. cprintf_loop strs fmt argp'
                                 (out @ (if a = 0 then ''(null)'' else strs a)))
      else if d = CHR ''%'' then cprintf_loop strs fmt argp (out @ ''%'')
      else cprintf_loop strs fmt argp (out @ [CHR ''%'', d]))"

text \<open>A null format is a panic; it is the caller's \<open>None\<close>.\<close>

definition cprintf :: "(uint \<Rightarrow> string) \<Rightarrow> string option \<Rightarrow> uint list \<Rightarrow> string res" where
  "cprintf strs fmt argp =
     (case fmt of None \<Rightarrow> Panic ''null fmt'' | Some f \<Rightarrow> cprintf_loop strs f argp [])"

section \<open>wc.c, cat.c and echo.c\<close>

record wc_state =
  wl :: uint
  ww :: uint
  wch :: uint
  inword :: bool

definition wc_space :: "char \<Rightarrow> bool" where
  "wc_space ch \<longleftrightarrow> ch \<in> set [CHR '' '', CHR 0x0D, CHR 0x09, CHR 0x0A, CHR 0x0B]"

definition wc_char :: "char \<Rightarrow> wc_state \<Rightarrow> wc_state" where
  "wc_char ch s =
     (let s = s\<lparr>wch := wch s + 1\<rparr>;
          s = (if ch = CHR 0x0A then s\<lparr>wl := wl s + 1\<rparr> else s)
      in if wc_space ch then s\<lparr>inword := False\<rparr>
         else if \<not> inword s then s\<lparr>ww := ww s + 1, inword := True\<rparr>
         else s)"

text \<open>
  Each \<open>read\<close> gives the bytes it read, none at the end of the file, or an error (\<open>None\<close>).
\<close>

fun wc_loop :: "string option list \<Rightarrow> wc_state \<Rightarrow> wc_state option" where
  "wc_loop [] s = Some s"
| "wc_loop (None # rs) s = None"
| "wc_loop (Some buf # rs) s = (if buf = [] then Some s else wc_loop rs (fold wc_char buf s))"

definition wc :: "(uint \<Rightarrow> string) \<Rightarrow> uint \<Rightarrow> string option list \<Rightarrow> string res" where
  "wc strs name rs =
     (case wc_loop rs \<lparr>wl = 0, ww = 0, wch = 0, inword = False\<rparr> of
        None \<Rightarrow> printf strs (''wc: read error'' @ [CHR 0x0A]) []
      | Some s \<Rightarrow> printf strs (''%d %d %d %s'' @ [CHR 0x0A]) [wl s, ww s, wch s, name])"

fun cat_loop :: "(uint \<Rightarrow> string) \<Rightarrow> string option list \<Rightarrow> string \<Rightarrow> string res" where
  "cat_loop strs [] out = Ok out"
| "cat_loop strs (None # rs) out =
     rbind (printf strs (''cat: read error'' @ [CHR 0x0A]) []) (\<lambda>s. Ok (out @ s))"
| "cat_loop strs (Some buf # rs) out =
     (if buf = [] then Ok out else cat_loop strs rs (out @ buf))"

definition cat :: "(uint \<Rightarrow> string) \<Rightarrow> string option list \<Rightarrow> string res" where
  "cat strs rs = cat_loop strs rs []"

text \<open>
  \<open>spc\<close> and \<open>nl\<close> are the addresses of the two string literals of \<open>echo\<close>'s \<open>main\<close>.
\<close>

fun echo_loop :: "(uint \<Rightarrow> string) \<Rightarrow> uint \<Rightarrow> uint \<Rightarrow> uint list \<Rightarrow> string \<Rightarrow> string res" where
  "echo_loop strs spc nl [] out = Ok out"
| "echo_loop strs spc nl (a # av) out =
     rbind (printf strs ''%s%s'' [a, if av \<noteq> [] then spc else nl])
       (\<lambda>s. echo_loop strs spc nl av (out @ s))"

definition echo_main :: "(uint \<Rightarrow> string) \<Rightarrow> uint \<Rightarrow> uint \<Rightarrow> uint list \<Rightarrow> string res" where
  "echo_main strs spc nl argv = echo_loop strs spc nl (tl argv) []"

section \<open>Numbers\<close>

text \<open>The numeral of \<open>n\<close> in base \<open>b\<close>, written from the most significant digit.\<close>

function numeral_str :: "string \<Rightarrow> nat \<Rightarrow> nat \<Rightarrow> string" where
  "numeral_str ds b n =
     (if b \<le> 1 \<or> n < b then [ds ! n] else numeral_str ds b (n div b) @ [ds ! (n mod b)])"
  by auto
termination by (relation "measure (\<lambda>(ds, b, n). n)") auto

declare numeral_str.simps [simp del]

lemma length_numeral_str:
  "2 \<le> b \<Longrightarrow> n < b ^ Suc k \<Longrightarrow> length (numeral_str ds b n) \<le> Suc k"
proof (induction k arbitrary: n)
  case 0
  then show ?case by (simp add: numeral_str.simps)
next
  case (Suc k)
  then have "n div b < b ^ Suc k" by (simp add: less_mult_imp_div_less mult.commute)
  from Suc.IH [OF Suc.prems(1) this] show ?case by (subst numeral_str.simps) simp
qed

lemma printint_loop_numeral:
  "2 \<le> unat base \<Longrightarrow> unat x < unat base ^ Suc k \<Longrightarrow> Suc k \<le> room \<Longrightarrow>
     printint_loop ds base room x buf = Ok (buf @ rev (numeral_str ds (unat base) (unat x)))"
proof (induction k arbitrary: room x buf)
  case 0
  then obtain r where "room = Suc r" by (cases room) auto
  moreover have "x div base = 0" using 0 by (simp add: unat_eq_zero [symmetric] unat_div_distrib)
  moreover have "base \<noteq> 0" using 0 by auto
  ultimately show ?case using 0 by (simp add: numeral_str.simps unat_mod_distrib)
next
  case (Suc k)
  then obtain r where r: "room = Suc r" by (cases room) auto
  have b: "base \<noteq> 0" using Suc.prems by auto
  have d: "unat (x div base) = unat x div unat base" by (simp add: unat_div_distrib)
  have m: "unat (x mod base) = unat x mod unat base" by (simp add: unat_mod_distrib)
  have "unat (x div base) < unat base ^ Suc k"
    using Suc.prems d by (simp add: less_mult_imp_div_less mult.commute)
  note IH = Suc.IH [OF Suc.prems(1) this, of r "buf @ [ds ! unat (x mod base)]"]
  have z: "x div base = 0 \<longleftrightarrow> unat x < unat base"
    using Suc.prems d by (metis div_eq_0_iff unat_eq_zero not_numeral_le_zero)
  show ?case
    using b r z IH Suc.prems d m by (subst numeral_str.simps) auto
qed

text \<open>The text of a signed number.\<close>

definition decimal :: "int \<Rightarrow> string" where
  "decimal i = (if i < 0 then ''-'' else []) @ numeral_str digits 10 (nat \<bar>i\<bar>)"

lemma unat_word_of_int_small: "0 \<le> i \<Longrightarrow> i < 2 ^ 32 \<Longrightarrow> unat (word_of_int i :: uint) = nat i"
  by (simp add: unat_eq_nat_uint uint_word_of_int)

lemma sint_uint_bounds: "- (2 ^ 31) \<le> sint (xx::uint)" "sint (xx::uint) < 2 ^ 31"
  using sint_ge [of xx] sint_lt [of xx] by simp_all

lemma unat_uminus_neg: "(xx::uint) <s 0 \<Longrightarrow> unat (- xx) = nat (- sint xx)"
proof -
  assume "xx <s 0"
  then have "sint xx < 0" by (simp add: word_sless_alt)
  moreover have "- xx = word_of_int (- sint xx)" by simp
  ultimately show ?thesis using sint_uint_bounds [of xx] by (simp only:) (rule unat_word_of_int_small, auto)
qed

lemma unat_nonneg: "\<not> (xx::uint) <s 0 \<Longrightarrow> unat xx = nat (sint xx)"
proof -
  assume "\<not> xx <s 0"
  then have "0 \<le> sint xx" by (simp add: word_sless_alt)
  then have "unat (word_of_int (sint xx) :: uint) = nat (sint xx)"
    using sint_uint_bounds [of xx] by (intro unat_word_of_int_small) auto
  then show ?thesis by simp
qed

lemma unat_less_10: "unat (x::uint) < 10 ^ Suc 9"
  using unsigned_less [of x, where 'a = nat] by simp

lemma printint_signed: "printint xx 10 True = Ok (decimal (sint xx))"
proof -
  define x where "x = (if xx <s 0 then - xx else xx)"
  have x: "unat x = nat \<bar>sint xx\<bar>"
    using unat_uminus_neg [of xx] unat_nonneg [of xx] by (auto simp: x_def word_sless_alt)
  have "printint_loop digits 10 16 x [] = Ok (rev (numeral_str digits 10 (nat \<bar>sint xx\<bar>)))"
    using printint_loop_numeral [of 10 x 9 16 digits "[]"] unat_less_10 [of x] x by simp
  moreover have "length (numeral_str digits 10 (nat \<bar>sint xx\<bar>)) \<le> 10"
    using length_numeral_str [of 10 "unat x" 9] unat_less_10 [of x] x by simp
  ultimately show ?thesis
    unfolding printint_def Let_def x_def by (cases "sint xx < 0") (auto simp: decimal_def word_sless_alt)
qed

lemma digit_cases: "k < 10 \<Longrightarrow> k \<in> {0, 1, 2, 3, 4, 5, 6, 7, 8, 9 :: nat}"
  by (simp add: numeral_eq_Suc) arith

lemma of_char_digit: "k < 10 \<Longrightarrow> (of_char (digits ! k) :: nat) = 48 + k"
  by (drule digit_cases) (auto simp: digits_def)

lemma of_char_digit_word: "k < 10 \<Longrightarrow> (of_char (digits ! k) :: uint) = 48 + of_nat k"
  by (drule digit_cases) (auto simp: digits_def)

lemma atoi_loop_digit: "k < 10 \<Longrightarrow> atoi_loop n (digits ! k # s) = atoi_loop (n * 10 + of_nat k) s"
  by (simp add: of_char_digit of_char_digit_word)

lemma atoi_loop_numeral:
  "\<exists>n0. atoi_loop n (numeral_str digits 10 k @ s) = atoi_loop (n0 + of_nat k) s \<and> (n = 0 \<longrightarrow> n0 = 0)"
proof (induction k arbitrary: s rule: less_induct)
  case (less k)
  show ?case
  proof (cases "k < 10")
    case True
    then show ?thesis
      by (intro exI [of _ "n * 10"]) (subst numeral_str.simps, simp add: atoi_loop_digit del: atoi_loop.simps)
  next
    case False
    then obtain n0 where "atoi_loop n (numeral_str digits 10 (k div 10) @ digits ! (k mod 10) # s) =
        atoi_loop ((n0 + of_nat (k div 10)) * 10 + of_nat (k mod 10)) s" and n0: "n = 0 \<longrightarrow> n0 = 0"
      using less [of "k div 10" "digits ! (k mod 10) # s"] by (auto simp: atoi_loop_digit simp del: atoi_loop.simps)
    moreover have "(of_nat k :: uint) = of_nat (k div 10) * 10 + of_nat (k mod 10)"
      by (metis div_mult_mod_eq of_nat_add of_nat_mult of_nat_numeral)
    moreover have "numeral_str digits 10 k = numeral_str digits 10 (k div 10) @ [digits ! (k mod 10)]"
      using False by (subst numeral_str.simps) simp
    ultimately have "atoi_loop n (numeral_str digits 10 k @ s) = atoi_loop (n0 * 10 + of_nat k) s"
      by (simp only: append_assoc append_Cons append_Nil distrib_right add.assoc)
    then show ?thesis using n0 by auto
  qed
qed

lemma atoi_numeral: "atoi (numeral_str digits 10 k) = of_nat k"
  using atoi_loop_numeral [of 0 k "[]"] by (auto simp: atoi_def)

text \<open>C36: \<open>printf\<close>'s \<open>%d\<close> prints every 32-bit integer as its signed decimal, the most negative one
  included, and never stores outside its 16-byte buffer: the text has at most 11 characters.\<close>

theorem printint_decimal:
  "printint xx 10 True = Ok (decimal (sint xx)) \<and> length (decimal (sint xx)) \<le> 11"
proof
  have "nat \<bar>sint xx\<bar> < 10 ^ Suc 9" using sint_uint_bounds [of xx] by simp
  from length_numeral_str [OF _ this, of digits] show "length (decimal (sint xx)) \<le> 11"
    by (auto simp: decimal_def simp del: nat_abs_int_diff abs_of_neg abs_of_nonneg)
qed (rule printint_signed)

text \<open>C30: Reading back what \<open>printf\<close> prints: for a number that is not negative, \<open>atoi\<close> of the text
  of \<open>%d\<close> is the number.\<close>

theorem atoi_printint:
  assumes "0 \<le>s xx"
  shows "\<exists>s. printint xx 10 True = Ok s \<and> atoi s = xx"
proof -
  have "0 \<le> sint xx" using assms by (simp add: word_sle_eq)
  then have "atoi (decimal (sint xx)) = of_nat (nat (sint xx))" by (simp add: decimal_def atoi_numeral)
  also have "\<dots> = xx" using \<open>0 \<le> sint xx\<close> by (simp only: of_nat_nat of_int_sint scast_id)
  finally show ?thesis using printint_signed by blast
qed

theorem atoi_printint_witness:
  "0 \<le>s (2147483647 :: uint) \<and> (\<exists>s. printint 2147483647 10 True = Ok s \<and> atoi s = 2147483647)"
proof -
  have "0 \<le>s (2147483647 :: uint)" by (simp add: word_sle_eq)
  from atoi_printint [OF this] this show ?thesis by blast
qed

section \<open>wc\<close>

text \<open>The maximal runs of characters that are not white space.\<close>

function (sequential) text_words :: "string \<Rightarrow> string list" where
  "text_words [] = []"
| "text_words (ch # t) =
     (if wc_space ch then text_words t
      else (ch # takeWhile (\<lambda>d. \<not> wc_space d) t) # text_words (dropWhile (\<lambda>d. \<not> wc_space d) t))"
  by pat_completeness auto
termination by (relation "measure length") (auto simp: le_imp_less_Suc length_dropWhile_le)

text \<open>The number of words that start in \<open>t\<close>, when \<open>t\<close> follows a character of a word or not.\<close>

definition new_words :: "bool \<Rightarrow> string \<Rightarrow> nat" where
  "new_words inw t = length (text_words (if inw then dropWhile (\<lambda>d. \<not> wc_space d) t else t))"

lemma new_words_Cons:
  "new_words inw (ch # t) =
     (if wc_space ch then new_words False t
      else (if inw then 0 else 1) + new_words True t)"
  by (simp add: new_words_def)

lemma wc_char_eq:
  "wc_char ch s =
     \<lparr>wl = wl s + (if ch = CHR 0x0A then 1 else 0), ww = ww s + (if wc_space ch \<or> inword s then 0 else 1),
      wch = wch s + 1, inword = (\<not> wc_space ch)\<rparr>"
  by (cases s) (auto simp: wc_char_def Let_def wc_space_def)

lemma fold_wc_char:
  "fold wc_char t s =
     \<lparr>wl = wl s + of_nat (count_list t (CHR 0x0A)), ww = ww s + of_nat (new_words (inword s) t),
      wch = wch s + of_nat (length t), inword = (if t = [] then inword s else \<not> wc_space (last t))\<rparr>"
proof (induction t arbitrary: s)
  case Nil
  then show ?case by (simp add: new_words_def)
next
  case (Cons ch t)
  have "fold wc_char (ch # t) s = fold wc_char t (wc_char ch s)" by simp
  also note Cons
  also note wc_char_eq [of ch s]
  finally show ?case
    by (auto simp: new_words_Cons new_words_def [of _ "[]"])
qed

lemma wc_loop_reads:
  "[] \<notin> set bufs \<Longrightarrow> wc_loop (map Some bufs) s = Some (fold wc_char (concat bufs) s)"
  by (induction bufs arbitrary: s) auto

text \<open>C31: However the reads cut the input into pieces, \<open>wc\<close> prints the number of newlines, of maximal
  runs of characters other than white space, and of characters of the whole input, each as a
  32-bit integer.\<close>

theorem wc_counts:
  assumes "[] \<notin> set bufs" and "name \<noteq> 0"
  shows "wc strs name (map Some bufs) =
    (let t = concat bufs; num = \<lambda>k. decimal (sint (of_nat k :: uint))
     in Ok (num (count_list t (CHR 0x0A)) @ '' '' @ num (length (text_words t)) @ '' '' @
            num (length t) @ '' '' @ strs name @ [CHR 0x0A]))"
  using assms
  by (simp add: wc_def wc_loop_reads fold_wc_char new_words_def printf_def pop_arg_def printint_signed Let_def)

theorem wc_counts_witness:
  "[] \<notin> set [''a b'', ''c'' @ [CHR 0x0A]] \<and> (4096 :: uint) \<noteq> 0 \<and>
   wc (\<lambda>_. ''f'') 4096 (map Some [''a b'', ''c'' @ [CHR 0x0A]]) = Ok (''1 2 5 f'' @ [CHR 0x0A])"
  using wc_counts [of "[''a b'', ''c'' @ [CHR 0x0A]]" 4096 "\<lambda>_. ''f''"]
  by (simp add: decimal_def numeral_str.simps wc_space_def digits_def Let_def)

end
