(* ===== verification/Xv6_Console.thy ===== *)
theory Xv6_Console
  imports Xv6_Ring Xv6_Spinlock
begin

text \<open>
  The console: the keyboard decoder of \<^verbatim>\<open>kbd.c\<close> and \<^verbatim>\<open>kbd.h\<close>, the serial port of \<^verbatim>\<open>uart.c\<close>, the
  text screen and the line discipline of \<^verbatim>\<open>console.c\<close>. The devices are queues: the scan codes or
  serial bytes waiting to be read, and the bytes sent to the serial line. The line discipline is
  refined to two byte lists, the finished input and the line being edited.
\<close>

section \<open>Keyboard\<close>

abbreviation (input) KEY_HOME :: uchar where "KEY_HOME \<equiv> 0xE0"
abbreviation (input) KEY_END :: uchar where "KEY_END \<equiv> 0xE1"
abbreviation (input) KEY_UP :: uchar where "KEY_UP \<equiv> 0xE2"
abbreviation (input) KEY_DN :: uchar where "KEY_DN \<equiv> 0xE3"
abbreviation (input) KEY_LF :: uchar where "KEY_LF \<equiv> 0xE4"
abbreviation (input) KEY_RT :: uchar where "KEY_RT \<equiv> 0xE5"
abbreviation (input) KEY_PGUP :: uchar where "KEY_PGUP \<equiv> 0xE6"
abbreviation (input) KEY_PGDN :: uchar where "KEY_PGDN \<equiv> 0xE7"
abbreviation (input) KEY_INS :: uchar where "KEY_INS \<equiv> 0xE8"
abbreviation (input) KEY_DEL :: uchar where "KEY_DEL \<equiv> 0xE9"

abbreviation (input) SHIFT :: uint where "SHIFT \<equiv> 1"
abbreviation (input) CTL :: uint where "CTL \<equiv> 2"
abbreviation (input) ALT :: uint where "ALT \<equiv> 4"
abbreviation (input) CAPSLOCK :: uint where "CAPSLOCK \<equiv> 8"
abbreviation (input) NUMLOCK :: uint where "NUMLOCK \<equiv> 16"
abbreviation (input) SCROLLLOCK :: uint where "SCROLLLOCK \<equiv> 32"
abbreviation (input) E0ESC :: uint where "E0ESC \<equiv> 64"

text \<open>A table of 256 entries with positional and designated initialisers; the rest is zero.\<close>

definition ktable :: "uchar list \<Rightarrow> (nat \<times> uchar) list \<Rightarrow> nat \<Rightarrow> uchar" where
  "ktable xs ds k = (case map_of ds k of Some v \<Rightarrow> v | None \<Rightarrow> if k < length xs then xs ! k else 0)"

definition cch :: "char \<Rightarrow> uchar" where
  "cch c = of_char c"

text \<open>\<open>C(x)\<close>: Control-x.\<close>

definition ctrl :: "char \<Rightarrow> uchar" where
  "ctrl x = cch x - cch (CHR ''@'')"

definition shiftcode :: "nat \<Rightarrow> uint" where
  "shiftcode k = (case map_of [(0x1D, CTL), (0x2A, SHIFT), (0x36, SHIFT), (0x38, ALT), (0x9D, CTL), (0xB8, ALT)] k
                  of Some v \<Rightarrow> v | None \<Rightarrow> 0)"

definition togglecode :: "nat \<Rightarrow> uint" where
  "togglecode k = (case map_of [(0x3A, CAPSLOCK), (0x45, NUMLOCK), (0x46, SCROLLLOCK)] k
                   of Some v \<Rightarrow> v | None \<Rightarrow> 0)"

definition arrow_keys :: "(nat \<times> uchar) list" where
  "arrow_keys = [(0xC8, KEY_UP), (0xD0, KEY_DN), (0xC9, KEY_PGUP), (0xD1, KEY_PGDN), (0xCB, KEY_LF),
     (0xCD, KEY_RT), (0x97, KEY_HOME), (0xCF, KEY_END), (0xD2, KEY_INS), (0xD3, KEY_DEL)]"

definition keypad_rows :: "uchar list" where
  "keypad_rows = [0, cch (CHR '' ''), 0, 0, 0, 0, 0, 0] @ replicate 7 0 @ map cch ''789-456+1230.'' @ replicate 4 0"

definition normalmap :: "nat \<Rightarrow> uchar" where
  "normalmap = ktable
     ([0, 0x1B] @ map cch ''1234567890-='' @ [8, 9] @
      map cch ''qwertyuiop[]'' @ [10, 0] @ map cch ''asdfghjkl;'' @ [0x27] @ map cch ''`'' @ [0] @ [0x5C] @
      map cch ''zxcvbnm,./'' @ [0] @ map cch ''*'' @ keypad_rows)
     ([(0x9C, 10), (0xB5, cch (CHR ''/''))] @ arrow_keys)"

definition shiftmap :: "nat \<Rightarrow> uchar" where
  "shiftmap = ktable
     ([0, 27] @ map cch ''!@#$%^&*()_+'' @ [8, 9] @
      map cch ''QWERTYUIOP{}'' @ [10, 0] @ map cch ''ASDFGHJKL:'' @ [0x22] @ map cch ''~'' @ [0] @ map cch ''|'' @
      map cch ''ZXCVBNM<>?'' @ [0] @ map cch ''*'' @ keypad_rows)
     ([(0x9C, 10), (0xB5, cch (CHR ''/''))] @ arrow_keys)"

definition ctlmap :: "nat \<Rightarrow> uchar" where
  "ctlmap = ktable
     (replicate 16 0 @ map ctrl ''QWERTYUIOP'' @ [0, 0, 13, 0] @ map ctrl ''ASDFGHJKL'' @ [0] @
      [0, 0, 0, ctrl (CHR 0x5C)] @ map ctrl ''ZXCVBNM'' @ [0, 0, ctrl (CHR ''/''), 0, 0])
     ([(0x9C, 13), (0xB5, ctrl (CHR ''/''))] @ arrow_keys)"

record kbd =
  kshift :: uint
  kqueue :: "uchar list"

definition charcode :: "uint \<Rightarrow> nat \<Rightarrow> uchar" where
  "charcode k = [normalmap, shiftmap, ctlmap, ctlmap] ! unat k"

definition capslock :: "uint \<Rightarrow> uint" where
  "capslock c =
     (if ucast (cch (CHR ''a'')) \<le> c \<and> c \<le> ucast (cch (CHR ''z'')) then c + (65 - 97)
      else if ucast (cch (CHR ''A'')) \<le> c \<and> c \<le> ucast (cch (CHR ''Z'')) then c + (97 - 65)
      else c)"

text \<open>The status port has \<open>KBS_DIB\<close> set exactly when a scan code waits; \<open>None\<close> is the result -1.\<close>

definition kbdgetc :: "kbd \<Rightarrow> kbd \<times> uint option" where
  "kbdgetc k =
     (case kqueue k of
        [] \<Rightarrow> (k, None)
      | d # q \<Rightarrow>
          let data = ucast d :: uint; shift = kshift k; k = k\<lparr>kqueue := q\<rparr>
          in if data = 0xE0 then (k\<lparr>kshift := shift OR E0ESC\<rparr>, Some 0)
             else if data AND 0x80 \<noteq> 0 then
               let data = (if shift AND E0ESC \<noteq> 0 then data else data AND 0x7F)
               in (k\<lparr>kshift := shift AND NOT (shiftcode (unat data) OR E0ESC)\<rparr>, Some 0)
             else
               let (data, shift) = (if shift AND E0ESC \<noteq> 0 then (data OR 0x80, shift AND NOT E0ESC)
                                    else (data, shift));
                   shift = shift OR shiftcode (unat data);
                   shift = shift XOR togglecode (unat data);
                   c = ucast (charcode (shift AND (CTL OR SHIFT)) (unat data)) :: uint;
                   c = (if shift AND CAPSLOCK \<noteq> 0 then capslock c else c)
               in (k\<lparr>kshift := shift\<rparr>, Some c))"

section \<open>Serial port and screen\<close>

record uart =
  upresent :: bool
  urx :: "uchar list"
  utx :: "uchar list"

text \<open>Waiting for the transmitter changes nothing: after 128 polls the byte is written anyway.\<close>

definition uartputc :: "uchar \<Rightarrow> uart \<Rightarrow> uart" where
  "uartputc c u = (if \<not> upresent u then u else u\<lparr>utx := utx u @ [c]\<rparr>)"

definition uartgetc :: "uart \<Rightarrow> uart \<times> uint option" where
  "uartgetc u =
     (if \<not> upresent u then (u, None)
      else case urx u of [] \<Rightarrow> (u, None) | c # q \<Rightarrow> (u\<lparr>urx := q\<rparr>, Some (ucast c)))"

text \<open>The text screen: the cells of the display memory and the cursor register of the controller.\<close>

record cga =
  crt :: "ushort list"
  cursor :: ushort

abbreviation (input) BACKSPACE :: int where "BACKSPACE \<equiv> 0x100"

definition crt_put :: "int \<Rightarrow> ushort \<Rightarrow> ushort list \<Rightarrow> ushort list res" where
  "crt_put pos v cs = (if 0 \<le> pos \<and> nat pos < length cs then Ok (cs[nat pos := v]) else Fault ''crt'')"

text \<open>Scrolling: the rows move up by one and the cells from the cursor to the end of row 23 are cleared.\<close>

definition crt_scroll :: "int \<Rightarrow> ushort list \<Rightarrow> ushort list res" where
  "crt_scroll pos cs =
     (if 24 * 80 \<le> length cs \<and> pos \<le> 24 * 80
      then let cs = take (23 * 80) (drop 80 cs) @ drop (23 * 80) cs
           in Ok (take (nat pos) cs @ replicate (24 * 80 - nat pos) 0 @ drop (24 * 80) cs)
      else Fault ''crt'')"

definition cgaputc :: "int \<Rightarrow> cga \<Rightarrow> cga res" where
  "cgaputc c g =
     (let pos = uint (cursor g)
      in rbind (if c = 10 then Ok (crt g, pos + (80 - pos mod 80))
                else if c = BACKSPACE then Ok (crt g, if pos > 0 then pos - 1 else pos)
                else rbind (crt_put pos ((word_of_int c AND 0xff) OR 0x0700) (crt g)) (\<lambda>cs. Ok (cs, pos + 1)))
         (\<lambda>(cs, pos).
         rbind (if pos div 80 \<ge> 24 then rbind (crt_scroll (pos - 80) cs) (\<lambda>cs. Ok (cs, pos - 80)) else Ok (cs, pos))
         (\<lambda>(cs, pos).
         rbind (crt_put pos (ucast (cch (CHR '' '')) OR 0x0700) cs) (\<lambda>cs.
         Ok (g\<lparr>crt := cs, cursor := word_of_int pos\<rparr>)))))"

section \<open>The console\<close>

abbreviation (input) INPUT_BUF :: nat where "INPUT_BUF \<equiv> 128"

record console =
  panicked :: bool
  cuart :: uart
  ccga :: cga
  inputlock :: spinlock
  ibuf :: "uchar list"
  ir :: uint
  iw :: uint
  ie :: uint
  iwakes :: "chan list"

text \<open>After a panic every processor that prints hangs.\<close>

definition consputc :: "int \<Rightarrow> console \<Rightarrow> console res" where
  "consputc c s =
     (if panicked s then Panic ''panicked''
      else let u = cuart s;
               u = (if c = BACKSPACE then uartputc 8 (uartputc (cch (CHR '' '')) (uartputc 8 u))
                    else uartputc (word_of_int c) u)
           in rbind (cgaputc c (ccga s)) (\<lambda>g. Ok (s\<lparr>cuart := u, ccga := g\<rparr>)))"

fun consputs :: "uchar list \<Rightarrow> console \<Rightarrow> console res" where
  "consputs [] s = Ok s"
| "consputs (c # cs) s = rbind (consputc (uint c) s) (consputs cs)"

text \<open>Kill line: at most the 128 characters of the buffer are deleted.\<close>

primrec kill_line :: "nat \<Rightarrow> console \<Rightarrow> console res" where
  "kill_line 0 s = Ok s"
| "kill_line (Suc k) s =
     (if ie s \<noteq> iw s \<and> ibuf s ! slot INPUT_BUF (ie s - 1) \<noteq> 10
      then rbind (consputc BACKSPACE (s\<lparr>ie := ie s - 1\<rparr>)) (kill_line k)
      else Ok s)"

text \<open>\<open>dump\<close> is the text \<open>procdump\<close> prints.\<close>

definition console_key :: "uchar list \<Rightarrow> uint \<Rightarrow> console \<Rightarrow> console res" where
  "console_key dump c s =
     (if c = ucast (ctrl (CHR ''P'')) then consputs dump s
      else if c = ucast (ctrl (CHR ''U'')) then kill_line INPUT_BUF s
      else if c = ucast (ctrl (CHR ''H'')) \<or> c = 0x7f then
        if ie s \<noteq> iw s then consputc BACKSPACE (s\<lparr>ie := ie s - 1\<rparr>) else Ok s
      else if c \<noteq> 0 \<and> ie s - ir s < of_nat INPUT_BUF then
        let c = (if c = 13 then 10 else c);
            s = s\<lparr>ibuf := (ibuf s)[slot INPUT_BUF (ie s) := ucast c], ie := ie s + 1\<rparr>
        in rbind (consputc (uint c) s) (\<lambda>s.
           if c = 10 \<or> c = ucast (ctrl (CHR ''D'')) \<or> ie s = ir s + of_nat INPUT_BUF
           then Ok (s\<lparr>iw := ie s, iwakes := iwakes s @ [ChInput]\<rparr>)
           else Ok s)
      else Ok s)"

text \<open>The characters \<open>getc\<close> returns before it returns a negative number.\<close>

fun consoleintr :: "uchar list \<Rightarrow> uint list \<Rightarrow> console \<Rightarrow> console res" where
  "consoleintr dump [] s = Ok s"
| "consoleintr dump (c # cs) s = rbind (console_key dump c s) (consoleintr dump cs)"

fun kbd_drain :: "nat \<Rightarrow> kbd \<Rightarrow> kbd \<times> uint list" where
  "kbd_drain 0 k = (k, [])"
| "kbd_drain (Suc n) k =
     (case kbdgetc k of
        (k, None) \<Rightarrow> (k, [])
      | (k, Some c) \<Rightarrow> let (k, cs) = kbd_drain n k in (k, c # cs))"

definition kbdintr :: "uchar list \<Rightarrow> kbd \<Rightarrow> console \<Rightarrow> (kbd \<times> console) res" where
  "kbdintr dump k s =
     (let (k, cs) = kbd_drain (Suc (length (kqueue k))) k
      in rbind (consoleintr dump cs s) (\<lambda>s. Ok (k, s)))"

text \<open>
  The part of \<open>consoleread\<close> under \<open>input.lock\<close>. \<open>n\<close> is what is left of the \<open>target\<close>; the outcome
  has the bytes stored so far and either how \<open>consoleread\<close> goes on or that it sleeps with \<open>n\<close> left.
\<close>

datatype cons_out = CDone | CKilled | CSleep

primrec consoleread_loop :: "bool \<Rightarrow> int \<Rightarrow> nat \<Rightarrow> console \<Rightarrow> console \<times> uchar list \<times> nat \<times> cons_out" where
  "consoleread_loop killed target 0 s = (s, [], 0, CDone)"
| "consoleread_loop killed target (Suc n) s =
     (if ir s = iw s then (s, [], Suc n, if killed then CKilled else CSleep)
      else let c = ibuf s ! slot INPUT_BUF (ir s); s = s\<lparr>ir := ir s + 1\<rparr>
           in if c = ctrl (CHR ''D'') then
                (if int (Suc n) < target then s\<lparr>ir := ir s - 1\<rparr> else s, [], Suc n, CDone)
              else if c = 10 then (s, [c], n, CDone)
              else let (s, cs, m, out) = consoleread_loop killed target n s in (s, c # cs, m, out))"

fun consolewrite_loop :: "uchar list \<Rightarrow> console \<Rightarrow> console res" where
  "consolewrite_loop [] s = Ok s"
| "consolewrite_loop (c # cs) s = rbind (consputc (uint c) s) (consolewrite_loop cs)"

section \<open>The screen stays in bounds\<close>

definition cga_ok :: "cga \<Rightarrow> bool" where
  "cga_ok g \<longleftrightarrow> 24 * 80 \<le> length (crt g) \<and> uint (cursor g) < 24 * 80"

lemma crt_put_ok:
  "0 \<le> pos \<Longrightarrow> nat pos < length cs \<Longrightarrow> crt_put pos v cs = Ok (cs[nat pos := v])"
  by (simp add: crt_put_def)

lemma splice_bounds:
  assumes "p \<le> n" "n \<le> length cs"
  shows "length (take p cs @ replicate (n - p) x @ drop n cs) = length cs"
    "drop n (take p cs @ replicate (n - p) x @ drop n cs) = drop n cs"
  using assms by simp_all

lemma crt_scroll_ok:
  assumes "24 * 80 \<le> length cs" "0 \<le> pos" "pos \<le> 24 * 80"
  shows "\<exists>cs'. crt_scroll pos cs = Ok cs' \<and> length cs' = length cs \<and> drop (24 * 80) cs' = drop (24 * 80) cs"
proof -
  define up where "up = take (23 * 80) (drop 80 cs) @ drop (23 * 80) cs"
  have up: "length up = length cs" "drop (24 * 80) up = drop (24 * 80) cs"
    using assms(1) by (simp_all add: up_def)
  have "nat pos \<le> 24 * 80" using assms(2,3) by linarith
  from splice_bounds [OF this, of up 0] have
    "length (take (nat pos) up @ replicate (24 * 80 - nat pos) 0 @ drop (24 * 80) up) = length cs"
    "drop (24 * 80) (take (nat pos) up @ replicate (24 * 80 - nat pos) 0 @ drop (24 * 80) up) = drop (24 * 80) cs"
    using up assms(1) by simp_all
  then show ?thesis using assms by (simp only: crt_scroll_def Let_def up_def [symmetric]) simp
qed

lemma pos_newline:
  assumes "0 \<le> (pos::int)" "pos < 24 * 80"
  shows "pos < pos + (80 - pos mod 80) \<and> pos + (80 - pos mod 80) \<le> 24 * 80"
proof -
  have "pos = 80 * (pos div 80) + pos mod 80" "0 \<le> pos mod 80" "pos mod 80 < 80" by simp_all
  moreover have "pos div 80 < 24" using assms by linarith
  ultimately show ?thesis by linarith
qed

lemma row_bounds: "24 \<le> (p::int) div 80 \<longleftrightarrow> 24 * 80 \<le> p"
  by linarith

lemma cgaputc_ok:
  assumes "cga_ok g"
  shows "\<exists>g'. cgaputc c g = Ok g' \<and> cga_ok g' \<and> length (crt g') = length (crt g) \<and>
    drop (24 * 80) (crt g') = drop (24 * 80) (crt g)"
proof -
  define pos where "pos = uint (cursor g)"
  have pos: "0 \<le> pos" "pos < 24 * 80" and len: "24 * 80 \<le> length (crt g)"
    using assms by (simp_all add: cga_ok_def pos_def)
  define first where "first =
    (if c = 10 then Ok (crt g, pos + (80 - pos mod 80))
     else if c = BACKSPACE then Ok (crt g, if pos > 0 then pos - 1 else pos)
     else rbind (crt_put pos ((word_of_int c AND 0xff) OR 0x0700) (crt g)) (\<lambda>cs. Ok (cs, pos + 1)))"
  have "\<exists>cs p. first = Ok (cs, p) \<and> 0 \<le> p \<and> p \<le> 24 * 80 \<and> length cs = length (crt g) \<and>
      drop (24 * 80) cs = drop (24 * 80) (crt g)"
    using pos len pos_newline [OF pos] by (auto simp: first_def crt_put_ok)
  then obtain cs p where f: "first = Ok (cs, p)" "0 \<le> p" "p \<le> 24 * 80" "length cs = length (crt g)"
    "drop (24 * 80) cs = drop (24 * 80) (crt g)" by blast
  have "\<exists>cs' p'. (if p div 80 \<ge> 24 then rbind (crt_scroll (p - 80) cs) (\<lambda>cs. Ok (cs, p - 80)) else Ok (cs, p)) = Ok (cs', p') \<and>
      0 \<le> p' \<and> p' < 24 * 80 \<and> length cs' = length (crt g) \<and> drop (24 * 80) cs' = drop (24 * 80) (crt g)"
  proof (cases "p div 80 \<ge> 24")
    case True
    then have "80 \<le> p" by (simp add: row_bounds)
    then show ?thesis using True f len crt_scroll_ok [of cs "p - 80"] by auto
  next
    case False
    then have "p < 24 * 80" by (simp add: row_bounds)
    then show ?thesis using False f by simp
  qed
  then obtain cs' p' where s: "(if p div 80 \<ge> 24 then rbind (crt_scroll (p - 80) cs) (\<lambda>cs. Ok (cs, p - 80)) else Ok (cs, p)) = Ok (cs', p')"
    "0 \<le> p'" "p' < 24 * 80" "length cs' = length (crt g)" "drop (24 * 80) cs' = drop (24 * 80) (crt g)" by blast
  have "cgaputc c g = Ok (g\<lparr>crt := cs'[nat p' := ucast (cch (CHR '' '')) OR 0x0700], cursor := word_of_int p'\<rparr>)"
    using f s len unfolding cgaputc_def Let_def pos_def [symmetric] first_def [symmetric]
    by (simp only: rbind.simps prod.case s(1)) (simp add: crt_put_ok)
  then show ?thesis
    using s(2-5) len by (simp add: cga_ok_def uint_word_of_int)
qed

text \<open>C35: Writing any character to the screen keeps the cursor in the 24 rows of text, and every store to
  the display memory, also those of scrolling, falls into these rows.\<close>

theorem cgaputc_bounds:
  assumes "cga_ok g"
  shows "\<exists>g'. cgaputc c g = Ok g' \<and> cga_ok g' \<and> length (crt g') = length (crt g) \<and>
    drop (24 * 80) (crt g') = drop (24 * 80) (crt g)"
  using assms by (rule cgaputc_ok)

theorem cgaputc_bounds_witness:
  "cga_ok \<lparr>crt = replicate 2000 0, cursor = 1919\<rparr> \<and>
   (\<exists>g'. cgaputc 65 \<lparr>crt = replicate 2000 0, cursor = 1919\<rparr> = Ok g' \<and> cga_ok g' \<and>
         drop (24 * 80) (crt g') = replicate 80 0)"
proof -
  have "cga_ok \<lparr>crt = replicate 2000 0, cursor = 1919\<rparr>" by (simp add: cga_ok_def)
  from cgaputc_bounds [OF this, of 65] this show ?thesis by auto
qed

section \<open>The line discipline as two lists\<close>

interpretation iring: ring_buffer INPUT_BUF
  by unfold_locales simp_all

text \<open>All bytes in the buffer; the first \<open>input.w - input.r\<close> of them are finished input.\<close>

definition input_bytes :: "console \<Rightarrow> uchar list" where
  "input_bytes s = ring_bytes INPUT_BUF (ibuf s) (ir s) (ie s)"

definition finished :: "console \<Rightarrow> uchar list" where
  "finished s = take (unat (iw s - ir s)) (input_bytes s)"

definition edited :: "console \<Rightarrow> uchar list" where
  "edited s = drop (unat (iw s - ir s)) (input_bytes s)"

definition cons_ok :: "console \<Rightarrow> bool" where
  "cons_ok s \<longleftrightarrow> \<not> panicked s \<and> cga_ok (ccga s) \<and> length (ibuf s) = INPUT_BUF \<and>
     unat (ie s - ir s) \<le> INPUT_BUF \<and> unat (iw s - ir s) \<le> unat (ie s - ir s)"

definition cons_inv :: "console \<Rightarrow> bool" where
  "cons_inv s \<longleftrightarrow> cons_ok s \<and> 10 \<notin> set (edited s)"

definition line_key :: "uint \<Rightarrow> uchar list \<times> uchar list \<Rightarrow> uchar list \<times> uchar list" where
  "line_key c st =
     (let (done, line) = st
      in if c = ucast (ctrl (CHR ''P'')) then (done, line)
         else if c = ucast (ctrl (CHR ''U'')) then (done, [])
         else if c = ucast (ctrl (CHR ''H'')) \<or> c = 0x7f then (done, butlast line)
         else if c \<noteq> 0 \<and> length done + length line < INPUT_BUF then
           let b = (if c = 13 then 10 else ucast c)
           in if b = 10 \<or> b = ctrl (CHR ''D'') \<or> Suc (length done + length line) = INPUT_BUF
              then (done @ line @ [b], []) else (done, line @ [b])
         else (done, line))"

text \<open>
  What a reader that wants \<open>n\<close> more bytes of \<open>target\<close> gets from the finished input: the rest of the
  input, the bytes, what is still wanted, and how it went.
\<close>

definition line_read :: "bool \<Rightarrow> int \<Rightarrow> nat \<Rightarrow> uchar list \<Rightarrow> uchar list \<times> uchar list \<times> nat \<times> cons_out" where
  "line_read killed target n done =
     (let line = takeWhile (\<lambda>c. c \<noteq> 10 \<and> c \<noteq> ctrl (CHR ''D'')) done
      in if n \<le> length line then (drop n done, take n line, 0, CDone)
         else case drop (length line) done of
                [] \<Rightarrow> ([], line, n - length line, if killed then CKilled else CSleep)
              | c # rest \<Rightarrow>
                  if c = 10 then (rest, line @ [10], n - length line - 1, CDone)
                  else (if int (n - length line) < target then c # rest else rest, line, n - length line, CDone))"

lemma input_length [simp]: "length (input_bytes s) = unat (ie s - ir s)"
  by (simp add: input_bytes_def)

lemma finished_edited: "finished s @ edited s = input_bytes s"
  by (simp add: finished_def edited_def)

lemma edited_empty_iff:
  assumes "unat (iw s - ir s) \<le> unat (ie s - ir s)"
  shows "edited s = [] \<longleftrightarrow> ie s = iw s"
proof -
  have "edited s = [] \<longleftrightarrow> unat (ie s - ir s) = unat (iw s - ir s)"
    using assms by (simp add: edited_def)
  also have "\<dots> \<longleftrightarrow> ie s - ir s = iw s - ir s" by (rule word_eq_iff_unsigned [symmetric])
  also have "\<dots> \<longleftrightarrow> ie s = iw s" by simp
  finally show ?thesis .
qed

lemma finished_empty_iff:
  assumes "unat (iw s - ir s) \<le> unat (ie s - ir s)"
  shows "finished s = [] \<longleftrightarrow> ir s = iw s"
proof -
  have "finished s = [] \<longleftrightarrow> unat (iw s - ir s) = 0"
    using assms by (auto simp: finished_def simp flip: length_0_conv)
  also have "\<dots> \<longleftrightarrow> ir s = iw s" by (auto simp: unsigned_eq_0_iff)
  finally show ?thesis .
qed

text \<open>\<open>consputc\<close> only writes to the devices.\<close>

lemma consputc_ok:
  assumes "\<not> panicked s" "cga_ok (ccga s)"
  shows "\<exists>u g. consputc c s = Ok (s\<lparr>cuart := u, ccga := g\<rparr>) \<and> cga_ok g"
proof -
  from cgaputc_ok [OF assms(2), of c] obtain g where "cgaputc c (ccga s) = Ok g" "cga_ok g" by blast
  then show ?thesis using assms(1) by (auto simp: consputc_def Let_def)
qed

lemma input_bytes_devices [simp]:
  "input_bytes (s\<lparr>cuart := u, ccga := g\<rparr>) = input_bytes s" "finished (s\<lparr>cuart := u, ccga := g\<rparr>) = finished s"
  "edited (s\<lparr>cuart := u, ccga := g\<rparr>) = edited s"
  by (simp_all add: input_bytes_def finished_def edited_def)

lemma cons_inv_devices: "cons_inv s \<Longrightarrow> cga_ok g \<Longrightarrow> cons_inv (s\<lparr>cuart := u, ccga := g\<rparr>)"
  by (simp add: cons_inv_def cons_ok_def)

lemma consputc_inv:
  assumes "cons_inv s"
  shows "\<exists>s'. consputc c s = Ok s' \<and> cons_inv s' \<and> finished s' = finished s \<and> edited s' = edited s \<and>
    ie s' = ie s \<and> iw s' = iw s \<and> ir s' = ir s \<and> ibuf s' = ibuf s"
  using consputc_ok [of s c] assms cons_inv_devices [OF assms] by (fastforce simp: cons_inv_def cons_ok_def)

lemma consputs_inv:
  "cons_inv s \<Longrightarrow> \<exists>s'. consputs cs s = Ok s' \<and> cons_inv s' \<and> finished s' = finished s \<and> edited s' = edited s"
proof (induction cs arbitrary: s)
  case (Cons c cs)
  from consputc_inv [OF Cons.prems, of "uint c"] Cons.IH show ?case by (metis consputs.simps(2) rbind.simps(1))
qed auto

lemma cons_erase:
  assumes "cons_inv s" "ie s \<noteq> iw s"
  shows "cons_inv (s\<lparr>ie := ie s - 1\<rparr>)" "finished (s\<lparr>ie := ie s - 1\<rparr>) = finished s"
    "edited (s\<lparr>ie := ie s - 1\<rparr>) = butlast (edited s)"
proof -
  have le: "unat (iw s - ir s) \<le> unat (ie s - ir s)" using assms(1) by (simp add: cons_inv_def cons_ok_def)
  have ne: "edited s \<noteq> []" using assms edited_empty_iff [OF le] by simp
  then have lt: "unat (iw s - ir s) < unat (ie s - ir s)" by (simp add: edited_def)
  then have "ir s \<noteq> ie s" by auto
  then have b: "input_bytes (s\<lparr>ie := ie s - 1\<rparr>) = butlast (input_bytes s)"
    by (simp add: input_bytes_def iring.ring_unput(1))
  have n: "unat (ie s - 1 - ir s) = unat (ie s - ir s) - 1"
    using arg_cong [OF b, of length] by simp
  show f: "finished (s\<lparr>ie := ie s - 1\<rparr>) = finished s"
    using b lt by (simp add: finished_def take_butlast)
  show e: "edited (s\<lparr>ie := ie s - 1\<rparr>) = butlast (edited s)"
    using b by (simp add: edited_def butlast_drop)
  show "cons_inv (s\<lparr>ie := ie s - 1\<rparr>)"
    using assms(1) e n lt by (auto simp: cons_inv_def cons_ok_def dest: in_set_butlastD)
qed

lemma edited_last:
  assumes "cons_inv s" "ie s \<noteq> iw s"
  shows "ibuf s ! slot INPUT_BUF (ie s - 1) = last (edited s)" "edited s \<noteq> []"
proof -
  have le: "unat (iw s - ir s) \<le> unat (ie s - ir s)" using assms(1) by (simp add: cons_inv_def cons_ok_def)
  show ne: "edited s \<noteq> []" using assms edited_empty_iff [OF le] by simp
  then have "ir s \<noteq> ie s" by (auto simp: edited_def)
  then have "last (input_bytes s) = ibuf s ! slot INPUT_BUF (ie s - 1)"
    unfolding input_bytes_def by (rule iring.ring_unput(2))
  then show "ibuf s ! slot INPUT_BUF (ie s - 1) = last (edited s)"
    using ne finished_edited [of s] by (metis last_appendR)
qed

lemma kill_line_inv:
  "cons_inv s \<Longrightarrow> length (edited s) \<le> k \<Longrightarrow>
     \<exists>s'. kill_line k s = Ok s' \<and> cons_inv s' \<and> finished s' = finished s \<and> edited s' = []"
proof (induction k arbitrary: s)
  case (Suc k)
  have le: "unat (iw s - ir s) \<le> unat (ie s - ir s)" using Suc.prems(1) by (simp add: cons_inv_def cons_ok_def)
  show ?case
  proof (cases "ie s = iw s")
    case True
    then show ?thesis using Suc.prems edited_empty_iff [OF le] by auto
  next
    case False
    note er = cons_erase [OF Suc.prems(1) False] and la = edited_last [OF Suc.prems(1) False]
    have "last (edited s) \<noteq> 10"
      using Suc.prems(1) la(2) last_in_set by (fastforce simp: cons_inv_def cons_ok_def)
    moreover obtain s1 where "consputc BACKSPACE (s\<lparr>ie := ie s - 1\<rparr>) = Ok s1" "cons_inv s1" "finished s1 = finished s"
      "edited s1 = butlast (edited s)"
      using consputc_inv [OF er(1), of BACKSPACE] er by auto
    ultimately show ?thesis
      using Suc.IH [of s1] Suc.prems(2) False la by auto
  qed
qed auto

lemma cons_put:
  fixes b :: uchar
  assumes "cons_ok s" "ie s - ir s < of_nat INPUT_BUF"
  defines "t \<equiv> s\<lparr>ibuf := (ibuf s)[slot INPUT_BUF (ie s) := b], ie := ie s + 1\<rparr>"
  shows "cons_ok t" "finished t = finished s" "edited t = edited s @ [b]"
proof -
  have room: "unat (ie s - ir s) < INPUT_BUF" using assms(2) by (simp add: word_less_nat_alt)
  have le: "unat (iw s - ir s) \<le> unat (ie s - ir s)" and len: "length (ibuf s) = INPUT_BUF"
    using assms(1) by (simp_all add: cons_ok_def)
  have b: "input_bytes t = input_bytes s @ [b]"
    using iring.ring_put [OF len room] by (simp add: input_bytes_def t_def)
  have n: "unat (ie t - ir t) = Suc (unat (ie s - ir s))" using arg_cong [OF b, of length] by simp
  show "finished t = finished s"
    using le b by (simp add: finished_def) (simp add: t_def)
  show e: "edited t = edited s @ [b]"
    using le b by (simp add: edited_def) (simp add: t_def)
  show "cons_ok t"
    using assms(1) n room le by (auto simp: cons_ok_def t_def)
qed

lemma cons_commit:
  assumes "cons_ok s"
  shows "cons_inv (s\<lparr>iw := ie s, iwakes := ws\<rparr>)" "finished (s\<lparr>iw := ie s, iwakes := ws\<rparr>) = finished s @ edited s"
    "edited (s\<lparr>iw := ie s, iwakes := ws\<rparr>) = []"
proof -
  have b: "input_bytes (s\<lparr>iw := ie s, iwakes := ws\<rparr>) = input_bytes s" by (simp add: input_bytes_def)
  then show "finished (s\<lparr>iw := ie s, iwakes := ws\<rparr>) = finished s @ edited s"
    unfolding finished_edited by (simp add: finished_def)
  from b show e: "edited (s\<lparr>iw := ie s, iwakes := ws\<rparr>) = []" by (simp add: edited_def)
  with assms show "cons_inv (s\<lparr>iw := ie s, iwakes := ws\<rparr>)" by (simp add: cons_inv_def cons_ok_def)
qed

lemma finished_edited_length:
  "cons_ok s \<Longrightarrow> length (finished s) + length (edited s) = unat (ie s - ir s)"
  using arg_cong [OF finished_edited [of s], of length] by simp

lemma ctrl_values [simp]:
  "ctrl (CHR ''D'') = 4" "ctrl (CHR ''P'') = 16" "ctrl (CHR ''U'') = 21" "ctrl (CHR ''H'') = 8"
  by (simp_all add: ctrl_def cch_def)

lemma ucast_byte_eq:
  fixes c :: uint and k :: uchar
  assumes "c < 256" shows "ucast c = k \<longleftrightarrow> c = ucast k"
proof
  assume "ucast c = k"
  then have "ucast (ucast c :: uchar) = (ucast k :: uint)" by simp
  moreover have "ucast (ucast c :: uchar) = c"
    using assms by (simp add: word_less_nat_alt unsigned_ucast_eq unsigned_take_bit_eq take_bit_nat_eq_self
        word_unat_eq_iff)
  ultimately show "c = ucast k" by simp
qed (auto intro: bit_word_eqI simp: bit_simps)

lemma console_enter:
  fixes c c' :: uint
  assumes "cons_inv s" "c < 256" "c \<noteq> 0" "ie s - ir s < of_nat INPUT_BUF" "c' = (if c = 13 then 10 else c)"
  defines "t \<equiv> s\<lparr>ibuf := (ibuf s)[slot INPUT_BUF (ie s) := ucast c'], ie := ie s + 1\<rparr>"
  shows "\<exists>s'. rbind (consputc (uint c') t) (\<lambda>s.
           if c' = 10 \<or> c' = ucast (ctrl (CHR ''D'')) \<or> ie s = ir s + of_nat INPUT_BUF
           then Ok (s\<lparr>iw := ie s, iwakes := iwakes s @ [ChInput]\<rparr>)
           else Ok s) = Ok s' \<and> cons_inv s' \<and>
         (if ucast c' = (10 :: uchar) \<or> ucast c' = ctrl (CHR ''D'') \<or>
             Suc (length (finished s) + length (edited s)) = INPUT_BUF
          then finished s' = finished s @ edited s @ [ucast c'] \<and> edited s' = []
          else finished s' = finished s \<and> edited s' = edited s @ [ucast c'])"
proof -
  have ok: "cons_ok s" using assms(1) by (simp add: cons_inv_def)
  note put = cons_put [OF ok assms(4), of "ucast c'", folded t_def]
  obtain u g where u: "consputc (uint c') t = Ok (t\<lparr>cuart := u, ccga := g\<rparr>)" "cga_ok g"
    using consputc_ok [of t "uint c'"] put(1) by (auto simp: cons_ok_def)
  define v where "v = t\<lparr>cuart := u, ccga := g\<rparr>"
  have v: "cons_ok v" "finished v = finished s" "edited v = edited s @ [ucast c']"
    using put u(2) unfolding v_def input_bytes_devices by (simp_all add: cons_ok_def)
  have c': "c' < 256" "ucast c' = (10 :: uchar) \<longleftrightarrow> c' = 10" "ucast c' = (4 :: uchar) \<longleftrightarrow> c' = 4"
    using assms(2,5) ucast_byte_eq [of c'] by (auto split: if_splits)
  have full: "ie v = ir v + of_nat INPUT_BUF \<longleftrightarrow> Suc (length (finished s) + length (edited s)) = INPUT_BUF"
    unfolding iring.ring_full using finished_edited_length [OF v(1)] v(2,3) by simp
  show ?thesis
    using cons_commit [OF v(1), of "iwakes v @ [ChInput]"] v assms(1) full c'
    unfolding u(1) rbind.simps v_def [symmetric] by (auto simp: cons_inv_def)
qed

lemma console_key_refines:
  assumes "cons_inv s" "c < 256"
  shows "\<exists>s'. console_key dump c s = Ok s' \<and> cons_inv s' \<and>
    (finished s', edited s') = line_key c (finished s, edited s)"
proof -
  have ok: "cons_ok s" using assms(1) by (simp add: cons_inv_def)
  then have le: "unat (iw s - ir s) \<le> unat (ie s - ir s)" by (simp add: cons_ok_def)
  have room: "ie s - ir s < of_nat INPUT_BUF \<longleftrightarrow> length (finished s) + length (edited s) < INPUT_BUF"
    using finished_edited_length [OF ok] by (simp add: word_less_nat_alt)
  consider (dump) "c = 16" | (kill) "c = 21" | (erase) "c = 8 \<or> c = 127" and "ie s \<noteq> iw s" | (erase0) "c = 8 \<or> c = 127" and "ie s = iw s"
    | (enter) "c \<notin> {16, 21, 8, 127}" and "c \<noteq> 0" and "ie s - ir s < of_nat INPUT_BUF"
    | (ignore) "c \<notin> {16, 21, 8, 127}" and "\<not> (c \<noteq> 0 \<and> ie s - ir s < of_nat INPUT_BUF)"
    by auto
  then show ?thesis
  proof cases
    case dump
    then show ?thesis using consputs_inv [OF assms(1)] by (auto simp: console_key_def line_key_def)
  next
    case kill
    moreover have "length (edited s) \<le> INPUT_BUF"
      using finished_edited_length [OF ok] ok by (simp add: cons_ok_def)
    ultimately show ?thesis using kill_line_inv [OF assms(1)] by (auto simp: console_key_def line_key_def)
  next
    case erase
    obtain s' where "consputc BACKSPACE (s\<lparr>ie := ie s - 1\<rparr>) = Ok s'" "cons_inv s'" "finished s' = finished s"
      "edited s' = butlast (edited s)"
      using consputc_inv [OF cons_erase(1) [OF assms(1) erase(2)], of BACKSPACE] cons_erase(2,3) [OF assms(1) erase(2)] by auto
    then show ?thesis using erase by (auto simp: console_key_def line_key_def)
  next
    case erase0
    then show ?thesis using edited_empty_iff [OF le] assms(1) by (auto simp: console_key_def line_key_def)
  next
    case enter
    define c' where "c' = (if c = 13 then 10 else c)"
    have k: "console_key dump c s =
        rbind (consputc (uint c') (s\<lparr>ibuf := (ibuf s)[slot INPUT_BUF (ie s) := ucast c'], ie := ie s + 1\<rparr>)) (\<lambda>s.
           if c' = 10 \<or> c' = ucast (ctrl (CHR ''D'')) \<or> ie s = ir s + of_nat INPUT_BUF
           then Ok (s\<lparr>iw := ie s, iwakes := iwakes s @ [ChInput]\<rparr>)
           else Ok s)"
      unfolding console_key_def c'_def Let_def using enter by simp
    have l: "line_key c (finished s, edited s) =
        (if ucast c' = (10 :: uchar) \<or> ucast c' = ctrl (CHR ''D'') \<or> Suc (length (finished s) + length (edited s)) = INPUT_BUF
         then (finished s @ edited s @ [ucast c'], []) else (finished s, edited s @ [ucast c']))"
      unfolding line_key_def c'_def Let_def using enter room by simp
    obtain s' where s': "console_key dump c s = Ok s'" "cons_inv s'"
      and r: "if ucast c' = (10 :: uchar) \<or> ucast c' = ctrl (CHR ''D'') \<or> Suc (length (finished s) + length (edited s)) = INPUT_BUF
         then finished s' = finished s @ edited s @ [ucast c'] \<and> edited s' = []
         else finished s' = finished s \<and> edited s' = edited s @ [ucast c']"
      using console_enter [OF assms enter(2,3) c'_def] unfolding k [symmetric] by blast
    have "(finished s', edited s') = line_key c (finished s, edited s)" unfolding l using r by (simp split: if_splits)
    with s' show ?thesis by blast
  next
    case ignore
    then show ?thesis using assms(1) room by (auto simp: console_key_def line_key_def Let_def)
  qed
qed

lemma cons_get:
  assumes "cons_inv s" "ir s \<noteq> iw s"
  shows "cons_inv (s\<lparr>ir := ir s + 1\<rparr>)" "edited (s\<lparr>ir := ir s + 1\<rparr>) = edited s"
    "finished s = ibuf s ! slot INPUT_BUF (ir s) # finished (s\<lparr>ir := ir s + 1\<rparr>)"
proof -
  have le: "unat (iw s - ir s) \<le> unat (ie s - ir s)" using assms(1) by (simp add: cons_inv_def cons_ok_def)
  have w: "unat (iw s - ir s) = Suc (unat (iw s - (ir s + 1)))"
    using unat_diff_pred [OF assms(2)] by (simp add: diff_diff_add)
  then have "ir s \<noteq> ie s" using le by auto
  then have b: "input_bytes s = ibuf s ! slot INPUT_BUF (ir s) # input_bytes (s\<lparr>ir := ir s + 1\<rparr>)"
    using iring.ring_get by (simp add: input_bytes_def)
  have e: "unat (ie s - ir s) = Suc (unat (ie s - (ir s + 1)))"
    using arg_cong [OF b, of length] by simp
  show f: "finished s = ibuf s ! slot INPUT_BUF (ir s) # finished (s\<lparr>ir := ir s + 1\<rparr>)"
    unfolding finished_def b w by simp
  show ed: "edited (s\<lparr>ir := ir s + 1\<rparr>) = edited s"
    unfolding edited_def b w by simp
  show "cons_inv (s\<lparr>ir := ir s + 1\<rparr>)"
    using assms(1) e w ed by (auto simp: cons_inv_def cons_ok_def)
qed

lemma line_read_Cons:
  "line_read killed target (Suc n) (c # cs) =
     (if c = ctrl (CHR ''D'') then (if int (Suc n) < target then c # cs else cs, [], Suc n, CDone)
      else if c = 10 then (cs, [c], n, CDone)
      else let (rest, bs, m, out) = line_read killed target n cs in (rest, c # bs, m, out))"
  by (auto simp: line_read_def Let_def split: list.splits)

lemma consoleread_refines:
  "cons_inv s \<Longrightarrow> consoleread_loop killed target n s = (s', bs, m, out) \<Longrightarrow>
     cons_inv s' \<and> edited s' = edited s \<and> (finished s', bs, m, out) = line_read killed target n (finished s)"
proof (induction n arbitrary: s bs)
  case 0
  then show ?case by (simp add: line_read_def)
next
  case (Suc n)
  have le: "unat (iw s - ir s) \<le> unat (ie s - ir s)" using Suc.prems(1) by (simp add: cons_inv_def cons_ok_def)
  show ?case
  proof (cases "ir s = iw s")
    case True
    then have "finished s = []" using finished_empty_iff [OF le] by simp
    then show ?thesis using Suc.prems True by (auto simp: line_read_def)
  next
    case False
    note g = cons_get [OF Suc.prems(1) False]
    note lr = line_read_Cons [of killed target n "ibuf s ! slot INPUT_BUF (ir s)" "finished (s\<lparr>ir := ir s + 1\<rparr>)",
        folded g(3)]
    show ?thesis
      using Suc.prems False g Suc.IH [OF g(1)] lr by (auto simp: Let_def split: if_splits prod.splits)
  qed
qed

text \<open>C13: The line discipline: the characters of an interrupt and the reads act on the 128-byte ring
  buffer as the obvious operations on two lists, the finished input and the line being edited. Backspace
  and kill-line never touch finished input, a full buffer ignores further keys, and a reader gets
  at most one line, with an end-of-file mark kept back when it follows other bytes.\<close>

theorem console_line_discipline:
  assumes "cons_inv s" and "c < 256"
  shows "(\<exists>s'. console_key dump c s = Ok s' \<and> cons_inv s' \<and>
            (finished s', edited s') = line_key c (finished s, edited s)) \<and>
         (case consoleread_loop killed target n s of (s', bs, m, out) \<Rightarrow>
            cons_inv s' \<and> edited s' = edited s \<and> (finished s', bs, m, out) = line_read killed target n (finished s))"
  using console_key_refines [OF assms] consoleread_refines [OF assms(1)] by (auto split: prod.splits)

definition cons_boot :: console where
  "cons_boot = \<lparr>panicked = False, cuart = \<lparr>upresent = True, urx = [], utx = []\<rparr>,
     ccga = \<lparr>crt = replicate 2000 0, cursor = 0\<rparr>,
     inputlock = initlock \<lparr>locked = 0, lname = [], lcpu = None, pcs = []\<rparr> ''input'',
     ibuf = replicate INPUT_BUF 0, ir = 0, iw = 0, ie = 0, iwakes = []\<rparr>"

lemma cons_boot_inv: "cons_inv cons_boot" "finished cons_boot = []" "edited cons_boot = []"
  by (simp_all add: cons_inv_def cons_ok_def cga_ok_def cons_boot_def edited_def finished_def input_bytes_def)

theorem console_line_discipline_witness:
  "cons_inv cons_boot \<and> (97 :: uint) < 256 \<and>
   (\<exists>s'. console_key [] 97 cons_boot = Ok s' \<and> cons_inv s' \<and> finished s' = [] \<and> edited s' = [97])"
proof -
  have c: "(97 :: uint) < 256" by simp
  show ?thesis
    using console_line_discipline [OF cons_boot_inv(1) c, of "[]" False 1 1] cons_boot_inv c
    by (auto simp: line_key_def)
qed

section \<open>Keyboard interrupts\<close>

lemma capslock_byte: "c < 256 \<Longrightarrow> capslock c < 256"
proof -
  assume "c < 256"
  moreover have "unat (c + (65 - 97)) = unat c - 32" if "97 \<le> c"
  proof -
    have "c + (65 - 97) = c - 32" by simp
    then show ?thesis using that by (simp add: unat_sub_if' word_le_nat_alt)
  qed
  moreover have "unat (c + (97 - 65)) = unat c + 32" if "c \<le> 90"
    using that by (simp add: unat_word_ariths word_le_nat_alt)
  ultimately show ?thesis
    by (auto simp: capslock_def cch_def word_less_nat_alt word_le_nat_alt)
qed

lemma ucast_uchar_less: "(ucast (b :: uchar) :: uint) < 256"
  using unsigned_less [of b, where 'a = nat] by (simp add: word_less_nat_alt unsigned_ucast_eq take_bit_nat_eq_self)

lemma kbdgetc_byte:
  assumes "kbdgetc k = (k', Some c)"
  shows "c < 256" "kqueue k = [] \<Longrightarrow> False" "kqueue k' = tl (kqueue k)"
proof -
  obtain d q where "kqueue k = d # q" using assms by (cases "kqueue k") (auto simp: kbdgetc_def)
  then show "c < 256" "kqueue k = [] \<Longrightarrow> False" "kqueue k' = tl (kqueue k)"
    using assms capslock_byte [OF ucast_uchar_less] ucast_uchar_less
    by (auto simp: kbdgetc_def Let_def split: if_splits)
qed

lemma kbd_drain_all:
  "length (kqueue k) < n \<Longrightarrow> kbd_drain n k = (k', cs) \<Longrightarrow>
     kqueue k' = [] \<and> length cs = length (kqueue k) \<and> (\<forall>c\<in>set cs. c < 256)"
proof (induction n arbitrary: k cs)
  case (Suc n)
  show ?case
  proof (cases "snd (kbdgetc k)")
    case None
    then have "kqueue k = []" "kbdgetc k = (k, None)"
      by (auto simp: kbdgetc_def Let_def split: list.splits if_splits prod.splits)
    then show ?thesis using Suc.prems by simp
  next
    case (Some c)
    then obtain k1 where k1: "kbdgetc k = (k1, Some c)" by (metis prod.collapse)
    obtain ds where ds: "kbd_drain n k1 = (k', ds)" "cs = c # ds"
      using Suc.prems(2) k1 by (auto simp: Let_def split: prod.splits)
    note b = kbdgetc_byte [OF k1]
    have "length (kqueue k1) < n" using Suc.prems(1) b(2,3) by (cases "kqueue k") auto
    from Suc.IH [OF this ds(1)] show ?thesis using b ds(2) by (cases "kqueue k") auto
  qed
qed simp

lemma consoleintr_refines:
  "cons_inv s \<Longrightarrow> \<forall>c\<in>set cs. c < 256 \<Longrightarrow>
     \<exists>s'. consoleintr dump cs s = Ok s' \<and> cons_inv s' \<and>
       (finished s', edited s') = fold line_key cs (finished s, edited s)"
proof (induction cs arbitrary: s)
  case (Cons c cs)
  then obtain s1 where "console_key dump c s = Ok s1" "cons_inv s1"
    "(finished s1, edited s1) = line_key c (finished s, edited s)"
    using console_key_refines [of s c dump] by auto
  with Cons.IH [of s1] Cons.prems(2) show ?case by simp
qed simp



end
