(* ===== verification/Xv6_Pages.thy ===== *)
theory Xv6_Pages
  imports Xv6_Kalloc
begin

text \<open>
  Page-granular facts on byte memory: which page an address lies in, what a store of a word or a
  \<open>memset\<close> of a page leaves alone, and that stores outside the free pages keep the free list. The
  page-table proofs only use these.
\<close>

section \<open>Pages\<close>

lemma unat_mod_page: "(p :: uint) mod PGSIZE = 0 \<longleftrightarrow> unat p mod 4096 = 0"
  by (simp add: word_eq_iff_unsigned [where 'a = nat] unat_mod)

lemma unat_less_32: "unat (x :: uint) < 2 ^ 32"
  using unsigned_less [of x, where 'a = nat] by simp

lemma unat_add_small: "unat (x :: uint) + unat y < 2 ^ 32 \<Longrightarrow> unat (x + y) = unat x + unat y"
  by (simp add: unat_word_ariths)

lemma unat_less_aligned:
  assumes "(p :: uint) mod PGSIZE = 0" "n < 4096"
  shows "unat p + n < 2 ^ 32"
proof -
  obtain q where q: "unat p = 4096 * q" using assms(1) unfolding unat_mod_page by (auto elim: dvdE simp: mod_eq_0_iff_dvd)
  then have "q < 2 ^ 20" using unat_less_32 [of p] by simp
  then show ?thesis using q assms(2) by simp
qed

lemma in_page_iff:
  assumes "(p :: uint) mod PGSIZE = 0"
  shows "unat (a - p) < 4096 \<longleftrightarrow> PGROUNDDOWN a = p"
proof
  assume o: "unat (a - p) < 4096"
  have "unat (p + (a - p)) = unat p + unat (a - p)"
    using unat_less_aligned [OF assms o] by (rule unat_add_small)
  then have "unat a = unat p + unat (a - p)" by simp
  then have "unat a div 4096 * 4096 = unat p"
    using assms o unfolding unat_mod_page by (auto elim!: dvdE simp: mod_eq_0_iff_dvd)
  then show "PGROUNDDOWN a = p" by (simp add: word_unat_eq_iff unat_PGROUNDDOWN)
next
  assume "PGROUNDDOWN a = p"
  then have p: "unat p = unat a div 4096 * 4096" by (auto simp: unat_PGROUNDDOWN)
  then have "unat (a - p) = unat a - unat a div 4096 * 4096" by (subst unat_diff_less) simp_all
  then show "unat (a - p) < 4096" by (simp add: minus_div_mult_eq_mod)
qed

lemma PGROUNDDOWN_aligned [simp]: "PGROUNDDOWN a mod PGSIZE = 0"
  unfolding unat_mod_page unat_PGROUNDDOWN by simp

lemma PGROUNDDOWN_add:
  assumes "p mod PGSIZE = 0" "unat i < 4096" shows "PGROUNDDOWN (p + i) = p"
  using assms by (simp add: in_page_iff [OF assms(1), symmetric])

lemma PGROUNDDOWN_self [simp]: "p mod PGSIZE = 0 \<Longrightarrow> PGROUNDDOWN p = p"
  using PGROUNDDOWN_add [of p 0] by simp

lemma unat_slot: "(i :: uint) < 1024 \<Longrightarrow> unat b < 4 \<Longrightarrow> unat (4 * i + b) = 4 * unat i + unat b"
  by (simp add: word_less_nat_alt unat_word_ariths)

lemma slot_in_page:
  "p mod PGSIZE = 0 \<Longrightarrow> (i :: uint) < 1024 \<Longrightarrow> unat b < 4 \<Longrightarrow> PGROUNDDOWN (p + 4 * i + b) = p"
  using PGROUNDDOWN_add [of p "4 * i + b"] unat_slot [of i b] by (simp add: word_less_nat_alt add.assoc)

lemma bytes_of_slot: "b \<in> {0, 1, 2, 3 :: uint} \<Longrightarrow> unat b < 4"
  by auto

text \<open>Two memories agree on the page \<open>p\<close>.\<close>

definition same_page :: "mem \<Rightarrow> mem \<Rightarrow> addr \<Rightarrow> bool" where
  "same_page m m' p \<longleftrightarrow> (\<forall>a. PGROUNDDOWN a = p \<longrightarrow> m' a = m a)"

lemma same_page_refl [simp]: "same_page m m p"
  by (simp add: same_page_def)

lemma same_page_trans: "same_page m1 m2 p \<Longrightarrow> same_page m2 m3 p \<Longrightarrow> same_page m1 m3 p"
  by (simp add: same_page_def)

lemma same_page_load:
  assumes "same_page m m' p" "p mod PGSIZE = 0" "i < 1024"
  shows "load32 m' (p + 4 * i) = load32 m (p + 4 * i)"
proof -
  have "m' (p + 4 * i + b) = m (p + 4 * i + b)" if "unat b < 4" for b
    using assms(1) slot_in_page [OF assms(2,3) that] by (simp add: same_page_def)
  from this [of 0] this [of 1] this [of 2] this [of 3] show ?thesis by (simp add: load32_def)
qed

lemma same_page_load0:
  "same_page m m' p \<Longrightarrow> p mod PGSIZE = 0 \<Longrightarrow> load32 m' p = load32 m p"
  using same_page_load [of m m' p 0] by simp

lemma store_same_page:
  assumes "p mod PGSIZE = 0" "i < 1024" "p \<noteq> q"
  shows "same_page m (store32 m (p + 4 * i) v) q"
  unfolding same_page_def
proof (intro allI impI)
  fix a assume a: "PGROUNDDOWN a = q"
  have "4 \<le> unat (a - (p + 4 * i))"
  proof (rule ccontr)
    assume "\<not> 4 \<le> unat (a - (p + 4 * i))"
    then have "PGROUNDDOWN (p + 4 * i + (a - (p + 4 * i))) = p"
      by (intro slot_in_page [OF assms(1,2)]) simp
    with a assms(3) show False by simp
  qed
  then show "store32 m (p + 4 * i) v a = m a" by (rule store32_other)
qed

lemma slots_apart:
  assumes "(i :: uint) < 1024" "j < 1024" "i \<noteq> j"
  shows "4 \<le> unat ((p + 4 * i) - (p + 4 * j))"
proof -
  have u: "unat (4 * i) = 4 * unat i" "unat (4 * j) = 4 * unat j" "unat i < 1024" "unat j < 1024"
    using assms by (simp_all add: word_less_nat_alt unat_word_ariths)
  have "unat i \<noteq> unat j" using assms(3) by (simp add: word_unat_eq_iff)
  moreover have "(p + 4 * i) - (p + 4 * j) = 4 * i - 4 * j" by simp
  ultimately show ?thesis
    using u by (simp only: unat_sub_if') auto
qed

lemma load_store_slot:
  assumes "i < 1024" "j < 1024"
  shows "load32 (store32 m (p + 4 * i) v) (p + 4 * j) = (if i = j then v else load32 m (p + 4 * j))"
  using slots_apart [OF assms] slots_apart [OF assms(2,1)] by (auto intro: load32_store32_other)

lemma memset_page:
  "p mod PGSIZE = 0 \<Longrightarrow> memset m p c PGSIZE a = (if PGROUNDDOWN a = p then ucast c else m a)"
  by (simp add: memset_apply word_less_nat_alt flip: in_page_iff)

lemma memset_same_page: "p mod PGSIZE = 0 \<Longrightarrow> p \<noteq> q \<Longrightarrow> same_page m (memset m p c PGSIZE) q"
  by (simp add: same_page_def memset_page)

lemma load_memset_page:
  assumes "p mod PGSIZE = 0" "i < 1024"
  shows "load32 (memset m p 0 PGSIZE) (p + 4 * i) = 0"
proof -
  have "memset m p 0 PGSIZE (p + 4 * i + b) = 0" if "unat b < 4" for b
    using slot_in_page [OF assms that] by (simp add: memset_page assms(1))
  from this [of 0] this [of 1] this [of 2] this [of 3] show ?thesis
    by (simp add: load32_def word_of_bytes_def)
qed

section \<open>The free list under stores elsewhere\<close>

lemma kmem_rep_same_pages:
  assumes "kmem_rep e k ps" "\<And>p. p \<in> set ps \<Longrightarrow> same_page (kmemory k) m' p"
  shows "kmem_rep e (k\<lparr>kmemory := m'\<rparr>) ps"
proof -
  have "load32 m' p = load32 (kmemory k) p" if "p \<in> set ps" for p
    using assms that by (intro same_page_load0) (auto simp: kmem_rep_def page_ok_def)
  then show ?thesis using assms(1) run_list_frame [of ps m' "kmemory k"] by (simp add: kmem_rep_def)
qed

lemma kmem_rep_store:
  assumes "kmem_rep e k ps" "p mod PGSIZE = 0" "i < 1024" "p \<notin> set ps"
  shows "kmem_rep e (k\<lparr>kmemory := store32 (kmemory k) (p + 4 * i) v\<rparr>) ps"
  using assms by (intro kmem_rep_same_pages store_same_page) auto

lemma kmem_rep_memset:
  assumes "kmem_rep e k ps" "p mod PGSIZE = 0" "p \<notin> set ps"
  shows "kmem_rep e (k\<lparr>kmemory := memset (kmemory k) p c PGSIZE\<rparr>) ps"
  using assms by (intro kmem_rep_same_pages memset_same_page) auto

lemma kfree_same_page:
  assumes "kfree e v k = Ok k'" "p \<noteq> v"
  shows "same_page (kmemory k) (kmemory k') p"
  unfolding same_page_def
proof (intro allI impI)
  fix a assume a: "PGROUNDDOWN a = p"
  have "v mod PGSIZE = 0" using kfree_memory(3) [OF assms(1)] by (simp add: page_ok_def)
  then have "4096 \<le> unat (a - v)" using in_page_iff [of v a] a assms(2) by simp
  then show "kmemory k' a = kmemory k a" by (rule kfree_frame [OF assms(1)])
qed

end
