(* ===== verification/Xv6_Vm.thy ===== *)
theory Xv6_Vm
  imports Xv6_Kalloc
begin

text \<open>
  \<^verbatim>\<open>vm.c\<close> and the paging part of \<^verbatim>\<open>mmu.h\<close>: two-level page tables kept in pages of the allocator.
  A page directory is the kernel address of its page; everything happens in the byte memory of
  \<open>kmem\<close>. \<open>e\<close> is the linker symbol \<open>end\<close> and \<open>dt\<close> the linker symbol \<open>data\<close>. A null pointer is
  the address 0, and reading through one is a fault.
\<close>

section \<open>mmu.h\<close>

abbreviation (input) PTE_P :: uint where "PTE_P \<equiv> 0x001"
abbreviation (input) PTE_W :: uint where "PTE_W \<equiv> 0x002"
abbreviation (input) PTE_U :: uint where "PTE_U \<equiv> 0x004"
abbreviation (input) NPDENTRIES :: nat where "NPDENTRIES \<equiv> 1024"
abbreviation (input) NPTENTRIES :: uint where "NPTENTRIES \<equiv> 1024"
abbreviation (input) EXTMEM :: uint where "EXTMEM \<equiv> 0x100000"
abbreviation (input) DEVSPACE :: uint where "DEVSPACE \<equiv> 0xFE000000"
abbreviation (input) KERNLINK :: uint where "KERNLINK \<equiv> KERNBASE + EXTMEM"

definition PDX :: "uint \<Rightarrow> uint" where
  "PDX va = drop_bit 22 va AND 0x3FF"

definition PTX :: "uint \<Rightarrow> uint" where
  "PTX va = drop_bit 12 va AND 0x3FF"

definition PTE_ADDR :: "uint \<Rightarrow> uint" where
  "PTE_ADDR pte = pte AND NOT 0xFFF"

definition PTE_FLAGS :: "uint \<Rightarrow> uint" where
  "PTE_FLAGS pte = pte AND 0xFFF"

section \<open>vm.c\<close>

text \<open>\<open>*p\<close> and \<open>*p = v\<close> for a word pointer into the memory of the allocator.\<close>

definition kload :: "kmem \<Rightarrow> addr \<Rightarrow> uint" where
  "kload k a = load32 (kmemory k) a"

definition kstore :: "addr \<Rightarrow> uint \<Rightarrow> kmem \<Rightarrow> kmem" where
  "kstore a v k = k\<lparr>kmemory := store32 (kmemory k) a v\<rparr>"

definition kmemset :: "addr \<Rightarrow> uint \<Rightarrow> uint \<Rightarrow> kmem \<Rightarrow> kmem" where
  "kmemset a c n k = k\<lparr>kmemory := memset (kmemory k) a c n\<rparr>"

definition kmemmove :: "addr \<Rightarrow> addr \<Rightarrow> uint \<Rightarrow> kmem \<Rightarrow> kmem" where
  "kmemmove d s n k = k\<lparr>kmemory := memmove (kmemory k) d s n\<rparr>"

definition walkpgdir :: "addr \<Rightarrow> uint \<Rightarrow> bool \<Rightarrow> kmem \<Rightarrow> addr \<times> kmem" where
  "walkpgdir pgdir va al k =
     (let pde = pgdir + 4 * PDX va
      in if kload k pde AND PTE_P \<noteq> 0 then (p2v (PTE_ADDR (kload k pde)) + 4 * PTX va, k)
         else if \<not> al then (0, k)
         else let (pgtab, k) = kalloc k
              in if pgtab = 0 then (0, k)
                 else let k = kmemset pgtab 0 PGSIZE k;
                          k = kstore pde (v2p pgtab OR PTE_P OR PTE_W OR PTE_U) k
                      in (pgtab + 4 * PTX va, k))"

text \<open>The fuel counts the pages from \<open>a\<close> to \<open>lst\<close>; it never runs out on page-aligned addresses.\<close>

primrec mappages_loop :: "nat \<Rightarrow> addr \<Rightarrow> uint \<Rightarrow> uint \<Rightarrow> uint \<Rightarrow> uint \<Rightarrow> kmem \<Rightarrow> (int \<times> kmem) res" where
  "mappages_loop 0 pgdir a lst pa perm k = Fault ''loop''"
| "mappages_loop (Suc n) pgdir a lst pa perm k =
     (let (pte, k) = walkpgdir pgdir a True k
      in if pte = 0 then Ok (- 1, k)
         else if kload k pte AND PTE_P \<noteq> 0 then Panic ''remap''
         else let k = kstore pte (pa OR perm OR PTE_P) k
              in if a = lst then Ok (0, k)
                 else mappages_loop n pgdir (a + PGSIZE) lst (pa + PGSIZE) perm k)"

definition mappages :: "addr \<Rightarrow> uint \<Rightarrow> uint \<Rightarrow> uint \<Rightarrow> uint \<Rightarrow> kmem \<Rightarrow> (int \<times> kmem) res" where
  "mappages pgdir va sz pa perm k =
     (let a = PGROUNDDOWN va; lst = PGROUNDDOWN (va + sz - 1)
      in mappages_loop (Suc (unat (lst - a) div 4096)) pgdir a lst pa perm k)"

record kmap =
  virt :: uint
  phys_start :: uint
  phys_end :: uint
  kperm :: uint

definition kmap_table :: "uint \<Rightarrow> kmap list" where
  "kmap_table dt =
     [\<lparr>virt = KERNBASE, phys_start = 0, phys_end = EXTMEM, kperm = PTE_W\<rparr>,
      \<lparr>virt = KERNLINK, phys_start = v2p KERNLINK, phys_end = v2p dt, kperm = 0\<rparr>,
      \<lparr>virt = dt, phys_start = v2p dt, phys_end = PHYSTOP, kperm = PTE_W\<rparr>,
      \<lparr>virt = DEVSPACE, phys_start = DEVSPACE, phys_end = 0, kperm = PTE_W\<rparr>]"

fun setupkvm_loop :: "addr \<Rightarrow> kmap list \<Rightarrow> kmem \<Rightarrow> (addr \<times> kmem) res" where
  "setupkvm_loop pgdir [] k = Ok (pgdir, k)"
| "setupkvm_loop pgdir (km # kms) k =
     rbind (mappages pgdir (virt km) (phys_end km - phys_start km) (phys_start km) (kperm km) k)
       (\<lambda>(r, k). if r < 0 then Ok (0, k) else setupkvm_loop pgdir kms k)"

definition setupkvm :: "uint \<Rightarrow> kmem \<Rightarrow> (addr \<times> kmem) res" where
  "setupkvm dt k =
     (let (pgdir, k) = kalloc k
      in if pgdir = 0 then Ok (0, k)
         else let k = kmemset pgdir 0 PGSIZE k
              in if p2v PHYSTOP > DEVSPACE then Panic ''PHYSTOP too high''
                 else setupkvm_loop pgdir (kmap_table dt) k)"

text \<open>\<open>init\<close> is the address of the binary in the kernel image. The result of \<open>kalloc\<close> is not tested.\<close>

definition inituvm :: "addr \<Rightarrow> addr \<Rightarrow> uint \<Rightarrow> kmem \<Rightarrow> kmem res" where
  "inituvm pgdir init sz k =
     (if sz \<ge> PGSIZE then Panic ''inituvm: more than a page''
      else let (mem, k) = kalloc k
           in if mem = 0 then Fault ''inituvm''
              else let k = kmemset mem 0 PGSIZE k
                   in rbind (mappages pgdir 0 PGSIZE (v2p mem) (PTE_W OR PTE_U) k)
                        (\<lambda>(_, k). Ok (kmemmove mem init sz k)))"

text \<open>
  The loop adds a whole page table to \<open>a\<close> when there is none. The fuel is the number of pages below
  \<open>oldsz\<close>; it is enough unless \<open>a\<close> wraps around, where the code does not stop either.
\<close>

primrec deallocuvm_loop :: "nat \<Rightarrow> addr \<Rightarrow> addr \<Rightarrow> uint \<Rightarrow> uint \<Rightarrow> kmem \<Rightarrow> kmem res" where
  "deallocuvm_loop 0 e pgdir a oldsz k = (if a < oldsz then Fault ''loop'' else Ok k)"
| "deallocuvm_loop (Suc n) e pgdir a oldsz k =
     (if a < oldsz then
        let pte = fst (walkpgdir pgdir a False k)
        in if pte = 0 then deallocuvm_loop n e pgdir (a + (NPTENTRIES - 1) * PGSIZE + PGSIZE) oldsz k
           else if kload k pte AND PTE_P \<noteq> 0 then
             let pa = PTE_ADDR (kload k pte)
             in if pa = 0 then Panic ''kfree''
                else rbind (kfree e (p2v pa) k) (\<lambda>k.
                     deallocuvm_loop n e pgdir (a + PGSIZE) oldsz (kstore pte 0 k))
           else deallocuvm_loop n e pgdir (a + PGSIZE) oldsz k
      else Ok k)"

definition deallocuvm :: "addr \<Rightarrow> addr \<Rightarrow> uint \<Rightarrow> uint \<Rightarrow> kmem \<Rightarrow> (uint \<times> kmem) res" where
  "deallocuvm e pgdir oldsz newsz k =
     (if newsz \<ge> oldsz then Ok (oldsz, k)
      else rbind (deallocuvm_loop (Suc (unat oldsz div 4096)) e pgdir (PGROUNDUP newsz) oldsz k)
             (\<lambda>k. Ok (newsz, k)))"

text \<open>The fuel is the number of pages below \<open>newsz\<close>, which is below \<open>KERNBASE\<close>.\<close>

primrec allocuvm_loop :: "nat \<Rightarrow> addr \<Rightarrow> addr \<Rightarrow> uint \<Rightarrow> uint \<Rightarrow> uint \<Rightarrow> kmem \<Rightarrow> (uint \<times> kmem) res" where
  "allocuvm_loop 0 e pgdir a oldsz newsz k = (if a < newsz then Fault ''loop'' else Ok (newsz, k))"
| "allocuvm_loop (Suc n) e pgdir a oldsz newsz k =
     (if a < newsz then
        let (mem, k) = kalloc k
        in if mem = 0 then rbind (deallocuvm e pgdir newsz oldsz k) (\<lambda>(_, k). Ok (0, k))
           else let k = kmemset mem 0 PGSIZE k
                in rbind (mappages pgdir a PGSIZE (v2p mem) (PTE_W OR PTE_U) k) (\<lambda>(_, k).
                   allocuvm_loop n e pgdir (a + PGSIZE) oldsz newsz k)
      else Ok (newsz, k))"

definition allocuvm :: "addr \<Rightarrow> addr \<Rightarrow> uint \<Rightarrow> uint \<Rightarrow> kmem \<Rightarrow> (uint \<times> kmem) res" where
  "allocuvm e pgdir oldsz newsz k =
     (if newsz \<ge> KERNBASE then Ok (0, k)
      else if newsz < oldsz then Ok (oldsz, k)
      else allocuvm_loop (Suc (unat newsz div 4096)) e pgdir (PGROUNDUP oldsz) oldsz newsz k)"

primrec freevm_loop :: "nat \<Rightarrow> addr \<Rightarrow> addr \<Rightarrow> uint \<Rightarrow> kmem \<Rightarrow> kmem res" where
  "freevm_loop 0 e pgdir i k = Ok k"
| "freevm_loop (Suc n) e pgdir i k =
     (let pde = kload k (pgdir + 4 * i)
      in if pde AND PTE_P \<noteq> 0
         then rbind (kfree e (p2v (PTE_ADDR pde)) k) (freevm_loop n e pgdir (i + 1))
         else freevm_loop n e pgdir (i + 1) k)"

definition freevm :: "addr \<Rightarrow> addr \<Rightarrow> kmem \<Rightarrow> kmem res" where
  "freevm e pgdir k =
     (if pgdir = 0 then Panic ''freevm: no pgdir''
      else rbind (deallocuvm e pgdir KERNBASE 0 k) (\<lambda>(_, k).
           rbind (freevm_loop NPDENTRIES e pgdir 0 k) (kfree e pgdir)))"

definition clearpteu :: "addr \<Rightarrow> uint \<Rightarrow> kmem \<Rightarrow> kmem res" where
  "clearpteu pgdir uva k =
     (let pte = fst (walkpgdir pgdir uva False k)
      in if pte = 0 then Panic ''clearpteu'' else Ok (kstore pte (kload k pte AND NOT PTE_U) k))"

text \<open>The label \<open>bad\<close> of \<open>copyuvm\<close>.\<close>

definition copyuvm_bad :: "addr \<Rightarrow> addr \<Rightarrow> kmem \<Rightarrow> (addr \<times> kmem) res" where
  "copyuvm_bad e d k = rbind (freevm e d k) (\<lambda>k. Ok (0, k))"

primrec copyuvm_loop :: "nat \<Rightarrow> addr \<Rightarrow> addr \<Rightarrow> addr \<Rightarrow> uint \<Rightarrow> uint \<Rightarrow> kmem \<Rightarrow> (addr \<times> kmem) res" where
  "copyuvm_loop 0 e pgdir d i sz k = (if i < sz then Fault ''loop'' else Ok (d, k))"
| "copyuvm_loop (Suc n) e pgdir d i sz k =
     (if i < sz then
        let pte = fst (walkpgdir pgdir i False k)
        in if pte = 0 then Panic ''copyuvm: pte should exist''
           else if kload k pte AND PTE_P = 0 then Panic ''copyuvm: page not present''
           else let pa = PTE_ADDR (kload k pte);
                    flags = PTE_FLAGS (kload k pte);
                    (mem, k) = kalloc k
                in if mem = 0 then copyuvm_bad e d k
                   else let k = kmemmove mem (p2v pa) PGSIZE k
                        in rbind (mappages d i PGSIZE (v2p mem) flags k) (\<lambda>(r, k).
                           if r < 0 then copyuvm_bad e d k
                           else copyuvm_loop n e pgdir d (i + PGSIZE) sz k)
      else Ok (d, k))"

definition copyuvm :: "addr \<Rightarrow> uint \<Rightarrow> addr \<Rightarrow> uint \<Rightarrow> kmem \<Rightarrow> (addr \<times> kmem) res" where
  "copyuvm e dt pgdir sz k =
     rbind (setupkvm dt k) (\<lambda>(d, k).
       if d = 0 then Ok (0, k) else copyuvm_loop (Suc (unat sz div 4096)) e pgdir d 0 sz k)"

text \<open>\<open>walkpgdir\<close>'s result is read without a test for 0.\<close>

definition uva2ka :: "addr \<Rightarrow> uint \<Rightarrow> kmem \<Rightarrow> addr res" where
  "uva2ka pgdir uva k =
     (let pte = fst (walkpgdir pgdir uva False k)
      in if pte = 0 then Fault ''uva2ka''
         else if kload k pte AND PTE_P = 0 then Ok 0
         else if kload k pte AND PTE_U = 0 then Ok 0
         else Ok (p2v (PTE_ADDR (kload k pte))))"

lemma page_offset: "unat ((va :: uint) - PGROUNDDOWN va) = unat va mod 4096"
proof -
  have "unat (PGROUNDDOWN va) \<le> unat va" by (simp add: unat_PGROUNDDOWN)
  then have "unat (va - PGROUNDDOWN va) = unat va - unat va div 4096 * 4096"
    by (simp add: unat_sub word_le_nat_alt unat_PGROUNDDOWN)
  then show ?thesis by (simp add: minus_div_mult_eq_mod)
qed

lemma page_rest: "unat (PGSIZE - ((va :: uint) - PGROUNDDOWN va)) = 4096 - unat va mod 4096"
  by (subst unat_sub) (simp_all add: word_le_nat_alt page_offset less_imp_le)

text \<open>Each round of \<open>copyout\<close> copies at least one byte.\<close>

lemma copyout_progress:
  "len > 0 \<Longrightarrow> unat (len - min (PGSIZE - (va - PGROUNDDOWN va)) len) < unat (len :: uint)"
proof -
  assume "len > 0"
  moreover have "0 < unat (PGSIZE - (va - PGROUNDDOWN va))"
    unfolding page_rest using mod_less_divisor [of 4096 "unat va"] by linarith
  ultimately show ?thesis
    by (simp add: min_def word_le_nat_alt word_less_nat_alt unat_sub_if')
qed

function copyout_loop :: "addr \<Rightarrow> uint \<Rightarrow> addr \<Rightarrow> uint \<Rightarrow> kmem \<Rightarrow> (int \<times> kmem) res" where
  "copyout_loop pgdir va buf len k =
     (if len > 0 then
        let va0 = PGROUNDDOWN va
        in rbind (uva2ka pgdir va0 k) (\<lambda>pa0.
           if pa0 = 0 then Ok (- 1, k)
           else let n = PGSIZE - (va - va0);
                    n = (if n > len then len else n);
                    k = kmemmove (pa0 + (va - va0)) buf n k
                in copyout_loop pgdir (va0 + PGSIZE) (buf + n) (len - n) k)
      else Ok (0, k))"
  by pat_completeness auto
termination
proof (relation "measure (\<lambda>(pgdir, va, buf, len, k). unat len)")
  fix va len va0 n0 n :: uint
  assume "len > 0" "va0 = PGROUNDDOWN va" "n0 = PGSIZE - (va - va0)" "n = (if n0 > len then len else n0)"
  then have "unat (len - n) < unat len"
    using copyout_progress [of len va] by (auto simp: min_def not_le not_less)
  then show "((pgdir, va0 + PGSIZE, buf + n, len - n, k'), (pgdir, va, buf, len, k)) \<in>
      measure (\<lambda>(pgdir, va, buf, len, k). unat len)" for pgdir buf k k'
    by simp
qed auto

declare copyout_loop.simps [simp del]

definition copyout :: "addr \<Rightarrow> uint \<Rightarrow> addr \<Rightarrow> uint \<Rightarrow> kmem \<Rightarrow> (int \<times> kmem) res" where
  "copyout pgdir va p len k = copyout_loop pgdir va p len k"

end
