(* ===== verification/Xv6_Paging.thy ===== *)
theory Xv6_Paging
  imports Xv6_Vm Xv6_Pages
begin

text \<open>
  Correctness of the page-table code of \<^verbatim>\<open>vm.c\<close>. \<open>pte k d va\<close> is the entry for a virtual address
  under the page directory \<open>d\<close>, 0 when there is no page table; \<open>vm_wf\<close> says that the directory and
  its tables are distinct pages of the allocator that are not free.
\<close>

section \<open>Indices and entries\<close>

lemma and_mask10: "(x :: uint) AND 0x3FF = take_bit 10 x"
  by (simp add: take_bit_eq_mask mask_eq_exp_minus_1)

lemma and_mask12: "(x :: uint) AND 0xFFF = take_bit 12 x"
  by (simp add: take_bit_eq_mask mask_eq_exp_minus_1)

lemma unat_PDX: "unat (PDX va) = unat va div 2 ^ 22"
proof -
  have "unat va div 2 ^ 22 < 2 ^ 10" using unat_less_32 [of va] by (simp add: less_mult_imp_div_less)
  then show ?thesis
    by (simp add: PDX_def and_mask10 unsigned_take_bit_eq drop_bit_eq_div unat_div take_bit_nat_eq_self)
qed

lemma unat_PTX: "unat (PTX va) = unat va div 4096 mod 1024"
  by (simp add: PTX_def and_mask10 drop_bit_eq_div unat_div unat_mod take_bit_eq_mod)

lemma PDX_less [simp]: "PDX va < 1024" and PTX_less [simp]: "PTX va < 1024"
  using unat_less_32 [of va] by (simp_all add: word_less_nat_alt unat_PDX unat_PTX less_mult_imp_div_less)

lemma same_index_iff: "PDX a = PDX b \<and> PTX a = PTX b \<longleftrightarrow> PGROUNDDOWN a = PGROUNDDOWN b"
proof -
  have q: "n div 4194304 = n div 4096 div 1024" for n :: nat by (simp add: div_mult2_eq [symmetric])
  have "unat a div 4096 div 1024 = unat b div 4096 div 1024 \<and> unat a div 4096 mod 1024 = unat b div 4096 mod 1024 \<longleftrightarrow>
      unat a div 4096 = unat b div 4096"
    by (metis div_mult_mod_eq)
  then show ?thesis by (simp add: word_unat_eq_iff unat_PDX unat_PTX unat_PGROUNDDOWN q del: One_nat_def)
qed

lemma PTE_ADDR_page: "PTE_ADDR x = PGROUNDDOWN x"
  by (simp add: PTE_ADDR_def PGROUNDDOWN_def)

lemma aligned_or:
  fixes p f :: uint
  assumes "p mod PGSIZE = 0" "f < PGSIZE"
  shows "p OR f = p + f"
proof (rule disjunctive_add [symmetric])
  fix n
  have "p = push_bit 12 (drop_bit 12 p)"
    using assms(1) by (metis PGROUNDDOWN_def PGROUNDDOWN_self and_not_page_mask)
  then have "bit p n \<Longrightarrow> 12 \<le> n" by (metis bit_push_bit_iff)
  moreover have "take_bit 12 f = f"
    using assms(2) by (simp add: word_unat_eq_iff unsigned_take_bit_eq take_bit_nat_eq_self word_less_nat_alt)
  then have "bit f n \<Longrightarrow> n < 12" by (metis bit_take_bit_iff)
  ultimately show "\<not> bit p n \<or> \<not> bit f n" by auto
qed

lemma PTE_ADDR_or: "p mod PGSIZE = 0 \<Longrightarrow> f < PGSIZE \<Longrightarrow> PTE_ADDR (p OR f) = p"
  by (simp add: PTE_ADDR_page aligned_or PGROUNDDOWN_add word_less_nat_alt)

lemma PTE_FLAGS_or: "p mod PGSIZE = 0 \<Longrightarrow> f < PGSIZE \<Longrightarrow> PTE_FLAGS (p OR f) = f"
proof -
  assume a: "p mod PGSIZE = 0" "f < PGSIZE"
  have "unat (p + f) = unat p + unat f"
    using unat_less_aligned [OF a(1), of "unat f"] a(2) by (intro unat_add_small) (simp add: word_less_nat_alt)
  moreover have "unat p mod 4096 = 0" using a(1) by (simp add: unat_mod_page)
  ultimately have "unat (p + f) mod 4096 = unat f" using a(2) by (auto simp: word_less_nat_alt mod_add_eq elim!: dvdE)
  then show ?thesis
    by (simp add: PTE_FLAGS_def and_mask12 aligned_or a word_unat_eq_iff unat_mod take_bit_eq_mod)
qed

lemma or_present [simp]: "(x OR PTE_P) AND PTE_P = (PTE_P :: uint)" "(x OR y OR PTE_P) AND PTE_P = (PTE_P :: uint)"
  "(x OR PTE_P OR y) AND PTE_P = (PTE_P :: uint)"
  by (auto intro!: bit_word_eqI simp: bit_simps bit_1_iff)

lemma v2p_aligned: "p mod PGSIZE = 0 \<Longrightarrow> v2p p mod PGSIZE = 0"
  and p2v_aligned: "p mod PGSIZE = 0 \<Longrightarrow> p2v p mod PGSIZE = 0"
  unfolding unat_mod_page v2p_def p2v_def by (auto simp: unat_sub_if' unat_word_ariths mod_mod_cancel elim!: dvdE)

section \<open>Page tables in memory\<close>

definition ptab :: "kmem \<Rightarrow> addr \<Rightarrow> uint \<Rightarrow> addr option" where
  "ptab k d i = (let x = kload k (d + 4 * i) in if x AND PTE_P = 0 then None else Some (p2v (PTE_ADDR x)))"

definition pte :: "kmem \<Rightarrow> addr \<Rightarrow> uint \<Rightarrow> uint" where
  "pte k d va = (case ptab k d (PDX va) of None \<Rightarrow> 0 | Some t \<Rightarrow> kload k (t + 4 * PTX va))"

definition tables :: "kmem \<Rightarrow> addr \<Rightarrow> addr set" where
  "tables k d = {t. \<exists>i<1024. ptab k d i = Some t}"

definition vm_wf :: "addr \<Rightarrow> kmem \<Rightarrow> addr \<Rightarrow> addr list \<Rightarrow> bool" where
  "vm_wf e k d ps \<longleftrightarrow> kmem_rep e k ps \<and> page_ok e d \<and> (\<forall>t\<in>tables k d. page_ok e t) \<and> d \<notin> tables k d \<and>
     (\<forall>i<1024. \<forall>j<1024. ptab k d i \<noteq> None \<longrightarrow> ptab k d i = ptab k d j \<longrightarrow> i = j) \<and>
     insert d (tables k d) \<inter> set ps = {}"

lemma ptab_tables: "ptab k d (PDX va) = Some t \<Longrightarrow> t \<in> tables k d"
  unfolding tables_def using PDX_less by blast

lemma page_ok_aligned: "page_ok e p \<Longrightarrow> p mod PGSIZE = 0"
  by (simp add: page_ok_def)

lemma vm_frame:
  assumes "\<And>p. p \<in> insert d (tables k d) \<Longrightarrow> same_page (kmemory k) (kmemory k') p \<and> p mod PGSIZE = 0"
  shows "i < 1024 \<Longrightarrow> ptab k' d i = ptab k d i" "pte k' d va = pte k d va" "tables k' d = tables k d"
proof -
  show p: "ptab k' d i = ptab k d i" if "i < 1024" for i
    using same_page_load [of "kmemory k" "kmemory k'" d i] assms that by (simp add: ptab_def kload_def)
  then show "tables k' d = tables k d" by (auto simp: tables_def)
  show "pte k' d va = pte k d va"
  proof (cases "ptab k d (PDX va)")
    case None
    then show ?thesis by (simp add: pte_def p)
  next
    case (Some t)
    then have "load32 (kmemory k') (t + 4 * PTX va) = load32 (kmemory k) (t + 4 * PTX va)"
      using assms ptab_tables by (intro same_page_load) auto
    then show ?thesis using Some by (simp add: pte_def p kload_def)
  qed
qed

lemma vm_wf_frame:
  assumes "vm_wf e k d ps" "kmem_rep e k' ps'" "set ps' \<subseteq> set ps"
    "\<And>p. p \<in> insert d (tables k d) \<Longrightarrow> same_page (kmemory k) (kmemory k') p"
  shows "vm_wf e k' d ps'" "i < 1024 \<Longrightarrow> ptab k' d i = ptab k d i" "pte k' d va = pte k d va" "tables k' d = tables k d"
proof -
  have al: "p \<in> insert d (tables k d) \<Longrightarrow> same_page (kmemory k) (kmemory k') p \<and> p mod PGSIZE = 0" for p
    using assms(1,4) by (auto simp: vm_wf_def page_ok_aligned)
  show f: "\<And>i. i < 1024 \<Longrightarrow> ptab k' d i = ptab k d i" "pte k' d va = pte k d va" "tables k' d = tables k d"
    using vm_frame [OF al] by auto
  show "vm_wf e k' d ps'"
    using assms(1-3) f(1) unfolding vm_wf_def f(3) by auto
qed

lemma walkpgdir_get:
  "walkpgdir d va False k = (case ptab k d (PDX va) of None \<Rightarrow> 0 | Some t \<Rightarrow> t + 4 * PTX va, k)"
  by (simp add: walkpgdir_def ptab_def Let_def)

lemma entry_nonzero:
  assumes "vm_wf e k d ps" "ptab k d (PDX va) = Some t"
  shows "t + 4 * PTX va \<noteq> 0"
proof
  assume "t + 4 * PTX va = 0"
  moreover have t: "page_ok e t" using assms ptab_tables by (auto simp: vm_wf_def)
  then have "PGROUNDDOWN (t + 4 * PTX va + 0) = t"
    by (intro slot_in_page) (auto simp: page_ok_aligned)
  ultimately have "t = 0" by (simp add: PGROUNDDOWN_def)
  with t show False using page_ok_nonzero by blast
qed

text \<open>Writing the entry of \<open>va\<close> in its page table.\<close>

lemma store_pte:
  fixes v :: uint
  assumes "vm_wf e k d ps" "ptab k d (PDX va) = Some t"
  defines "k' \<equiv> kstore (t + 4 * PTX va) v k"
  shows "vm_wf e k' d ps" "tables k' d = tables k d" "i < 1024 \<Longrightarrow> ptab k' d i = ptab k d i"
    "pte k' d vb = (if PGROUNDDOWN vb = PGROUNDDOWN va then v else pte k d vb)"
    "p \<noteq> t \<Longrightarrow> same_page (kmemory k) (kmemory k') p"
proof -
  have t: "t \<in> tables k d" "page_ok e t" using assms(1,2) ptab_tables by (auto simp: vm_wf_def)
  note al = page_ok_aligned [OF t(2)]
  have m: "kmemory k' = store32 (kmemory k) (t + 4 * PTX va) v" by (simp add: k'_def kstore_def)
  show same: "same_page (kmemory k) (kmemory k') p" if "p \<noteq> t" for p
    unfolding m using that al by (intro store_same_page) auto
  have d: "d \<noteq> t" "d mod PGSIZE = 0" using assms(1) t(1) by (auto simp: vm_wf_def page_ok_aligned)
  show pt: "ptab k' d i = ptab k d i" if "i < 1024" for i
    using same_page_load [OF same [OF d(1)] d(2) that] by (simp add: ptab_def kload_def)
  then show tb: "tables k' d = tables k d" by (auto simp: tables_def)
  have "kmem_rep e k' ps"
    using assms(1) t al unfolding k'_def kstore_def by (intro kmem_rep_store) (auto simp: vm_wf_def)
  then show "vm_wf e k' d ps" using assms(1) pt unfolding vm_wf_def tb by auto
  show "pte k' d vb = (if PGROUNDDOWN vb = PGROUNDDOWN va then v else pte k d vb)"
  proof (cases "PDX vb = PDX va")
    case True
    then have "pte k' d vb = load32 (store32 (kmemory k) (t + 4 * PTX va) v) (t + 4 * PTX vb)"
      using assms(2) pt by (simp add: pte_def kload_def m)
    also have "\<dots> = (if PTX va = PTX vb then v else pte k d vb)"
      using True assms(2) by (simp add: load_store_slot pte_def kload_def)
    finally show ?thesis using True same_index_iff [of vb va] by auto
  next
    case False
    then have "PGROUNDDOWN vb \<noteq> PGROUNDDOWN va" using same_index_iff by blast
    moreover have "load32 (kmemory k') (u + 4 * PTX vb) = load32 (kmemory k) (u + 4 * PTX vb)"
      if u: "ptab k d (PDX vb) = Some u" for u
    proof (rule same_page_load)
      have "u \<noteq> t" using assms(1,2) False u PDX_less unfolding vm_wf_def by (metis option.distinct(1))
      then show "same_page (kmemory k) (kmemory k') u" by (rule same)
      show "u mod PGSIZE = 0" using assms(1) ptab_tables [OF u] by (auto simp: vm_wf_def page_ok_aligned)
    qed simp
    ultimately show ?thesis
      using pt by (auto simp: pte_def kload_def split: option.splits)
  qed
qed

text \<open>
  Growing the page tables of \<open>d\<close>: the new tables come from the free list, and nothing outside the
  directory and its tables changes.
\<close>

definition vm_grow :: "addr \<Rightarrow> addr \<Rightarrow> kmem \<Rightarrow> addr list \<Rightarrow> kmem \<Rightarrow> addr list \<Rightarrow> bool" where
  "vm_grow e d k ps k' ps' \<longleftrightarrow> vm_wf e k' d ps' \<and>
     (\<exists>us. ps = us @ ps' \<and> tables k' d = tables k d \<union> set us) \<and>
     (\<forall>q. q \<notin> insert d (tables k' d) \<longrightarrow> same_page (kmemory k) (kmemory k') q)"

lemma vm_grow_refl: "vm_wf e k d ps \<Longrightarrow> vm_grow e d k ps k ps"
  by (simp add: vm_grow_def)

lemma vm_grow_trans:
  assumes "vm_grow e d k ps k1 ps1" "vm_grow e d k1 ps1 k2 ps2"
  shows "vm_grow e d k ps k2 ps2"
proof -
  obtain us vs where "ps = us @ ps1" "tables k1 d = tables k d \<union> set us"
    "ps1 = vs @ ps2" "tables k2 d = tables k1 d \<union> set vs"
    using assms by (auto simp: vm_grow_def)
  then have "ps = (us @ vs) @ ps2 \<and> tables k2 d = tables k d \<union> set (us @ vs)" by auto
  moreover have "same_page (kmemory k) (kmemory k2) q" if "q \<notin> insert d (tables k2 d)" for q
    using assms that \<open>tables k2 d = tables k1 d \<union> set vs\<close> unfolding vm_grow_def by (blast intro: same_page_trans)
  ultimately show ?thesis using assms(2) unfolding vm_grow_def by blast
qed

lemma finite_tables: "finite (tables k d)"
proof (rule finite_subset)
  show "tables k d \<subseteq> (the \<circ> ptab k d) ` {i. i < 1024}" by (force simp: tables_def)
qed simp

lemma card_tables: "card (tables k d) \<le> 1024"
proof -
  have "tables k d \<subseteq> (the \<circ> ptab k d) ` {i. i < 1024}" by (force simp: tables_def)
  then have "card (tables k d) \<le> card {i. i < (1024 :: uint)}"
    by (meson card_image_le card_mono finite le_trans)
  also have "{i. i < (1024 :: uint)} \<subseteq> of_nat ` {..<1024}"
    by (auto simp: word_less_nat_alt intro!: image_eqI [where x = "unat _"])
  then have "card {i. i < (1024 :: uint)} \<le> 1024"
    using surj_card_le [of "{..<1024::nat}"] by (metis card_lessThan finite_lessThan)
  finally show ?thesis .
qed

lemma vm_wf_disjoint: "vm_wf e k d ps \<Longrightarrow> insert d (tables k d) \<inter> set ps = {} \<and> distinct ps"
  by (simp add: vm_wf_def kmem_rep_def)

text \<open>The pages a growth takes are paid for by the new tables, of which there are at most 1024.\<close>

lemma vm_grow_cost:
  assumes "vm_grow e d k ps k' ps'" "vm_wf e k d ps"
  shows "length ps - length ps' + card (tables k d) = card (tables k' d)" "length ps' \<le> length ps"
proof -
  obtain us where us: "ps = us @ ps'" "tables k' d = tables k d \<union> set us" using assms(1) by (auto simp: vm_grow_def)
  then have "tables k d \<inter> set us = {}" "distinct us" using vm_wf_disjoint [OF assms(2)] by auto
  then show "length ps - length ps' + card (tables k d) = card (tables k' d)" "length ps' \<le> length ps"
    using us finite_tables by (simp_all add: card_Un_disjoint distinct_card)
qed

lemma or_seven: "((x :: uint) OR 7) AND 1 = 1"
  by (auto intro!: bit_word_eqI simp: bit_simps bit_1_iff)

lemma walkpgdir_new:
  assumes wf: "vm_wf e k d (p # ps)" and none: "ptab k d (PDX va) = None"
  shows "\<exists>k'. walkpgdir d va True k = (p + 4 * PTX va, k') \<and> vm_grow e d k (p # ps) k' ps \<and>
    ptab k' d (PDX va) = Some p \<and> (\<forall>vb. pte k' d vb = pte k d vb)"
proof -
  obtain k1 where k1: "kalloc k = (p, k1)" "kmem_rep e k1 ps" "kmemory k1 = kmemory k"
    using wf kalloc_rep_Cons [of e k p ps] by (auto simp: vm_wf_def)
  define v where "v = v2p p OR (7 :: uint)"
  define m where "m = memset (kmemory k) p 0 PGSIZE"
  define k' where "k' = k1\<lparr>kmemory := store32 m (d + 4 * PDX va) v\<rparr>"
  have p: "page_ok e p" "p \<notin> set ps" "p \<noteq> d" "p \<notin> tables k d" "d \<notin> set ps" "page_ok e d" "d \<notin> tables k d"
    using wf by (auto simp: vm_wf_def kmem_rep_def)
  note al = page_ok_aligned [OF p(1)] page_ok_aligned [OF p(6)]
  have same: "same_page (kmemory k) (kmemory k') q" if "q \<noteq> d" "q \<noteq> p" for q
    using store_same_page [OF al(2) PDX_less that(1) [symmetric], of m va v] memset_same_page [OF al(1) that(2) [symmetric]]
    by (auto simp: k'_def m_def intro: same_page_trans)
  have ent: "kload k' (d + 4 * i) = (if i = PDX va then v else kload k (d + 4 * i))" if "i < 1024" for i
    using that same_page_load [OF memset_same_page [OF al(1) p(3)] al(2) that, of "kmemory k" 0]
    by (simp add: kload_def k'_def load_store_slot m_def)
  have v: "v AND PTE_P \<noteq> 0" "p2v (PTE_ADDR v) = p"
    using PTE_ADDR_or [OF v2p_aligned [OF al(1)], of 7] by (simp_all add: v_def or_seven)
  have pt: "ptab k' d i = (if i = PDX va then Some p else ptab k d i)" if "i < 1024" for i
    using ent [OF that] v by (simp add: ptab_def Let_def)
  have tb: "tables k' d = insert p (tables k d)"
  proof (intro set_eqI iffI)
    show "t \<in> tables k' d \<Longrightarrow> t \<in> insert p (tables k d)" for t
      by (auto simp: tables_def pt split: if_splits)
    have "p \<in> tables k' d" using pt [OF PDX_less, of va] by (intro ptab_tables) simp
    moreover have "t \<in> tables k' d" if "i < 1024" "ptab k d i = Some t" for i t
    proof -
      have "i \<noteq> PDX va" using that none by auto
      then show ?thesis using that pt unfolding tables_def by auto
    qed
    ultimately show "t \<in> insert p (tables k d) \<Longrightarrow> t \<in> tables k' d" for t by (auto simp: tables_def)
  qed
  have "kmem_rep e k' ps"
    unfolding k'_def m_def using k1 p al kmem_rep_store [OF kmem_rep_memset [OF k1(2) al(1) p(2), of 0] al(2) PDX_less p(5)]
    by simp
  moreover have "\<forall>i<1024. \<forall>j<1024. ptab k' d i \<noteq> None \<longrightarrow> ptab k' d i = ptab k' d j \<longrightarrow> i = j"
  proof (intro allI impI)
    fix i j assume that: "i < 1024" "j < 1024" "ptab k' d i \<noteq> None" "ptab k' d i = ptab k' d j"
    have "ptab k d i \<noteq> Some p" "ptab k d j \<noteq> Some p" using p(4) that(1,2) unfolding tables_def by blast+
    then show "i = j" using that pt [OF that(1)] pt [OF that(2)] wf unfolding vm_wf_def by (metis option.distinct(1))
  qed
  ultimately have wf': "vm_wf e k' d ps"
    using wf p unfolding vm_wf_def tb by simp
  have zero: "kload k' (p + 4 * i) = 0" if "i < 1024" for i
    using same_page_load [OF store_same_page [OF al(2) PDX_less p(3) [symmetric], of m va v] al(1) that]
      load_memset_page [OF al(1) that, of "kmemory k"] by (simp add: kload_def k'_def m_def)
  have "pte k' d vb = pte k d vb" for vb
  proof (cases "PDX vb = PDX va")
    case True
    then show ?thesis using none pt zero by (simp add: pte_def)
  next
    case False
    have "kload k' (u + 4 * PTX vb) = kload k (u + 4 * PTX vb)" if u: "ptab k d (PDX vb) = Some u" for u
      unfolding kload_def using ptab_tables [OF u] p wf
      by (intro same_page_load same) (auto simp: vm_wf_def page_ok_aligned)
    then show ?thesis using False pt by (auto simp: pte_def split: option.splits)
  qed
  moreover have "walkpgdir d va True k = (p + 4 * PTX va, k')"
    using none page_ok_nonzero [OF p(1)] k1
    by (auto simp: walkpgdir_def ptab_def Let_def kmemset_def kstore_def k'_def m_def v_def split: if_splits)
  moreover have "vm_grow e d k (p # ps) k' ps"
    unfolding vm_grow_def using wf' tb same by auto
  ultimately show ?thesis using pt by auto
qed

lemma walkpgdir_alloc:
  assumes "vm_wf e k d ps"
  shows "(ps = [] \<and> ptab k d (PDX va) = None \<and> walkpgdir d va True k = (0, k)) \<or>
    (\<exists>t k' ps'. walkpgdir d va True k = (t + 4 * PTX va, k') \<and> t + 4 * PTX va \<noteq> 0 \<and> vm_grow e d k ps k' ps' \<and>
       ptab k' d (PDX va) = Some t \<and> (\<forall>vb. pte k' d vb = pte k d vb))"
proof (cases "ptab k d (PDX va)")
  case None
  show ?thesis
  proof (cases ps)
    case Nil
    then have "kalloc k = (0, k)" using assms kalloc_rep_Nil by (auto simp: vm_wf_def)
    then show ?thesis using Nil None by (auto simp: walkpgdir_def ptab_def Let_def split: if_splits)
  next
    case (Cons p ps')
    with walkpgdir_new [of e k d p ps' va] assms None obtain k' where
      k': "walkpgdir d va True k = (p + 4 * PTX va, k')" "vm_grow e d k ps k' ps'" "ptab k' d (PDX va) = Some p"
      "\<forall>vb. pte k' d vb = pte k d vb" by auto
    then have "p + 4 * PTX va \<noteq> 0" using entry_nonzero by (auto simp: vm_grow_def)
    with k' show ?thesis by blast
  qed
next
  case (Some t)
  then have "walkpgdir d va True k = (t + 4 * PTX va, k)" by (simp add: walkpgdir_def ptab_def Let_def split: if_splits)
  with Some vm_grow_refl [OF assms] entry_nonzero [OF assms Some] show ?thesis by blast
qed

section \<open>mappages\<close>

lemma next_page:
  fixes x :: uint
  assumes "4096 * Suc n \<le> 2 ^ 32 - 4096"
  shows "unat (x - PGSIZE) < 4096 * Suc n \<longleftrightarrow> 4096 \<le> unat x \<and> unat x < 4096 * Suc (Suc n)"
    "4096 \<le> unat x \<Longrightarrow> PGROUNDDOWN (x - PGSIZE) + PGSIZE = PGROUNDDOWN x"
proof -
  have u: "unat (x - PGSIZE) = (if 4096 \<le> unat x then unat x - 4096 else 2 ^ 32 + unat x - 4096)"
    by (simp add: unat_sub_if' word_le_nat_alt)
  show "unat (x - PGSIZE) < 4096 * Suc n \<longleftrightarrow> 4096 \<le> unat x \<and> unat x < 4096 * Suc (Suc n)"
    using assms unfolding u by auto
  assume x: "4096 \<le> unat x"
  have r: "unat (PGROUNDDOWN (x - PGSIZE)) = unat x div 4096 * 4096 - 4096"
    using x by (simp add: unat_PGROUNDDOWN u le_div_geq)
  have "unat x div 4096 * 4096 \<le> unat x" by simp
  then have "unat (PGROUNDDOWN (x - PGSIZE) + PGSIZE) = unat x div 4096 * 4096"
    using x unat_less_32 [of x] r div_le_mono [OF x, of 4096] by (subst unat_add_small) auto
  then show "PGROUNDDOWN (x - PGSIZE) + PGSIZE = PGROUNDDOWN x" by (simp add: word_unat_eq_iff unat_PGROUNDDOWN)
qed

definition maps_to :: "kmem \<Rightarrow> kmem \<Rightarrow> addr \<Rightarrow> uint \<Rightarrow> nat \<Rightarrow> uint \<Rightarrow> uint \<Rightarrow> bool" where
  "maps_to k k' d a len pa perm \<longleftrightarrow>
     (\<forall>va. pte k' d va = (if unat (va - a) < len then (pa + PGROUNDDOWN (va - a)) OR perm OR PTE_P else pte k d va))"

text \<open>One round of the loop of \<open>mappages\<close>.\<close>

lemma map_one:
  fixes v :: uint
  assumes "vm_grow e d k ps k1 ps1" "ptab k1 d (PDX a) = Some t" "\<forall>vb. pte k1 d vb = pte k d vb" "a mod PGSIZE = 0"
  defines "k2 \<equiv> kstore (t + 4 * PTX a) v k1"
  shows "kload k1 (t + 4 * PTX a) = pte k d a" "vm_grow e d k ps k2 ps1"
    "pte k2 d vb = (if unat (vb - a) < 4096 then v else pte k d vb)"
proof -
  have wf: "vm_wf e k1 d ps1" using assms(1) by (simp add: vm_grow_def)
  show "kload k1 (t + 4 * PTX a) = pte k d a" using assms(2,3) by (simp add: pte_def [of k1 d a] flip: assms(3))
  note st = store_pte [OF wf assms(2), where v = v, folded k2_def]
  show "pte k2 d vb = (if unat (vb - a) < 4096 then v else pte k d vb)"
    using assms(3,4) by (simp add: st(4) in_page_iff)
  have "vm_grow e d k1 ps1 k2 ps1"
    using st(1,2) ptab_tables [OF assms(2)] unfolding vm_grow_def by (auto intro!: st(5))
  then show "vm_grow e d k ps k2 ps1" using assms(1) vm_grow_trans by blast
qed

lemma mappages_loop_spec:
  assumes "vm_wf e k d ps" "a mod PGSIZE = 0" "unat (lst - a) = 4096 * n"
    "\<And>va. unat (va - a) < 4096 * Suc n \<Longrightarrow> pte k d va AND PTE_P = 0"
  shows "\<exists>r k' ps'. mappages_loop (Suc n) d a lst pa perm k = Ok (r, k') \<and> vm_grow e d k ps k' ps' \<and>
    (r = 0 \<and> maps_to k k' d a (4096 * Suc n) pa perm \<or> r = - 1 \<and> ps' = [])"
  using assms
proof (induction n arbitrary: a pa k ps)
  case (0 a pa k ps)
  then have a: "a = lst" by (simp add: unsigned_eq_0_iff)
  from walkpgdir_alloc [OF 0(1), of a] show ?case
  proof (elim disjE exE conjE)
    assume "ps = []" "walkpgdir d a True k = (0, k)"
    then show ?thesis using vm_grow_refl [OF 0(1)] by auto
  next
    fix t k1 ps1
    assume w: "walkpgdir d a True k = (t + 4 * PTX a, k1)" "t + 4 * PTX a \<noteq> 0" "vm_grow e d k ps k1 ps1"
      "ptab k1 d (PDX a) = Some t" "\<forall>vb. pte k1 d vb = pte k d vb"
    note one = map_one(1) [OF w(3-5) 0(2)] map_one(2,3) [OF w(3-5) 0(2), where v = "pa OR perm OR PTE_P"]
    have "PGROUNDDOWN (va - a) = 0" if "unat (va - a) < 4096" for va
      using that by (simp add: word_unat_eq_iff unat_PGROUNDDOWN)
    then have "maps_to k (kstore (t + 4 * PTX a) (pa OR perm OR PTE_P) k1) d a (4096 * Suc 0) pa perm"
      using one(3) by (simp add: maps_to_def)
    then show ?thesis using one(1,2) 0(4) [of a] a w(1,2) by auto
  qed
next
  case (Suc n)
  have n: "4096 * Suc n \<le> 2 ^ 32 - 4096" using Suc.prems(3) unat_less_32 [of "lst - a"] by simp
  have ne: "a \<noteq> lst" using Suc.prems(3) by auto
  from walkpgdir_alloc [OF Suc.prems(1), of a] show ?case
  proof (elim disjE exE conjE)
    assume "ps = []" "walkpgdir d a True k = (0, k)"
    then show ?thesis using vm_grow_refl [OF Suc.prems(1)] by auto
  next
    fix t k1 ps1
    assume w: "walkpgdir d a True k = (t + 4 * PTX a, k1)" "t + 4 * PTX a \<noteq> 0" "vm_grow e d k ps k1 ps1"
      "ptab k1 d (PDX a) = Some t" "\<forall>vb. pte k1 d vb = pte k d vb"
    note one = map_one(1) [OF w(3-5) Suc.prems(2)] map_one(2,3) [OF w(3-5) Suc.prems(2), where v = "pa OR perm OR PTE_P"]
    define k2 where "k2 = kstore (t + 4 * PTX a) (pa OR perm OR PTE_P) k1"
    have x: "va - (a + PGSIZE) = va - a - PGSIZE" for va :: uint by simp
    have wf2: "vm_wf e k2 d ps1" using one(2) by (simp add: vm_grow_def k2_def)
    have al2: "(a + PGSIZE) mod PGSIZE = 0"
      using Suc.prems(2) unfolding unat_mod_page by (auto simp: unat_word_ariths mod_mod_cancel elim!: dvdE)
    have len2: "unat (lst - (a + PGSIZE)) = 4096 * n"
      unfolding x using Suc.prems(3) by (simp add: unat_sub_if' word_le_nat_alt)
    have free2: "pte k2 d va AND PTE_P = 0" if "unat (va - (a + PGSIZE)) < 4096 * Suc n" for va
      using that Suc.prems(4) [of va] unfolding x next_page(1) [OF n] k2_def one(3) by simp
    obtain r k' ps' where r: "mappages_loop (Suc n) d (a + PGSIZE) lst (pa + PGSIZE) perm k2 = Ok (r, k')"
      "vm_grow e d k2 ps1 k' ps'" "r = 0 \<and> maps_to k2 k' d (a + PGSIZE) (4096 * Suc n) (pa + PGSIZE) perm \<or> r = - 1 \<and> ps' = []"
      using Suc.IH [OF wf2 al2 len2 free2, of "pa + PGSIZE"] by blast
    have "mappages_loop (Suc (Suc n)) d a lst pa perm k = Ok (r, k')"
      using w(1,2) one(1) Suc.prems(4) [of a] ne r(1) by (simp add: k2_def)
    moreover have "vm_grow e d k ps k' ps'" using one(2) r(2) vm_grow_trans by (auto simp: k2_def)
    moreover have "maps_to k k' d a (4096 * Suc (Suc n)) pa perm" if "maps_to k2 k' d (a + PGSIZE) (4096 * Suc n) (pa + PGSIZE) perm"
      unfolding maps_to_def
    proof
      fix va
      have k': "pte k' d va = (if 4096 \<le> unat (va - a) \<and> unat (va - a) < 4096 * Suc (Suc n)
          then (pa + PGSIZE + PGROUNDDOWN (va - a - PGSIZE)) OR perm OR PTE_P else pte k2 d va)"
        using that unfolding maps_to_def x next_page(1) [OF n] by blast
      show "pte k' d va = (if unat (va - a) < 4096 * Suc (Suc n) then (pa + PGROUNDDOWN (va - a)) OR perm OR PTE_P else pte k d va)"
      proof (cases "unat (va - a) < 4096")
        case True
        then have "PGROUNDDOWN (va - a) = 0" by (simp add: word_unat_eq_iff unat_PGROUNDDOWN)
        then show ?thesis using True unfolding k' k2_def one(3) by simp
      next
        case False
        then show ?thesis using next_page(2) [OF n, of "va - a"] unfolding k' k2_def one(3) by (simp add: ac_simps)
      qed
    qed
    ultimately show ?thesis using r(3) by blast
  qed
qed

lemma aligned_add: "(a :: uint) mod PGSIZE = 0 \<Longrightarrow> b mod PGSIZE = 0 \<Longrightarrow> (a + b) mod PGSIZE = 0"
  and aligned_diff: "(a :: uint) mod PGSIZE = 0 \<Longrightarrow> b mod PGSIZE = 0 \<Longrightarrow> (a - b) mod PGSIZE = 0"
  unfolding unat_mod_page by (auto simp: unat_word_ariths unat_sub_if' mod_mod_cancel elim!: dvdE)

lemma mappages_spec:
  assumes "vm_wf e k d ps" "va mod PGSIZE = 0" "sz mod PGSIZE = 0" "sz \<noteq> 0"
    "\<And>vb. unat (vb - va) < unat sz \<Longrightarrow> pte k d vb AND PTE_P = 0"
  shows "\<exists>r k' ps'. mappages d va sz pa perm k = Ok (r, k') \<and> vm_grow e d k ps k' ps' \<and>
    (r = 0 \<and> maps_to k k' d va (unat sz) pa perm \<or> r = - 1 \<and> ps' = [])"
proof -
  obtain q where q: "unat sz = 4096 * q" using assms(3) unfolding unat_mod_page by (auto elim: dvdE simp: mod_eq_0_iff_dvd)
  moreover have "q \<noteq> 0" using q assms(4) by (cases q) (auto simp: unat_eq_zero)
  ultimately obtain n where n: "unat sz = 4096 * Suc n" by (metis not0_implies_Suc)
  have "(va + (sz - PGSIZE)) mod PGSIZE = 0" by (rule aligned_add [OF assms(2) aligned_diff [OF assms(3)]]) simp
  then have A: "PGROUNDDOWN (va + (sz - PGSIZE) + 0xFFF) = va + (sz - PGSIZE)" by (rule PGROUNDDOWN_add) simp
  have B: "va + sz - 1 = va + (sz - PGSIZE) + 0xFFF" by simp
  have l: "PGROUNDDOWN (va + sz - 1) = va + (sz - PGSIZE)" unfolding B by (rule A)
  have len: "unat (va + (sz - PGSIZE) - va) = 4096 * n" using n by (simp add: unat_sub_if' word_le_nat_alt)
  have "mappages d va sz pa perm k = mappages_loop (Suc n) d va (va + (sz - PGSIZE)) pa perm k"
    unfolding mappages_def Let_def l PGROUNDDOWN_self [OF assms(2)] len by simp
  with mappages_loop_spec [OF assms(1,2) len, of pa perm] assms(5) show ?thesis unfolding n by simp
qed

text \<open>With enough free pages for all 1024 tables \<open>mappages\<close> cannot fail.\<close>

lemma mappages_enough:
  assumes "vm_wf e k d ps" "va mod PGSIZE = 0" "sz mod PGSIZE = 0" "sz \<noteq> 0"
    "\<And>vb. unat (vb - va) < unat sz \<Longrightarrow> pte k d vb AND PTE_P = 0" "1024 < length ps + card (tables k d)"
  shows "\<exists>k' ps'. mappages d va sz pa perm k = Ok (0, k') \<and> vm_grow e d k ps k' ps' \<and>
    maps_to k k' d va (unat sz) pa perm \<and> 1024 < length ps' + card (tables k' d)"
proof -
  obtain r k' ps' where r: "mappages d va sz pa perm k = Ok (r, k')" "vm_grow e d k ps k' ps'"
    "r = 0 \<and> maps_to k k' d va (unat sz) pa perm \<or> r = - 1 \<and> ps' = []"
    using mappages_spec [OF assms(1-5)] by blast
  note c = vm_grow_cost [OF r(2) assms(1)]
  have "ps' \<noteq> []" using c(1) assms(6) card_tables [of k' d] by auto
  moreover have "1024 < length ps' + card (tables k' d)" using c assms(6) by linarith
  ultimately show ?thesis using r by auto
qed

section \<open>setupkvm\<close>

definition kmap_covers :: "kmap \<Rightarrow> uint \<Rightarrow> bool" where
  "kmap_covers km va \<longleftrightarrow> unat (va - virt km) < unat (phys_end km - phys_start km)"

definition kmap_ok :: "kmap \<Rightarrow> bool" where
  "kmap_ok km \<longleftrightarrow> virt km mod PGSIZE = 0 \<and> (phys_end km - phys_start km) mod PGSIZE = 0 \<and> phys_end km \<noteq> phys_start km"

lemma setupkvm_loop_spec:
  assumes "vm_wf e k d ps" "1024 < length ps + card (tables k d)" "\<forall>km\<in>set kms. kmap_ok km"
    "\<And>va km. km \<in> set kms \<Longrightarrow> kmap_covers km va \<Longrightarrow> pte k d va AND PTE_P = 0"
    "sorted_wrt (\<lambda>km km'. \<forall>va. \<not> (kmap_covers km va \<and> kmap_covers km' va)) kms"
  shows "\<exists>k' ps'. setupkvm_loop d kms k = Ok (d, k') \<and> vm_grow e d k ps k' ps' \<and> 1024 < length ps' + card (tables k' d) \<and>
    (\<forall>va. pte k' d va = (case find (\<lambda>km. kmap_covers km va) kms of
        Some km \<Rightarrow> (phys_start km + PGROUNDDOWN (va - virt km)) OR kperm km OR PTE_P | None \<Rightarrow> pte k d va))"
  using assms
proof (induction kms arbitrary: k ps)
  case Nil
  then show ?case using vm_grow_refl [of e k d ps] by auto
next
  case (Cons km kms)
  obtain k1 ps1 where k1: "mappages d (virt km) (phys_end km - phys_start km) (phys_start km) (kperm km) k = Ok (0, k1)"
    "vm_grow e d k ps k1 ps1" "maps_to k k1 d (virt km) (unat (phys_end km - phys_start km)) (phys_start km) (kperm km)"
    "1024 < length ps1 + card (tables k1 d)"
    using mappages_enough [OF Cons.prems(1), of "virt km" "phys_end km - phys_start km" "phys_start km" "kperm km"]
      Cons.prems(2,3,4) by (auto simp: kmap_ok_def kmap_covers_def)
  have p1: "pte k1 d va = (if kmap_covers km va then (phys_start km + PGROUNDDOWN (va - virt km)) OR kperm km OR PTE_P else pte k d va)" for va
    using k1(3) by (simp add: maps_to_def kmap_covers_def)
  have "pte k1 d va AND PTE_P = 0" if "km' \<in> set kms" "kmap_covers km' va" for va km'
    using that Cons.prems(4) [of km' va] Cons.prems(5) unfolding p1 by auto
  moreover have "vm_wf e k1 d ps1" using k1(2) by (simp add: vm_grow_def)
  ultimately obtain k' ps' where k': "setupkvm_loop d kms k1 = Ok (d, k')" "vm_grow e d k1 ps1 k' ps'"
    "1024 < length ps' + card (tables k' d)"
    "\<forall>va. pte k' d va = (case find (\<lambda>km. kmap_covers km va) kms of
        Some km \<Rightarrow> (phys_start km + PGROUNDDOWN (va - virt km)) OR kperm km OR PTE_P | None \<Rightarrow> pte k1 d va)"
    using Cons.IH [of k1 ps1] k1(4) Cons.prems(3,5) by auto
  have "find (\<lambda>km. kmap_covers km va) kms = None" if "kmap_covers km va" for va
    using Cons.prems(5) that by (auto simp: find_None_iff)
  then have "pte k' d va = (case find (\<lambda>km. kmap_covers km va) (km # kms) of
        Some km \<Rightarrow> (phys_start km + PGROUNDDOWN (va - virt km)) OR kperm km OR PTE_P | None \<Rightarrow> pte k d va)" for va
    using k'(4) p1 [of va] by (auto split: option.splits)
  then show ?case using k1(1) k' vm_grow_trans [OF k1(2) k'(2)] by auto
qed

lemma fresh_directory:
  assumes "kmem_rep e k (d # ps)"
  defines "k' \<equiv> kmemset d 0 PGSIZE (snd (kalloc k))"
  shows "fst (kalloc k) = d" "vm_wf e k' d ps" "tables k' d = {}" "pte k' d va = 0"
    "q \<noteq> d \<Longrightarrow> same_page (kmemory k) (kmemory k') q"
proof -
  obtain k1 where k1: "kalloc k = (d, k1)" "kmem_rep e k1 ps" "kmemory k1 = kmemory k"
    using kalloc_rep_Cons [OF assms(1)] by auto
  show "fst (kalloc k) = d" using k1 by simp
  have d: "page_ok e d" "d \<notin> set ps" using assms(1) by (auto simp: kmem_rep_def)
  note al = page_ok_aligned [OF d(1)]
  have k': "k' = k1\<lparr>kmemory := memset (kmemory k) d 0 PGSIZE\<rparr>" using k1 by (simp add: k'_def kmemset_def)
  have none: "ptab k' d i = None" if "i < 1024" for i
    using load_memset_page [OF al that] by (simp add: ptab_def kload_def k')
  then show t: "tables k' d = {}" by (auto simp: tables_def)
  show "pte k' d va = 0" by (simp add: pte_def none)
  show "q \<noteq> d \<Longrightarrow> same_page (kmemory k) (kmemory k') q" using memset_same_page [OF al] by (auto simp: k')
  have "kmem_rep e k' ps" using kmem_rep_memset [OF k1(2) al d(2), of 0] k1(3) by (simp add: k')
  then show "vm_wf e k' d ps" using d none by (simp add: vm_wf_def t)
qed

lemma PGROUNDDOWN_diff:
  assumes "a mod PGSIZE = 0" shows "PGROUNDDOWN (va - a) = PGROUNDDOWN va - a"
proof -
  have "PGROUNDDOWN (PGROUNDDOWN va - a + (va - PGROUNDDOWN va)) = PGROUNDDOWN va - a"
    by (rule PGROUNDDOWN_add [OF aligned_diff [OF PGROUNDDOWN_aligned assms]]) (simp add: page_offset)
  moreover have "PGROUNDDOWN va - a + (va - PGROUNDDOWN va) = va - a" by simp
  ultimately show ?thesis by (simp only:)
qed

lemma word_interval:
  fixes v b va :: uint
  assumes "v \<le> b"
  shows "unat (va - v) < unat (b - v) \<longleftrightarrow> v \<le> va \<and> va < b"
  using assms unat_less_32 [of v] unat_less_32 [of b] by (auto simp: unat_sub_if' word_le_nat_alt word_less_nat_alt split: if_splits)

text \<open>The entry of the kernel's part of every address space.\<close>

definition kernel_pte :: "uint \<Rightarrow> uint \<Rightarrow> uint" where
  "kernel_pte dt va =
     (if KERNBASE \<le> va \<and> va < KERNBASE + PHYSTOP
      then v2p (PGROUNDDOWN va) OR (if KERNLINK \<le> va \<and> va < dt then 0 else PTE_W) OR PTE_P
      else if DEVSPACE \<le> va then PGROUNDDOWN va OR PTE_W OR PTE_P
      else 0)"

lemma kmap_covers_table:
  assumes "KERNLINK < dt" "dt < KERNBASE + PHYSTOP"
  shows "map (\<lambda>km. kmap_covers km va) (kmap_table dt) =
    [KERNBASE \<le> va \<and> va < KERNLINK, KERNLINK \<le> va \<and> va < dt, dt \<le> va \<and> va < KERNBASE + PHYSTOP, DEVSPACE \<le> va]"
proof -
  have "unat (va - KERNBASE) < unat (KERNLINK - KERNBASE) \<longleftrightarrow> KERNBASE \<le> va \<and> va < KERNLINK"
    by (rule word_interval) simp
  moreover have "unat (va - KERNLINK) < unat (dt - KERNLINK) \<longleftrightarrow> KERNLINK \<le> va \<and> va < dt"
    using assms(1) by (intro word_interval) simp
  moreover have "unat (va - dt) < unat (KERNBASE + PHYSTOP - dt) \<longleftrightarrow> dt \<le> va \<and> va < KERNBASE + PHYSTOP"
    using assms(2) by (intro word_interval) simp
  moreover have "unat (va - DEVSPACE) < unat (0 - DEVSPACE) \<longleftrightarrow> DEVSPACE \<le> va"
    using unat_less_32 [of va] by (simp add: unat_sub_if' word_le_nat_alt) arith
  moreover have eqs: "v2p dt - v2p KERNLINK = dt - KERNLINK" "PHYSTOP - v2p dt = KERNBASE + PHYSTOP - dt"
    by (simp_all add: v2p_def)
  ultimately show ?thesis
    unfolding kmap_table_def kmap_covers_def list.map kmap.select_convs eqs by simp
qed

lemma kmap_table_find:
  assumes "KERNLINK < dt" "dt < KERNBASE + PHYSTOP" "dt mod PGSIZE = 0"
  shows "(case find (\<lambda>km. kmap_covers km va) (kmap_table dt) of
      Some km \<Rightarrow> (phys_start km + PGROUNDDOWN (va - virt km)) OR kperm km OR PTE_P | None \<Rightarrow> 0) = kernel_pte dt va"
proof -
  obtain k0 k1 k2 k3 where t: "kmap_table dt = [k0, k1, k2, k3]"
    and v: "virt k0 = KERNBASE" "virt k1 = KERNLINK" "virt k2 = dt" "virt k3 = DEVSPACE"
    and s: "phys_start k0 = v2p KERNBASE" "phys_start k1 = v2p KERNLINK" "phys_start k2 = v2p dt" "phys_start k3 = DEVSPACE"
    and perms: "kperm k0 = PTE_W" "kperm k1 = 0" "kperm k2 = PTE_W" "kperm k3 = PTE_W"
    by (simp add: kmap_table_def v2p_def)
  have c: "kmap_covers k0 va \<longleftrightarrow> KERNBASE \<le> va \<and> va < KERNLINK" "kmap_covers k1 va \<longleftrightarrow> KERNLINK \<le> va \<and> va < dt"
    "kmap_covers k2 va \<longleftrightarrow> dt \<le> va \<and> va < KERNBASE + PHYSTOP" "kmap_covers k3 va \<longleftrightarrow> DEVSPACE \<le> va"
    using kmap_covers_table [OF assms(1,2), of va] by (simp_all add: t)
  have p: "v2p a + PGROUNDDOWN (va - a) = v2p (PGROUNDDOWN va)" if "a mod PGSIZE = 0" for a
    using that by (simp add: v2p_def PGROUNDDOWN_diff)
  have p0: "v2p KERNBASE + PGROUNDDOWN (va - KERNBASE) = v2p (PGROUNDDOWN va)" by (rule p) simp
  have p1: "v2p KERNLINK + PGROUNDDOWN (va - KERNLINK) = v2p (PGROUNDDOWN va)" by (rule p) simp
  have p2: "v2p dt + PGROUNDDOWN (va - dt) = v2p (PGROUNDDOWN va)" by (rule p) (rule assms(3))
  have p3: "DEVSPACE + PGROUNDDOWN (va - DEVSPACE) = PGROUNDDOWN va" by (subst PGROUNDDOWN_diff) simp_all
  have order: "KERNBASE \<le> KERNLINK" "KERNLINK \<le> dt" "dt \<le> KERNBASE + PHYSTOP" "KERNBASE + PHYSTOP \<le> DEVSPACE"
    using assms(1,2) by simp_all
  show ?thesis
    using order unfolding kernel_pte_def
    by (auto simp only: t find.simps c v s perms p0 p1 p2 p3 option.case split: if_splits)
qed

definition data_sym_ok :: "uint \<Rightarrow> bool" where
  "data_sym_ok dt \<longleftrightarrow> KERNLINK < dt \<and> dt < KERNBASE + PHYSTOP \<and> dt mod PGSIZE = 0"

lemma kmap_table_ok:
  assumes "data_sym_ok dt"
  shows "\<forall>km\<in>set (kmap_table dt). kmap_ok km"
    "sorted_wrt (\<lambda>km km'. \<forall>va. \<not> (kmap_covers km va \<and> kmap_covers km' va)) (kmap_table dt)"
proof -
  have dt: "KERNLINK < dt" "dt < KERNBASE + PHYSTOP" "dt mod PGSIZE = 0" using assms by (simp_all add: data_sym_ok_def)
  have "(dt - KERNLINK) mod PGSIZE = 0" "(KERNBASE + PHYSTOP - dt) mod PGSIZE = 0"
    using dt(3) by (intro aligned_diff; simp)+
  moreover have "v2p dt - v2p KERNLINK = dt - KERNLINK" "PHYSTOP - v2p dt = KERNBASE + PHYSTOP - dt"
    "PHYSTOP \<noteq> v2p dt" "v2p dt \<noteq> v2p KERNLINK"
    using dt by (auto simp: v2p_def)
  ultimately show "\<forall>km\<in>set (kmap_table dt). kmap_ok km"
    using dt(3) unfolding kmap_table_def kmap_ok_def by (simp add: v2p_def)
  have c: "\<not> (kmap_covers (kmap_table dt ! i) va \<and> kmap_covers (kmap_table dt ! j) va)" if "i < j" "j < 4" for i j va
  proof -
    have l: "length (kmap_table dt) = 4" by (simp add: kmap_table_def)
    have b: "kmap_covers (kmap_table dt ! n) va = [KERNBASE \<le> va \<and> va < KERNLINK, KERNLINK \<le> va \<and> va < dt,
        dt \<le> va \<and> va < KERNBASE + PHYSTOP, DEVSPACE \<le> va] ! n" if "n < 4" for n
      using arg_cong [OF kmap_covers_table [OF dt(1,2), of va], of "\<lambda>xs. xs ! n"] that l by simp
    have "j = 1 \<or> j = 2 \<or> j = 3" "i = 0 \<or> i = 1 \<or> i = 2" using that by auto
    then show ?thesis
      using that dt(1,2) b [of i] b [of j] by (elim disjE) (auto simp: word_le_nat_alt word_less_nat_alt)
  qed
  then show "sorted_wrt (\<lambda>km km'. \<forall>va. \<not> (kmap_covers km va \<and> kmap_covers km' va)) (kmap_table dt)"
    by (auto simp: sorted_wrt_iff_nth_less kmap_table_def)
qed

lemma setupkvm_spec:
  assumes "kmem_rep e k (d # ps)" "1024 < length ps" "data_sym_ok dt"
  shows "\<exists>k' ps' us. setupkvm dt k = Ok (d, k') \<and> vm_wf e k' d ps' \<and> ps = us @ ps' \<and> tables k' d = set us \<and>
    (\<forall>va. pte k' d va = kernel_pte dt va) \<and> (\<forall>q. q \<notin> insert d (set us) \<longrightarrow> same_page (kmemory k) (kmemory k') q) \<and>
    1024 < length ps' + card (tables k' d)"
proof -
  note fr = fresh_directory [OF assms(1)]
  define k0 where "k0 = kmemset d 0 PGSIZE (snd (kalloc k))"
  note f = fr(2-5) [folded k0_def]
  obtain k' ps' where k': "setupkvm_loop d (kmap_table dt) k0 = Ok (d, k')" "vm_grow e d k0 ps k' ps'"
    "1024 < length ps' + card (tables k' d)"
    "\<forall>va. pte k' d va = (case find (\<lambda>km. kmap_covers km va) (kmap_table dt) of
        Some km \<Rightarrow> (phys_start km + PGROUNDDOWN (va - virt km)) OR kperm km OR PTE_P | None \<Rightarrow> pte k0 d va)"
    using setupkvm_loop_spec [OF f(1), of "kmap_table dt"] kmap_table_ok [OF assms(3)] assms(2) f(2,3) by auto
  have d0: "d \<noteq> 0" using assms(1) page_ok_nonzero by (auto simp: kmem_rep_def)
  have "setupkvm dt k = Ok (d, k')"
    using fr(1) d0 k'(1) by (cases "kalloc k") (simp add: setupkvm_def Let_def k0_def p2v_def)
  moreover have "pte k' d va = kernel_pte dt va" for va
    using k'(4) kmap_table_find [of dt va] assms(3) unfolding f(3) by (simp add: data_sym_ok_def)
  moreover obtain us where "ps = us @ ps'" "tables k' d = set us" "vm_wf e k' d ps'"
    using k'(2) f(2) by (auto simp: vm_grow_def)
  moreover have "same_page (kmemory k) (kmemory k') q" if "q \<notin> insert d (tables k' d)" for q
    using k'(2) f(4) that by (auto simp: vm_grow_def intro: same_page_trans)
  ultimately show ?thesis using k'(3) by metis
qed

section \<open>Properties\<close>

text \<open>C19: \<open>mappages\<close> on unmapped pages never panics: either it maps exactly the pages of the range, each
  to its physical page with the given permissions, and changes no other translation, or it returns -1
  and then the free list is exhausted, which cannot happen when there are pages for all tables. Only the directory and its page tables are written.\<close>

theorem mappages_correct:
  assumes "vm_wf e k d ps" and "va mod PGSIZE = 0" and "sz mod PGSIZE = 0" and "sz \<noteq> 0"
    and "\<And>vb. unat (vb - va) < unat sz \<Longrightarrow> pte k d vb AND PTE_P = 0"
  shows "\<exists>r k' ps'. mappages d va sz pa perm k = Ok (r, k') \<and> vm_wf e k' d ps' \<and>
    (\<forall>q. q \<notin> insert d (tables k' d) \<longrightarrow> same_page (kmemory k) (kmemory k') q) \<and>
    (r = 0 \<and> (\<forall>vb. pte k' d vb = (if unat (vb - va) < unat sz then (pa + PGROUNDDOWN (vb - va)) OR perm OR PTE_P
                                    else pte k d vb)) \<or>
     r = - 1 \<and> ps' = []) \<and>
    (1024 < length ps + card (tables k d) \<longrightarrow> r = 0)"
proof (cases "1024 < length ps + card (tables k d)")
  case True
  from mappages_enough [OF assms True, of pa perm] show ?thesis unfolding vm_grow_def maps_to_def by blast
next
  case False
  from mappages_spec [OF assms, of pa perm] False show ?thesis unfolding vm_grow_def maps_to_def by blast
qed

text \<open>C16: \<open>setupkvm\<close> with enough free memory builds the kernel's address space: physical memory is mapped at
  \<open>KERNBASE\<close>, the kernel text is not writable, the devices are mapped one to one, no entry is
  accessible to user code, and nothing is mapped below \<open>KERNBASE\<close>.\<close>

theorem setupkvm_direct_map:
  assumes "kmem_rep e k (d # ps)" and "1024 < length ps" and "data_sym_ok dt"
  shows "\<exists>k' ps'. setupkvm dt k = Ok (d, k') \<and> vm_wf e k' d ps' \<and>
    (\<forall>va. if KERNBASE \<le> va \<and> va < KERNBASE + PHYSTOP
          then pte k' d va = v2p (PGROUNDDOWN va) OR (if KERNLINK \<le> va \<and> va < dt then 0 else PTE_W) OR PTE_P
          else if DEVSPACE \<le> va then pte k' d va = PGROUNDDOWN va OR PTE_W OR PTE_P
          else pte k' d va = 0)"
  using setupkvm_spec [OF assms] unfolding kernel_pte_def by metis

lemma free_pages_exist:
  assumes "n \<le> 50000"
  shows "\<exists>k. kmem_rep 0x80200000 k (rev (page_range 0x80200000 n))"
proof -
  define vend :: addr where "vend = 0x80200000 + of_nat n * PGSIZE"
  have u: "unat (of_nat n * PGSIZE :: addr) = n * 4096" using assms by (simp add: unat_word_ariths unat_of_nat)
  have "unat vend = unat (0x80200000 :: addr) + unat (of_nat n * PGSIZE :: addr)"
    unfolding vend_def by (rule unat_add_small) (use assms in \<open>simp add: u\<close>)
  then have v: "unat vend = 0x80200000 + n * 4096" by (simp only: u) simp
  have "\<exists>k. freerange_loop 0x80200000 0x80200000 vend kmem_boot = Ok k \<and>
      kmem_rep 0x80200000 k (rev (page_range 0x80200000 n) @ [])"
    by (rule freerange_loop_rep) (use assms kmem_boot_rep in \<open>simp_all add: v\<close>)
  then show ?thesis by auto
qed

lemma length_page_range [simp]: "length (page_range p n) = n"
  by (simp add: page_range_def)

lemma some_free_pages:
  obtains k d ps where "kmem_rep 0x80200000 k (d # ps)" "length ps = 3999"
proof -
  obtain k where k: "kmem_rep 0x80200000 k (rev (page_range 0x80200000 4000))" using free_pages_exist [of 4000] by auto
  moreover obtain d ps where ps: "rev (page_range 0x80200000 4000) = d # ps" "length ps = 3999"
    by (cases "rev (page_range 0x80200000 4000)") (auto dest: arg_cong [of _ _ length])
  ultimately show ?thesis using that by simp
qed

theorem mappages_correct_witness:
  "\<exists>k d k'. mappages d 0x1000 0x2000 0x5000 6 k = Ok (0, k') \<and> pte k' d 0x2345 = 0x6007"
proof -
  obtain k d ps where k: "kmem_rep 0x80200000 k (d # ps)" "length ps = 3999" by (rule some_free_pages)
  define k0 where "k0 = kmemset d 0 PGSIZE (snd (kalloc k))"
  note f = fresh_directory(2-4) [OF k(1), folded k0_def]
  obtain k' where "mappages d 0x1000 0x2000 0x5000 6 k0 = Ok (0, k')"
    and m: "\<forall>vb. pte k' d vb = (if unat (vb - 0x1000) < unat (0x2000 :: uint) then (0x5000 + PGROUNDDOWN (vb - 0x1000)) OR 6 OR PTE_P
                                    else pte k0 d vb)"
    using mappages_correct [OF f(1), of "0x1000" "0x2000" "0x5000" 6] f(2,3) k(2) by auto
  moreover have "pte k' d 0x2345 = 0x6007" using m by (simp add: PGROUNDDOWN_def)
  ultimately show ?thesis by blast
qed

theorem setupkvm_direct_map_witness:
  "\<exists>k k' d. setupkvm 0x80110000 k = Ok (d, k') \<and> pte k' d 0x80400123 = 0x400003 \<and> pte k' d 0x1000 = 0"
proof -
  obtain k d ps where k: "kmem_rep 0x80200000 k (d # ps)" "length ps = 3999" by (rule some_free_pages)
  moreover have "data_sym_ok 0x80110000" by (simp add: data_sym_ok_def)
  ultimately obtain k' where "setupkvm 0x80110000 k = Ok (d, k')" and
    m: "\<forall>va. if KERNBASE \<le> va \<and> va < KERNBASE + PHYSTOP
          then pte k' d va = v2p (PGROUNDDOWN va) OR (if KERNLINK \<le> va \<and> va < 0x80110000 then 0 else PTE_W) OR PTE_P
          else if DEVSPACE \<le> va then pte k' d va = PGROUNDDOWN va OR PTE_W OR PTE_P
          else pte k' d va = 0"
    using setupkvm_direct_map [of "0x80200000" k d ps "0x80110000"] by auto
  moreover have "pte k' d 0x80400123 = 0x400003 \<and> pte k' d 0x1000 = 0"
    using m [rule_format, of "0x80400123"] m [rule_format, of "0x1000"] by (simp add: PGROUNDDOWN_def v2p_def)
  ultimately show ?thesis by blast
qed

end
