(* ===== verification/Xv6_Fork_Vm.thy ===== *)
theory Xv6_Fork_Vm
  imports Xv6_Paging
begin

text \<open>
  \<open>copyuvm\<close>, the address space of a forked child, and \<open>copyout\<close>: the child sees the same bytes
  through fresh pages and the parent is untouched.
\<close>

section \<open>User memory\<close>

definition upage :: "kmem \<Rightarrow> addr \<Rightarrow> uint \<Rightarrow> addr" where
  "upage k d va = p2v (PTE_ADDR (pte k d va))"

definition ubyte :: "kmem \<Rightarrow> addr \<Rightarrow> uint \<Rightarrow> uchar" where
  "ubyte k d va = kmemory k (upage k d va + (va - PGROUNDDOWN va))"

abbreviation (input) own_pages :: "kmem \<Rightarrow> addr \<Rightarrow> addr set" where
  "own_pages k d \<equiv> insert d (tables k d)"

text \<open>
  The user part of an address space of \<open>sz\<close> bytes: every page is present, and backed by a page of
  the allocator that is neither free nor a page table.
\<close>

definition user_space :: "addr \<Rightarrow> kmem \<Rightarrow> addr \<Rightarrow> uint \<Rightarrow> addr list \<Rightarrow> bool" where
  "user_space e k d sz ps \<longleftrightarrow> vm_wf e k d ps \<and>
     (\<forall>va. PGROUNDDOWN va < sz \<longrightarrow> pte k d va AND PTE_P \<noteq> 0 \<and> page_ok e (upage k d va) \<and>
        upage k d va \<notin> set ps \<union> own_pages k d)"

lemma upage_aligned [simp]: "upage k d va mod PGSIZE = 0"
  by (simp add: upage_def PTE_ADDR_page p2v_aligned)

lemma ubyte_in_page: "PGROUNDDOWN (upage k d va + (va - PGROUNDDOWN va)) = upage k d va"
  by (rule PGROUNDDOWN_add) (simp_all add: page_offset)

lemma pte_page: "pte k d (PGROUNDDOWN va) = pte k d va"
proof -
  have "PDX (PGROUNDDOWN va) = PDX va \<and> PTX (PGROUNDDOWN va) = PTX va"
    unfolding same_index_iff by simp
  then show ?thesis by (simp only: pte_def)
qed

lemma upage_page: "upage k d (PGROUNDDOWN va) = upage k d va"
  by (simp add: upage_def pte_page)

text \<open>Copying one page of user memory into a page that is free.\<close>

lemma memmove_page:
  assumes "page_ok e p" "page_ok e q" "p \<noteq> q"
  shows "memmove m q p PGSIZE a = (if PGROUNDDOWN a = q then m (p + (a - q)) else m a)"
proof -
  have b: "unat p < 0xFFFFF000" "unat q < 0xFFFFF000"
    using assms(1,2) by (auto simp: page_ok_def v2p_def word_less_nat_alt unat_sub_if' split: if_splits)
  have "memmove m q p PGSIZE = (\<lambda>a. if a - q < PGSIZE then m (p + (a - q)) else m a)"
    using b by (intro memmove_apply) auto
  then show ?thesis
    using in_page_iff [OF page_ok_aligned [OF assms(2)]] by (simp add: word_less_nat_alt)
qed

section \<open>copyuvm\<close>

text \<open>
  The page of \<open>va\<close> has been copied: the child's entry is present with the parent's flags and refers
  to a page of its own with the same bytes. \<open>k0\<close> is the memory before the copy.
\<close>

definition page_copied :: "addr \<Rightarrow> kmem \<Rightarrow> kmem \<Rightarrow> addr \<Rightarrow> addr \<Rightarrow> uint \<Rightarrow> addr list \<Rightarrow> uint \<Rightarrow> bool" where
  "page_copied e k0 k pg d sz ps va \<longleftrightarrow> pte k d va AND PTE_P \<noteq> 0 \<and> PTE_FLAGS (pte k d va) = PTE_FLAGS (pte k0 pg va) \<and>
     page_ok e (upage k d va) \<and> upage k d va \<notin> set ps \<union> own_pages k pg \<union> own_pages k d \<and>
     (\<forall>vb. PGROUNDDOWN vb < sz \<longrightarrow> upage k d va \<noteq> upage k0 pg vb) \<and>
     (\<forall>j. unat j < 4096 \<longrightarrow> kmemory k (upage k d va + j) = kmemory k0 (upage k0 pg va + j))"

definition copy_inv :: "addr \<Rightarrow> uint \<Rightarrow> kmem \<Rightarrow> addr \<Rightarrow> uint \<Rightarrow> addr \<Rightarrow> uint \<Rightarrow> kmem \<Rightarrow> addr list \<Rightarrow> bool" where
  "copy_inv e dt k0 pg sz d i k ps \<longleftrightarrow>
     vm_wf e k pg ps \<and> vm_wf e k d ps \<and> own_pages k pg \<inter> own_pages k d = {} \<and>
     (\<forall>va. pte k pg va = pte k0 pg va) \<and>
     (\<forall>va. PGROUNDDOWN va < sz \<longrightarrow> upage k0 pg va \<notin> set ps \<union> own_pages k pg \<union> own_pages k d \<and>
        same_page (kmemory k0) (kmemory k) (upage k0 pg va)) \<and>
     (\<forall>va. PGROUNDDOWN va < i \<longrightarrow> page_copied e k0 k pg d sz ps va) \<and>
     (\<forall>va. \<not> PGROUNDDOWN va < i \<longrightarrow> pte k d va = kernel_pte dt va)"

lemma aligned_less_next:
  assumes "i mod PGSIZE = 0" "unat i < 0xFFFFF000"
  shows "PGROUNDDOWN va < i + PGSIZE \<longleftrightarrow> PGROUNDDOWN va < i \<or> PGROUNDDOWN va = i"
proof -
  obtain q where q: "unat i = 4096 * q" using assms(1) unfolding unat_mod_page by (auto elim: dvdE simp: mod_eq_0_iff_dvd)
  have "unat (i + PGSIZE) = unat i + 4096" using assms(2) by (subst unat_add_small) simp_all
  then show ?thesis
    by (auto simp: word_less_nat_alt word_unat_eq_iff unat_PGROUNDDOWN q)
qed

lemma same_page_offset:
  "same_page m m' p \<Longrightarrow> p mod PGSIZE = 0 \<Longrightarrow> unat j < 4096 \<Longrightarrow> m' (p + j) = m (p + j)"
  using PGROUNDDOWN_add [of p j] by (simp add: same_page_def)

text \<open>
  The invariant survives a change of memory that stays in the child's page tables and in the page
  \<open>mem\<close> taken from the free list, when it maps the page \<open>i\<close>.
\<close>

lemma copy_transfer:
  assumes inv: "copy_inv e dt k0 pg sz d i k ps" and i: "i mod PGSIZE = 0" "unat i < 0xFFFFF000"
    and wf: "vm_wf e k' d ps'" and sub: "set ps' \<subseteq> set ps" "own_pages k' d \<subseteq> own_pages k d \<union> set ps" "mem \<in> set ps"
    and same: "\<And>q. q \<notin> own_pages k' d \<Longrightarrow> q \<noteq> mem \<Longrightarrow> same_page (kmemory k) (kmemory k') q"
    and ptes: "\<And>va. PGROUNDDOWN va \<noteq> i \<Longrightarrow> pte k' d va = pte k d va"
    and new: "\<And>va. own_pages k' pg = own_pages k pg \<Longrightarrow> PGROUNDDOWN va = i \<Longrightarrow> page_copied e k0 k' pg d sz ps' va"
  shows "copy_inv e dt k0 pg sz d (i + PGSIZE) k' ps'"
proof -
  note I = inv [unfolded copy_inv_def]
  have dis: "own_pages k pg \<inter> own_pages k' d = {}" "mem \<notin> own_pages k pg"
    using I sub by (auto simp: vm_wf_def)
  have pgsame: "\<And>q. q \<in> own_pages k pg \<Longrightarrow> same_page (kmemory k) (kmemory k') q"
    using dis by (intro same) auto
  have rep: "kmem_rep e k' ps'" using wf by (simp add: vm_wf_def)
  have wfpg: "vm_wf e k pg ps" using I by blast
  note pgf = vm_wf_frame [OF wfpg rep sub(1) pgsame]
  have own: "own_pages k' pg = own_pages k pg" using pgf(4) by simp
  have old: "page_copied e k0 k' pg d sz ps' va" if va: "PGROUNDDOWN va < i" for va
  proof -
    have c: "page_copied e k0 k pg d sz ps va" using I va by blast
    have u: "upage k' d va = upage k d va" "pte k' d va = pte k d va" using ptes [of va] va by (auto simp: upage_def)
    have ni: "upage k d va \<notin> own_pages k' d" "upage k d va \<noteq> mem" using c sub by (auto simp: page_copied_def)
    have "kmemory k' (upage k d va + j) = kmemory k (upage k d va + j)" if "unat j < 4096" for j
      using same_page_offset [OF same [OF ni] upage_aligned that] .
    then show ?thesis using c ni sub(1) unfolding page_copied_def u own by auto
  qed
  have data: "upage k0 pg va \<notin> set ps' \<union> own_pages k' pg \<union> own_pages k' d \<and>
      same_page (kmemory k0) (kmemory k') (upage k0 pg va)" if "PGROUNDDOWN va < sz" for va
  proof -
    have a: "upage k0 pg va \<notin> set ps \<union> own_pages k pg \<union> own_pages k d" "same_page (kmemory k0) (kmemory k) (upage k0 pg va)"
      using I that by auto
    then have "same_page (kmemory k) (kmemory k') (upage k0 pg va)" using sub by (intro same) auto
    then show ?thesis using a sub unfolding own by (blast intro: same_page_trans)
  qed
  show ?thesis
    unfolding copy_inv_def aligned_less_next [OF i] own
    using pgf(1) wf dis(1) pgf(3) I data [unfolded own] old new [OF own] ptes by auto
qed

lemma PTE_FLAGS_less: "PTE_FLAGS x < PGSIZE"
  by (simp add: PTE_FLAGS_def and_mask12 word_less_nat_alt unat_mod take_bit_eq_mod)

lemma PTE_FLAGS_present: "x AND PTE_P \<noteq> 0 \<Longrightarrow> PTE_FLAGS x OR PTE_P = PTE_FLAGS x"
proof -
  assume "x AND PTE_P \<noteq> 0"
  then have "bit x 0" by (simp add: and_one_eq bit_0 odd_iff_mod_2_eq_one)
  then show ?thesis
    unfolding PTE_FLAGS_def and_mask12 by (auto intro!: bit_word_eqI simp: bit_simps bit_1_iff)
qed

lemma user_below_kernel:
  "PGROUNDDOWN va < sz \<Longrightarrow> sz \<le> KERNBASE \<Longrightarrow> kernel_pte dt va = 0"
proof -
  assume "PGROUNDDOWN va < sz" "sz \<le> KERNBASE"
  then have "unat va div 4096 * 4096 < 0x80000000" by (simp add: word_less_nat_alt word_le_nat_alt unat_PGROUNDDOWN)
  then have "unat va < 0x80000000" by simp
  then show ?thesis by (simp add: kernel_pte_def word_le_nat_alt)
qed

text \<open>The first half of a round of \<open>copyuvm\<close>: a free page is filled with the parent's page.\<close>

lemma copy_fill:
  assumes inv: "copy_inv e dt k0 pg sz d i k (mem # ps)" and us: "user_space e k0 pg sz ps0" and i: "PGROUNDDOWN i < sz"
  defines "k2 \<equiv> kmemmove mem (upage k0 pg i) PGSIZE (snd (kalloc k))"
  shows "fst (kalloc k) = mem" "vm_wf e k2 d ps" "tables k2 d = tables k d" "pte k2 d va = pte k d va"
    "q \<noteq> mem \<Longrightarrow> same_page (kmemory k) (kmemory k2) q"
    "unat j < 4096 \<Longrightarrow> kmemory k2 (mem + j) = kmemory k0 (upage k0 pg i + j)"
proof -
  note I = inv [unfolded copy_inv_def]
  define P where "P = upage k0 pg i"
  have P: "page_ok e P" "P \<notin> set (mem # ps)" "same_page (kmemory k0) (kmemory k) P"
    using us I i unfolding user_space_def P_def by (metis Un_iff)+
  obtain k1 where k1: "kalloc k = (mem, k1)" "kmem_rep e k1 ps" "kmemory k1 = kmemory k"
    using I kalloc_rep_Cons [of e k mem ps] by (auto simp: vm_wf_def)
  show "fst (kalloc k) = mem" using k1 by simp
  have m: "page_ok e mem" "mem \<notin> set ps" "mem \<notin> own_pages k d"
    using I by (auto simp: vm_wf_def kmem_rep_def)
  have m2: "kmemory k2 a = (if PGROUNDDOWN a = mem then kmemory k (P + (a - mem)) else kmemory k a)" for a
    using memmove_page [OF P(1) m(1)] P(2) k1 by (auto simp: k2_def P_def kmemmove_def)
  then show s2: "same_page (kmemory k) (kmemory k2) q" if "q \<noteq> mem" for q
    using that by (simp add: same_page_def)
  have "kmem_rep e (k1\<lparr>kmemory := kmemory k2\<rparr>) ps"
    using k1 m(2) by (intro kmem_rep_same_pages) (auto intro!: s2)
  then have rep2: "kmem_rep e k2 ps" using k1 by (simp add: k2_def kmemmove_def)
  have wfd: "vm_wf e k d (mem # ps)" using I by blast
  have sd: "\<And>q. q \<in> own_pages k d \<Longrightarrow> same_page (kmemory k) (kmemory k2) q" using m(3) by (intro s2) auto
  show "vm_wf e k2 d ps" "tables k2 d = tables k d" "pte k2 d va = pte k d va"
    using vm_wf_frame [OF wfd rep2 set_subset_Cons sd] by simp_all
  show "kmemory k2 (mem + j) = kmemory k0 (upage k0 pg i + j)" if "unat j < 4096"
  proof -
    have "kmemory k2 (mem + j) = kmemory k (P + j)" using PGROUNDDOWN_add [OF page_ok_aligned [OF m(1)] that] by (simp add: m2)
    also have "\<dots> = kmemory k0 (P + j)" using same_page_offset [OF P(3) page_ok_aligned [OF P(1)] that] .
    finally show ?thesis by (simp add: P_def)
  qed
qed

text \<open>The entry that maps the filled page.\<close>

lemma copied_entry:
  assumes "maps_to k2 k3 d i 4096 (v2p mem) (PTE_FLAGS (pte k0 pg i))" "pte k0 pg i AND PTE_P \<noteq> 0"
    "page_ok e mem" "PGROUNDDOWN va = i"
  shows "pte k3 d va AND PTE_P \<noteq> 0" "PTE_FLAGS (pte k3 d va) = PTE_FLAGS (pte k0 pg va)" "upage k3 d va = mem"
proof -
  have "i mod PGSIZE = 0" using assms(4) PGROUNDDOWN_aligned by blast
  then have "unat (va - i) < 4096" using assms(4) in_page_iff [of i va] by simp
  then have "PGROUNDDOWN (va - i) = 0" "pte k3 d va = (v2p mem + PGROUNDDOWN (va - i)) OR PTE_FLAGS (pte k0 pg i) OR PTE_P"
    using assms(1) by (simp_all add: maps_to_def word_unat_eq_iff unat_PGROUNDDOWN)
  then have e: "pte k3 d va = v2p mem OR PTE_FLAGS (pte k0 pg i)"
    by (simp add: PTE_FLAGS_present [OF assms(2)])
  note vm = v2p_aligned [OF page_ok_aligned [OF assms(3)]]
  show "pte k3 d va AND PTE_P \<noteq> 0"
    unfolding e by (subst PTE_FLAGS_present [OF assms(2), symmetric]) simp
  show "PTE_FLAGS (pte k3 d va) = PTE_FLAGS (pte k0 pg va)"
    unfolding e PTE_FLAGS_or [OF vm PTE_FLAGS_less] using pte_page [of k0 pg va] assms(4) by simp
  show "upage k3 d va = mem" unfolding upage_def e PTE_ADDR_or [OF vm PTE_FLAGS_less] by simp
qed

lemma copy_step:
  assumes inv: "copy_inv e dt k0 pg sz d i k (mem # ps)" and us: "user_space e k0 pg sz ps0"
    and i: "i mod PGSIZE = 0" "i < sz" "sz \<le> KERNBASE" and enough: "1024 < length ps + card (tables k d)"
  shows "\<exists>k3 ps3. mappages d i PGSIZE (v2p mem) (PTE_FLAGS (pte k0 pg i)) (kmemmove mem (upage k0 pg i) PGSIZE (snd (kalloc k))) = Ok (0, k3) \<and>
    copy_inv e dt k0 pg sz d (i + PGSIZE) k3 ps3 \<and> length ps3 + card (tables k3 d) = length ps + card (tables k d)"
proof -
  note I = inv [unfolded copy_inv_def]
  have pi: "PGROUNDDOWN i < sz" using i by simp
  define k2 where "k2 = kmemmove mem (upage k0 pg i) PGSIZE (snd (kalloc k))"
  note f = copy_fill(2-6) [OF inv us pi, folded k2_def]
  have m: "page_ok e mem" "mem \<notin> set ps" "mem \<notin> own_pages k pg" "mem \<notin> own_pages k d"
    using I by (auto simp: vm_wf_def kmem_rep_def)
  have free: "pte k2 d vb AND PTE_P = 0" if "unat (vb - i) < unat (PGSIZE :: uint)" for vb
  proof -
    have "PGROUNDDOWN vb = i" using that in_page_iff [OF i(1)] by simp
    then show ?thesis using I f(3) user_below_kernel [of vb sz dt] i(2,3) by simp
  qed
  have "\<exists>k3 ps3. mappages d i PGSIZE (v2p mem) (PTE_FLAGS (pte k0 pg i)) k2 = Ok (0, k3) \<and> vm_grow e d k2 ps k3 ps3 \<and>
      maps_to k2 k3 d i (unat (PGSIZE :: uint)) (v2p mem) (PTE_FLAGS (pte k0 pg i)) \<and> 1024 < length ps3 + card (tables k3 d)"
    by (rule mappages_enough [OF f(1) i(1) _ _ free]) (use enough f(2) in simp_all)
  then obtain k3 ps3 where k3: "mappages d i PGSIZE (v2p mem) (PTE_FLAGS (pte k0 pg i)) k2 = Ok (0, k3)" "vm_grow e d k2 ps k3 ps3"
    "maps_to k2 k3 d i 4096 (v2p mem) (PTE_FLAGS (pte k0 pg i))" by auto
  obtain us3 where us3: "ps = us3 @ ps3" "tables k3 d = tables k d \<union> set us3" "vm_wf e k3 d ps3"
    and s3: "\<And>q. q \<notin> own_pages k3 d \<Longrightarrow> same_page (kmemory k2) (kmemory k3) q"
    using k3(2) f(2) by (auto simp: vm_grow_def)
  have mem3: "mem \<notin> own_pages k3 d" "mem \<notin> set ps3" using m us3 by auto
  have present: "pte k0 pg i AND PTE_P \<noteq> 0" using us pi by (simp add: user_space_def)
  have new: "page_copied e k0 k3 pg d sz ps3 va" if va: "PGROUNDDOWN va = i" and own: "own_pages k3 pg = own_pages k pg" for va
  proof -
    note ce = copied_entry [OF k3(3) present m(1) va]
    have "kmemory k3 (mem + j) = kmemory k0 (upage k0 pg va + j)" if "unat j < 4096" for j
      using same_page_offset [OF s3 [OF mem3(1)] page_ok_aligned [OF m(1)] that] f(5) [OF that]
        upage_page [of k0 pg va] va by simp
    moreover have "mem \<noteq> upage k0 pg vb" if "PGROUNDDOWN vb < sz" for vb using I that by auto
    ultimately show ?thesis using m mem3 ce unfolding page_copied_def own by auto
  qed
  have ptes: "pte k3 d va = pte k d va" if "PGROUNDDOWN va \<noteq> i" for va
    using k3(3) that in_page_iff [OF i(1), of va] f(3) by (simp add: maps_to_def)
  have "unat i < 0xFFFFF000" using i(2,3) by (simp add: word_less_nat_alt word_le_nat_alt)
  moreover have "same_page (kmemory k) (kmemory k3) q" if "q \<notin> own_pages k3 d" "q \<noteq> mem" for q
    using same_page_trans [OF f(4) [OF that(2)] s3 [OF that(1)]] .
  ultimately have "copy_inv e dt k0 pg sz d (i + PGSIZE) k3 ps3"
    using us3 ptes new by (intro copy_transfer [OF inv i(1), where mem = mem]) auto
  moreover have "length ps3 + card (tables k3 d) = length ps + card (tables k d)"
    using vm_grow_cost [OF k3(2) f(1)] f(2) by auto
  ultimately show ?thesis using k3(1) unfolding k2_def by auto
qed

lemma walkpgdir_present:
  assumes "vm_wf e k d ps" "pte k d va AND PTE_P \<noteq> 0"
  shows "fst (walkpgdir d va False k) \<noteq> 0" "kload k (fst (walkpgdir d va False k)) = pte k d va"
proof -
  obtain t where "ptab k d (PDX va) = Some t" using assms(2) by (auto simp: pte_def split: option.splits)
  then show "fst (walkpgdir d va False k) \<noteq> 0" "kload k (fst (walkpgdir d va False k)) = pte k d va"
    using entry_nonzero [OF assms(1)] by (simp_all add: walkpgdir_get pte_def)
qed

lemma copyuvm_loop_ok:
  assumes "copy_inv e dt k0 pg sz d i k ps" "user_space e k0 pg sz ps0" "i mod PGSIZE = 0" "sz \<le> KERNBASE"
    "unat sz \<le> unat i + 4096 * n" "1024 + n < length ps + card (tables k d)" "i \<le> KERNBASE"
  shows "\<exists>k' ps' i'. copyuvm_loop n e pg d i sz k = Ok (d, k') \<and> copy_inv e dt k0 pg sz d i' k' ps' \<and> sz \<le> i' \<and> i' \<le> KERNBASE"
  using assms
proof (induction n arbitrary: i k ps)
  case 0
  then have "sz \<le> i" by (simp add: word_le_nat_alt)
  then show ?case using 0 by (auto simp: not_less)
next
  case (Suc n)
  show ?case
  proof (cases "i < sz")
    case False
    then show ?thesis using Suc.prems(1,7) by (auto simp: not_less)
  next
    case True
    obtain mem ps1 where ps: "ps = mem # ps1" using Suc.prems(6) card_tables [of k d] by (cases ps) auto
    note inv = Suc.prems(1) [unfolded ps]
    have pi: "PGROUNDDOWN i < sz" using Suc.prems(3) True by simp
    have wf: "vm_wf e k pg ps" and eq: "pte k pg i = pte k0 pg i" using Suc.prems(1) by (auto simp: copy_inv_def)
    have present: "pte k pg i AND PTE_P \<noteq> 0" using Suc.prems(2) pi eq by (simp add: user_space_def)
    note w = walkpgdir_present [OF wf present]
    have mem: "fst (kalloc k) = mem" "mem \<noteq> 0"
      using copy_fill(1) [OF inv Suc.prems(2) pi] inv page_ok_nonzero by (auto simp: copy_inv_def vm_wf_def kmem_rep_def)
    obtain k3 ps3 where k3: "mappages d i PGSIZE (v2p mem) (PTE_FLAGS (pte k0 pg i)) (kmemmove mem (upage k0 pg i) PGSIZE (snd (kalloc k))) = Ok (0, k3)"
      "copy_inv e dt k0 pg sz d (i + PGSIZE) k3 ps3" "length ps3 + card (tables k3 d) = length ps1 + card (tables k d)"
      using copy_step [OF inv Suc.prems(2,3) True Suc.prems(4)] Suc.prems(6) ps by auto
    have i4: "unat (i + PGSIZE) = unat i + 4096"
      using True Suc.prems(4) by (subst unat_add_small) (simp_all add: word_less_nat_alt word_le_nat_alt)
    moreover have "i + PGSIZE \<le> KERNBASE"
      using True Suc.prems(3,4) unfolding unat_mod_page
      by (auto simp: word_less_nat_alt word_le_nat_alt i4 mod_eq_0_iff_dvd elim!: dvdE)
    ultimately obtain k' ps' i' where "copyuvm_loop n e pg d (i + PGSIZE) sz k3 = Ok (d, k')" "copy_inv e dt k0 pg sz d i' k' ps'" "sz \<le> i'"
      "i' \<le> KERNBASE"
      using Suc.IH [OF k3(2) Suc.prems(2) aligned_add [OF Suc.prems(3)] Suc.prems(4)] Suc.prems(5,6) k3(3) ps by auto
    moreover have "copyuvm_loop (Suc n) e pg d i sz k = copyuvm_loop n e pg d (i + PGSIZE) sz k3"
      using True w present mem k3(1) eq by (cases "kalloc k") (simp add: Let_def upage_def)
    ultimately show ?thesis by metis
  qed
qed

text \<open>
  The invariant holds when the loop starts: the child has its kernel mappings only.
\<close>

lemma copy_inv_start:
  assumes us: "user_space e k pg sz (d # ps)" and len: "1024 < length ps" and dt: "data_sym_ok dt"
  shows "\<exists>k' ps'. setupkvm dt k = Ok (d, k') \<and> copy_inv e dt k pg sz d 0 k' ps' \<and> length ps \<le> length ps' + card (tables k' d)"
proof -
  have wf: "vm_wf e k pg (d # ps)" using us by (simp add: user_space_def)
  then have rep: "kmem_rep e k (d # ps)" by (simp add: vm_wf_def)
  obtain k' ps' us' where k': "setupkvm dt k = Ok (d, k')" "vm_wf e k' d ps'" "ps = us' @ ps'" "tables k' d = set us'"
    "\<forall>va. pte k' d va = kernel_pte dt va" "\<forall>q. q \<notin> insert d (set us') \<longrightarrow> same_page (kmemory k) (kmemory k') q"
    using setupkvm_spec [OF rep len dt] by auto
  have pg: "own_pages k pg \<inter> insert d (set us') = {}" using wf k'(3) by (auto simp: vm_wf_def)
  have rep': "kmem_rep e k' ps'" using k'(2) by (simp add: vm_wf_def)
  have sub: "set ps' \<subseteq> set (d # ps)" using k'(3) by auto
  have same: "same_page (kmemory k) (kmemory k') q" if "q \<in> own_pages k pg" for q
    using pg k'(6) that by blast
  note f = vm_wf_frame [OF wf rep' sub same]
  have "upage k pg va \<notin> set ps' \<union> own_pages k' pg \<union> own_pages k' d \<and> same_page (kmemory k) (kmemory k') (upage k pg va)"
    if "PGROUNDDOWN va < sz" for va
    using us that k'(3,4,6) f(4) unfolding user_space_def by (metis Un_iff insert_iff list.set(2) set_append)
  then have "copy_inv e dt k pg sz d 0 k' ps'"
    unfolding copy_inv_def using f k'(2,4,5) pg by auto
  moreover have "length ps \<le> length ps' + card (tables k' d)"
    using k'(3,4) wf by (auto simp: vm_wf_def kmem_rep_def distinct_card)
  ultimately show ?thesis using k'(1) by blast
qed


lemma and_or_seven: "((x :: uint) OR 7) AND 4 = 4"
proof (rule bit_word_eqI)
  fix n
  have "bit (7 :: int) n \<longleftrightarrow> n < 3" "bit (4 :: int) n \<longleftrightarrow> n = 2"
    using bit_mask_iff [where 'a = int, of 3 n] bit_exp_iff [where 'a = int, of 2 n] by (simp_all add: mask_eq_exp_minus_1)
  then show "bit ((x OR 7) AND 4) n = bit (4 :: uint) n" by (auto simp: bit_simps)
qed

text \<open>An address space with one user page, for the witnesses.\<close>

lemma one_page_space:
  obtains k d ps where "user_space 0x80200000 k d PGSIZE ps" "2900 < length ps" "pte k d 0 AND PTE_U \<noteq> 0"
proof -
  obtain k d ps where k: "kmem_rep 0x80200000 k (d # ps)" "length ps = 3999" by (rule some_free_pages)
  obtain mem ps1 where ps: "ps = mem # ps1" "length ps1 = 3998" using k(2) by (cases ps) auto
  define k0 where "k0 = kmemset d 0 PGSIZE (snd (kalloc k))"
  note f = fresh_directory(2-4) [OF k(1), folded k0_def, unfolded ps(1)]
  obtain k1 where k1: "kmem_rep 0x80200000 k1 ps1" "kmemory k1 = kmemory k0"
    using f(1) kalloc_rep_Cons [of "0x80200000" k0 mem ps1] by (auto simp: vm_wf_def)
  have s1: "\<And>q. same_page (kmemory k0) (kmemory k1) q" by (simp add: k1)
  note g = vm_wf_frame [OF f(1) k1(1) set_subset_Cons s1]
  have mem: "page_ok 0x80200000 mem" "mem \<notin> set ps1" "mem \<noteq> d" using f(1) by (auto simp: vm_wf_def kmem_rep_def)
  have "\<exists>k2 ps2. mappages d 0 PGSIZE (v2p mem) 6 k1 = Ok (0, k2) \<and> vm_grow 0x80200000 d k1 ps1 k2 ps2 \<and>
      maps_to k1 k2 d 0 (unat (PGSIZE :: uint)) (v2p mem) 6 \<and> 1024 < length ps2 + card (tables k2 d)"
    by (rule mappages_enough [OF g(1)]) (use f g ps(2) in simp_all)
  then obtain k2 ps2 where k2: "vm_grow 0x80200000 d k1 ps1 k2 ps2" "maps_to k1 k2 d 0 4096 (v2p mem) 6" by auto
  have "pte k2 d va = v2p mem OR 7" if "unat va < 4096" for va
  proof -
    have "PGROUNDDOWN va = 0" using that by (simp add: word_unat_eq_iff unat_PGROUNDDOWN)
    then show ?thesis using k2(2) that by (simp add: maps_to_def)
  qed
  moreover have small: "unat va < 4096" if "PGROUNDDOWN va < PGSIZE" for va
    using that by (simp add: word_less_nat_alt unat_PGROUNDDOWN)
  moreover have "p2v (PTE_ADDR (v2p mem OR 7)) = mem"
    using PTE_ADDR_or [OF v2p_aligned [OF page_ok_aligned [OF mem(1)]], of 7] by simp
  ultimately have u: "pte k2 d va = v2p mem OR 7 \<and> upage k2 d va = mem" if "PGROUNDDOWN va < PGSIZE" for va
    using that by (simp add: upage_def)
  obtain us where us: "ps1 = us @ ps2" "tables k2 d = set us" "vm_wf 0x80200000 k2 d ps2"
    using k2(1) f(2) g(4) by (auto simp: vm_grow_def)
  then have "user_space 0x80200000 k2 d PGSIZE ps2"
    unfolding user_space_def using u mem by (auto simp: or_seven)
  moreover have "length us \<le> 1024" using us f card_tables [of k2 d] g(1)
    by (metis distinct_append distinct_card vm_wf_disjoint)
  moreover have "pte k2 d 0 AND PTE_U \<noteq> 0"
    using u [of 0] by (simp add: PGROUNDDOWN_def and_or_seven)
  ultimately show ?thesis using that us(1) ps(2) by simp
qed


section \<open>Failures that are not reported\<close>

text \<open>C25: \<open>allocuvm\<close> ignores the result of \<open>mappages\<close>: when the last free page is taken for the data and none
  is left for the page table, it still returns the new size, although the page is not mapped.\<close>

theorem allocuvm_ignores_failure:
  assumes "vm_wf e k d [mem]" and "ptab k d 0 = None"
  shows "\<exists>k'. allocuvm e d 0 PGSIZE k = Ok (PGSIZE, k') \<and> pte k' d 0 = 0 \<and> vm_wf e k' d []"
proof -
  obtain k1 where k1: "kalloc k = (mem, k1)" "kmem_rep e k1 []" "kmemory k1 = kmemory k"
    using assms(1) kalloc_rep_Cons [of e k mem "[]"] by (auto simp: vm_wf_def)
  have m: "page_ok e mem" "mem \<notin> own_pages k d" using assms(1) by (auto simp: vm_wf_def kmem_rep_def)
  define k2 where "k2 = kmemset mem 0 PGSIZE k1"
  have rep: "kmem_rep e k2 []"
    using kmem_rep_memset [OF k1(2) page_ok_aligned [OF m(1)], of 0] by (simp add: k2_def kmemset_def)
  have same: "same_page (kmemory k) (kmemory k2) q" if "q \<in> own_pages k d" for q
  proof -
    have "mem \<noteq> q" using that m(2) by auto
    then show ?thesis using memset_same_page [OF page_ok_aligned [OF m(1)]] k1(3) by (simp add: k2_def kmemset_def)
  qed
  have sub: "set [] \<subseteq> set [mem]" by simp
  note f = vm_wf_frame [OF assms(1) rep sub same]
  have pdx: "PDX 0 = 0" by (simp add: PDX_def)
  have none: "ptab k2 d (PDX 0) = None" using f(2) [of 0] assms(2) by (simp add: pdx)
  have "walkpgdir d 0 True k2 = (0, k2)" using kalloc_rep_Nil [OF rep] none
    by (auto simp: walkpgdir_def ptab_def Let_def split: if_splits)
  then have "mappages d 0 PGSIZE (v2p mem) (PTE_W OR PTE_U) k2 = Ok (- 1, k2)"
    by (simp add: mappages_def PGROUNDDOWN_def)
  then have "allocuvm e d 0 PGSIZE k = Ok (PGSIZE, k2)"
    using k1(1) page_ok_nonzero [OF m(1)] by (simp add: allocuvm_def PGROUNDUP_def k2_def)
  moreover have "pte k2 d 0 = 0" using none by (simp add: pte_def)
  ultimately show ?thesis using f(1) by blast
qed

theorem allocuvm_ignores_failure_witness:
  "\<exists>k k' d. allocuvm 0x80200000 d 0 PGSIZE k = Ok (PGSIZE, k') \<and> pte k' d 0 = 0"
proof -
  obtain k where "kmem_rep 0x80200000 k (rev (page_range 0x80200000 2))" using free_pages_exist [of 2] by auto
  then have k: "kmem_rep 0x80200000 k [0x80201000, 0x80200000]" by (simp add: page_range_def numeral_2_eq_2)
  define k0 where "k0 = kmemset 0x80201000 0 PGSIZE (snd (kalloc k))"
  note f = fresh_directory(2,3) [OF k, folded k0_def]
  have "ptab k0 0x80201000 0 = None"
    using f(2) unfolding tables_def by (cases "ptab k0 0x80201000 0") (auto dest!: spec [of _ 0])
  from allocuvm_ignores_failure [OF f(1) this] show ?thesis by blast
qed

text \<open>C26: \<open>copyout\<close> to an address without a page table reads through the null pointer \<open>walkpgdir\<close> returned:
  \<open>uva2ka\<close> does not test it.\<close>

theorem copyout_null_pte:
  assumes "ptab k d (PDX va) = None" and "len > 0"
  shows "copyout d va p len k = Fault ''uva2ka''"
proof -
  have "PDX (PGROUNDDOWN va) = PDX va" using same_index_iff [of "PGROUNDDOWN va" va] by simp
  then show ?thesis
    using assms by (simp add: copyout_def copyout_loop.simps uva2ka_def walkpgdir_get)
qed

theorem copyout_null_pte_witness:
  "copyout 0x80201000 0x1000 0x80202000 4 (kmem_boot\<lparr>kmemory := (\<lambda>_. 0)\<rparr>) = Fault ''uva2ka''"
  using copyout_null_pte [of "kmem_boot\<lparr>kmemory := (\<lambda>_. 0)\<rparr>" "0x80201000" "0x1000" 4 "0x80202000"]
  by (simp add: ptab_def kload_def load32_def word_of_bytes_def)

end
