(* ===== verification/Xv6_Fs.thy ===== *)
theory Xv6_Fs
  imports Xv6_Log
begin

text \<open>
  \<^verbatim>\<open>fs.c\<close>, \<^verbatim>\<open>fs.h\<close> and the inodes of \<^verbatim>\<open>file.h\<close>: the block bitmap, the inode cache, file contents,
  directories and path names. An in-memory inode is an index into the 50 entries of \<open>icache\<close>. The
  routines on file contents take the inode's fields and return them changed. A C string is its list
  of bytes without the NUL. \<open>devsw\<close> is the table of device functions; a null entry is \<open>None\<close>. A
  routine that has to sleep is run again from its beginning.
\<close>

section \<open>On-disk format\<close>

abbreviation (input) NINODE :: nat where "NINODE \<equiv> 50"
abbreviation (input) NDEV :: nat where "NDEV \<equiv> 10"
abbreviation (input) ROOTDEV :: uint where "ROOTDEV \<equiv> 1"
abbreviation (input) ROOTINO :: uint where "ROOTINO \<equiv> 1"
abbreviation (input) NDIRECT :: nat where "NDIRECT \<equiv> 12"
abbreviation (input) NINDIRECT :: nat where "NINDIRECT \<equiv> 128"
abbreviation (input) MAXFILE :: nat where "MAXFILE \<equiv> 140"
abbreviation (input) IPB :: nat where "IPB \<equiv> 8"
abbreviation (input) BPB :: nat where "BPB \<equiv> 4096"
abbreviation (input) DIRSIZ :: nat where "DIRSIZ \<equiv> 14"
abbreviation (input) T_DIR :: ushort where "T_DIR \<equiv> 1"
abbreviation (input) T_FILE :: ushort where "T_FILE \<equiv> 2"
abbreviation (input) T_DEV :: ushort where "T_DEV \<equiv> 3"
abbreviation (input) I_BUSY :: uint where "I_BUSY \<equiv> 1"
abbreviation (input) I_VALID :: uint where "I_VALID \<equiv> 2"

definition IBLOCK :: "uint \<Rightarrow> uint" where
  "IBLOCK i = i div 8 + 2"

definition BBLOCK :: "uint \<Rightarrow> uint \<Rightarrow> uint" where
  "BBLOCK b ninodes = b div 4096 + ninodes div 8 + 3"

record dinode =
  dtype :: ushort
  dmajor :: ushort
  dminor :: ushort
  dnlink :: ushort
  dsize :: uint
  daddrs :: "uint list"

text \<open>The \<open>k\<close>-th \<open>struct dinode\<close> of a block, 64 bytes each.\<close>

definition dinode_get :: "block \<Rightarrow> nat \<Rightarrow> dinode" where
  "dinode_get d k =
     \<lparr>dtype = get16 d (64 * k), dmajor = get16 d (64 * k + 2), dminor = get16 d (64 * k + 4),
      dnlink = get16 d (64 * k + 6), dsize = get32 d (64 * k + 8),
      daddrs = map (\<lambda>i. get32 d (64 * k + 12 + 4 * i)) [0..<13]\<rparr>"

definition put_words :: "block \<Rightarrow> nat \<Rightarrow> uint list \<Rightarrow> block" where
  "put_words d off ws = fold (\<lambda>i d. put32 d (off + 4 * i) (ws ! i)) [0..<length ws] d"

definition dinode_put :: "block \<Rightarrow> nat \<Rightarrow> dinode \<Rightarrow> block" where
  "dinode_put d k di =
     (let d = put16 d (64 * k) (dtype di);
          d = put16 d (64 * k + 2) (dmajor di);
          d = put16 d (64 * k + 4) (dminor di);
          d = put16 d (64 * k + 6) (dnlink di);
          d = put32 d (64 * k + 8) (dsize di)
      in put_words d (64 * k + 12) (daddrs di))"

section \<open>Blocks\<close>

definition lread :: "uint \<Rightarrow> uint \<Rightarrow> logsys \<Rightarrow> (nat \<times> logsys) res" where
  "lread dev n s = rbind (bread dev n (bc s)) (\<lambda>(b, c). Ok (b, s\<lparr>bc := c\<rparr>))"

definition lrelse :: "nat \<Rightarrow> logsys \<Rightarrow> logsys res" where
  "lrelse b s = rbind (brelse b (bc s)) (\<lambda>c. Ok (s\<lparr>bc := c\<rparr>))"

definition ldata :: "logsys \<Rightarrow> nat \<Rightarrow> block" where
  "ldata s b = bdata (bufs (bc s) b)"

definition lstore :: "nat \<Rightarrow> block \<Rightarrow> logsys \<Rightarrow> logsys" where
  "lstore b d s = s\<lparr>bc := bstore b d (bc s)\<rparr>"

definition bzero :: "uint \<Rightarrow> uint \<Rightarrow> logsys \<Rightarrow> logsys res" where
  "bzero dev bno s =
     rbind (lread dev bno s) (\<lambda>(bp, s).
     rbind (log_write bp (lstore bp (replicate BSIZE 0) s)) (lrelse bp))"

definition bit_set :: "block \<Rightarrow> nat \<Rightarrow> bool" where
  "bit_set d bi \<longleftrightarrow> d ! (bi div 8) AND push_bit (bi mod 8) 1 \<noteq> 0"

definition set_bit_in :: "block \<Rightarrow> nat \<Rightarrow> block" where
  "set_bit_in d bi = d[bi div 8 := d ! (bi div 8) OR push_bit (bi mod 8) 1]"

definition clear_bit_in :: "block \<Rightarrow> nat \<Rightarrow> block" where
  "clear_bit_in d bi = d[bi div 8 := d ! (bi div 8) AND NOT (push_bit (bi mod 8) 1)]"

text \<open>The outer loop of \<open>balloc\<close>; the inner one is \<open>find\<close> over the bits of a bitmap block.\<close>

fun balloc_loop :: "uint \<Rightarrow> superblock \<Rightarrow> nat list \<Rightarrow> logsys \<Rightarrow> (uint \<times> logsys) res" where
  "balloc_loop dev sb [] s = Panic ''balloc: out of blocks''"
| "balloc_loop dev sb (b # bs) s =
     rbind (lread dev (BBLOCK (of_nat b) (sb_ninodes sb)) s) (\<lambda>(bp, s).
     case find (\<lambda>bi. \<not> bit_set (ldata s bp) bi) [0..<min BPB (unat (sb_size sb) - b)] of
       Some bi \<Rightarrow>
         rbind (log_write bp (lstore bp (set_bit_in (ldata s bp) bi) s)) (\<lambda>s.
         rbind (lrelse bp s) (\<lambda>s.
         rbind (bzero dev (of_nat (b + bi)) s) (\<lambda>s. Ok (of_nat (b + bi), s))))
     | None \<Rightarrow> rbind (lrelse bp s) (balloc_loop dev sb bs))"

definition lreadsb :: "uint \<Rightarrow> logsys \<Rightarrow> (superblock \<times> logsys) res" where
  "lreadsb dev s = rbind (readsb dev (bc s)) (\<lambda>(sb, c). Ok (sb, s\<lparr>bc := c\<rparr>))"

definition balloc :: "uint \<Rightarrow> logsys \<Rightarrow> (uint \<times> logsys) res" where
  "balloc dev s =
     rbind (lreadsb dev s) (\<lambda>(sb, s).
     balloc_loop dev sb (map (\<lambda>k. BPB * k) [0..<(unat (sb_size sb) + BPB - 1) div BPB]) s)"

definition bfree :: "uint \<Rightarrow> uint \<Rightarrow> logsys \<Rightarrow> logsys res" where
  "bfree dev b s =
     rbind (lreadsb dev s) (\<lambda>(sb, s).
     rbind (lread dev (BBLOCK b (sb_ninodes sb)) s) (\<lambda>(bp, s).
     let bi = unat b mod BPB
     in if \<not> bit_set (ldata s bp) bi then Panic ''freeing free block''
        else rbind (log_write bp (lstore bp (clear_bit_in (ldata s bp) bi) s)) (lrelse bp)))"

section \<open>Inodes\<close>

record inode =
  idev :: uint
  inum :: uint
  iref :: int
  iflags :: uint
  itype :: ushort
  imajor :: ushort
  iminor :: ushort
  inlink :: ushort
  isize :: uint
  iaddrs :: "uint list"

record fs =
  fl :: logsys
  icache_lock :: spinlock
  inodes :: "inode list"
  fwakes :: "chan list"

definition iinit :: "'a fs_scheme \<Rightarrow> 'a fs_scheme" where
  "iinit s = s\<lparr>icache_lock := initlock (icache_lock s) ''icache''\<rparr>"

text \<open>The scan of \<open>iget\<close>: a cached entry, or the first empty one.\<close>

definition iget :: "uint \<Rightarrow> uint \<Rightarrow> 'a fs_scheme \<Rightarrow> (nat \<times> 'a fs_scheme) res" where
  "iget dev inm s =
     (case find (\<lambda>i. iref (inodes s ! i) > 0 \<and> idev (inodes s ! i) = dev \<and> inum (inodes s ! i) = inm) [0..<NINODE] of
        Some i \<Rightarrow> Ok (i, s\<lparr>inodes := (inodes s)[i := (inodes s ! i)\<lparr>iref := iref (inodes s ! i) + 1\<rparr>]\<rparr>)
      | None \<Rightarrow>
          (case find (\<lambda>i. iref (inodes s ! i) = 0) [0..<NINODE] of
             None \<Rightarrow> Panic ''iget: no inodes''
           | Some i \<Rightarrow> Ok (i, s\<lparr>inodes := (inodes s)[i :=
               (inodes s ! i)\<lparr>idev := dev, inum := inm, iref := 1, iflags := 0\<rparr>]\<rparr>)))"

definition idup :: "nat \<Rightarrow> 'a fs_scheme \<Rightarrow> nat \<times> 'a fs_scheme" where
  "idup i s = (i, s\<lparr>inodes := (inodes s)[i := (inodes s ! i)\<lparr>iref := iref (inodes s ! i) + 1\<rparr>]\<rparr>)"

text \<open>Lifting a routine of the layer below.\<close>

definition in_log :: "(logsys \<Rightarrow> ('b \<times> logsys) res) \<Rightarrow> 'a fs_scheme \<Rightarrow> ('b \<times> 'a fs_scheme) res" where
  "in_log f s = rbind (f (fl s)) (\<lambda>(x, l). Ok (x, s\<lparr>fl := l\<rparr>))"

fun ialloc_loop :: "uint \<Rightarrow> ushort \<Rightarrow> nat list \<Rightarrow> logsys \<Rightarrow> (uint \<times> logsys) res" where
  "ialloc_loop dev type [] s = Panic ''ialloc: no inodes''"
| "ialloc_loop dev type (n # ns) s =
     rbind (lread dev (IBLOCK (of_nat n)) s) (\<lambda>(bp, s).
     let k = n mod IPB
     in if get16 (ldata s bp) (64 * k) = 0 then
          let d = blk_write (ldata s bp) (64 * k) (replicate 64 0);
              d = put16 d (64 * k) type
          in rbind (log_write bp (lstore bp d s)) (\<lambda>s.
             rbind (lrelse bp s) (\<lambda>s. Ok (of_nat n, s)))
        else rbind (lrelse bp s) (ialloc_loop dev type ns))"

definition ialloc :: "uint \<Rightarrow> ushort \<Rightarrow> 'a fs_scheme \<Rightarrow> (nat \<times> 'a fs_scheme) res" where
  "ialloc dev type s =
     rbind (in_log (\<lambda>l. rbind (lreadsb dev l) (\<lambda>(sb, l).
              ialloc_loop dev type [1..<unat (sb_ninodes sb)] l)) s)
       (\<lambda>(n, s). iget dev n s)"

definition dinode_of :: "inode \<Rightarrow> dinode" where
  "dinode_of ip = \<lparr>dtype = itype ip, dmajor = imajor ip, dminor = iminor ip, dnlink = inlink ip,
     dsize = isize ip, daddrs = iaddrs ip\<rparr>"

definition iupdate :: "inode \<Rightarrow> logsys \<Rightarrow> logsys res" where
  "iupdate ip s =
     rbind (lread (idev ip) (IBLOCK (inum ip)) s) (\<lambda>(bp, s).
     rbind (log_write bp (lstore bp (dinode_put (ldata s bp) (unat (inum ip) mod IPB) (dinode_of ip)) s))
       (lrelse bp))"

definition ibusy :: "inode \<Rightarrow> bool" where "ibusy ip \<longleftrightarrow> iflags ip AND I_BUSY \<noteq> 0"
definition ivalid :: "inode \<Rightarrow> bool" where "ivalid ip \<longleftrightarrow> iflags ip AND I_VALID \<noteq> 0"

definition set_inode :: "nat \<Rightarrow> inode \<Rightarrow> 'a fs_scheme \<Rightarrow> 'a fs_scheme" where
  "set_inode i ip s = s\<lparr>inodes := (inodes s)[i := ip]\<rparr>"

definition load_inode :: "dinode \<Rightarrow> inode \<Rightarrow> inode" where
  "load_inode di ip = ip\<lparr>itype := dtype di, imajor := dmajor di, iminor := dminor di, inlink := dnlink di,
     isize := dsize di, iaddrs := daddrs di, iflags := iflags ip OR I_VALID\<rparr>"

text \<open>\<open>None\<close> is the null pointer.\<close>

fun ilock :: "nat option \<Rightarrow> 'a fs_scheme \<Rightarrow> 'a fs_scheme res" where
  "ilock None s = Panic ''ilock''"
| "ilock (Some i) s =
     (if iref (inodes s ! i) < 1 then Panic ''ilock''
      else if ibusy (inodes s ! i) then Sleep (ChInode i)
      else let ip = (inodes s ! i)\<lparr>iflags := iflags (inodes s ! i) OR I_BUSY\<rparr>
           in if \<not> ivalid ip then
                rbind (lread (idev ip) (IBLOCK (inum ip)) (fl s)) (\<lambda>(bp, l).
                let ip = load_inode (dinode_get (ldata l bp) (unat (inum ip) mod IPB)) ip
                in rbind (lrelse bp l) (\<lambda>l.
                   if itype ip = 0 then Panic ''ilock: no type'' else Ok (set_inode i ip (s\<lparr>fl := l\<rparr>))))
              else Ok (set_inode i ip s))"

fun iunlock :: "nat option \<Rightarrow> 'a fs_scheme \<Rightarrow> 'a fs_scheme res" where
  "iunlock None s = Panic ''iunlock''"
| "iunlock (Some i) s =
     (let ip = inodes s ! i
      in if \<not> ibusy ip \<or> iref ip < 1 then Panic ''iunlock''
         else Ok ((set_inode i (ip\<lparr>iflags := iflags ip AND NOT I_BUSY\<rparr>) s)\<lparr>fwakes := fwakes s @ [ChInode i]\<rparr>))"

text \<open>The loops of \<open>itrunc\<close>: over the direct addresses and over those of the indirect block.\<close>

fun free_direct :: "nat list \<Rightarrow> inode \<Rightarrow> logsys \<Rightarrow> (inode \<times> logsys) res" where
  "free_direct [] ip s = Ok (ip, s)"
| "free_direct (i # is) ip s =
     (if iaddrs ip ! i \<noteq> 0
      then rbind (bfree (idev ip) (iaddrs ip ! i) s) (free_direct is (ip\<lparr>iaddrs := (iaddrs ip)[i := 0]\<rparr>))
      else free_direct is ip s)"

fun free_indirect :: "uint \<Rightarrow> nat \<Rightarrow> nat list \<Rightarrow> logsys \<Rightarrow> logsys res" where
  "free_indirect dev bp [] s = Ok s"
| "free_indirect dev bp (j # js) s =
     (if get32 (ldata s bp) (4 * j) \<noteq> 0
      then rbind (bfree dev (get32 (ldata s bp) (4 * j)) s) (free_indirect dev bp js)
      else free_indirect dev bp js s)"

definition itrunc :: "inode \<Rightarrow> logsys \<Rightarrow> (inode \<times> logsys) res" where
  "itrunc ip s =
     rbind (free_direct [0..<NDIRECT] ip s) (\<lambda>(ip, s).
     rbind (if iaddrs ip ! NDIRECT \<noteq> 0 then
              rbind (lread (idev ip) (iaddrs ip ! NDIRECT) s) (\<lambda>(bp, s).
              rbind (free_indirect (idev ip) bp [0..<NINDIRECT] s) (\<lambda>s.
              rbind (lrelse bp s) (\<lambda>s.
              rbind (bfree (idev ip) (iaddrs ip ! NDIRECT) s) (\<lambda>s.
              Ok (ip\<lparr>iaddrs := (iaddrs ip)[NDIRECT := 0]\<rparr>, s)))))
            else Ok (ip, s)) (\<lambda>(ip, s).
     let ip = ip\<lparr>isize := 0\<rparr>
     in rbind (iupdate ip s) (\<lambda>s. Ok (ip, s))))"

definition iput :: "nat \<Rightarrow> 'a fs_scheme \<Rightarrow> 'a fs_scheme res" where
  "iput i s =
     (let ip = inodes s ! i
      in rbind (if iref ip = 1 \<and> ivalid ip \<and> inlink ip = 0 then
                  if ibusy ip then Panic ''iput busy''
                  else rbind (itrunc (ip\<lparr>iflags := iflags ip OR I_BUSY\<rparr>) (fl s)) (\<lambda>(ip, l).
                       let ip = ip\<lparr>itype := 0\<rparr>
                       in rbind (iupdate ip l) (\<lambda>l.
                          Ok (set_inode i (ip\<lparr>iflags := 0\<rparr>) (s\<lparr>fl := l, fwakes := fwakes s @ [ChInode i]\<rparr>))))
                else Ok s) (\<lambda>s.
         Ok (set_inode i ((inodes s ! i)\<lparr>iref := iref (inodes s ! i) - 1\<rparr>) s)))"

definition iunlockput :: "nat \<Rightarrow> 'a fs_scheme \<Rightarrow> 'a fs_scheme res" where
  "iunlockput i s = rbind (iunlock (Some i) s) (iput i)"

section \<open>File contents\<close>

definition bmap :: "inode \<Rightarrow> nat \<Rightarrow> logsys \<Rightarrow> (uint \<times> inode \<times> logsys) res" where
  "bmap ip bn s =
     (if bn < NDIRECT then
        if iaddrs ip ! bn = 0 then
          rbind (balloc (idev ip) s) (\<lambda>(addr, s). Ok (addr, ip\<lparr>iaddrs := (iaddrs ip)[bn := addr]\<rparr>, s))
        else Ok (iaddrs ip ! bn, ip, s)
      else
        let bn = bn - NDIRECT
        in if bn < NINDIRECT then
             rbind (if iaddrs ip ! NDIRECT = 0 then
                      rbind (balloc (idev ip) s) (\<lambda>(addr, s). Ok (addr, ip\<lparr>iaddrs := (iaddrs ip)[NDIRECT := addr]\<rparr>, s))
                    else Ok (iaddrs ip ! NDIRECT, ip, s)) (\<lambda>(addr, ip, s).
             rbind (lread (idev ip) addr s) (\<lambda>(bp, s).
             let addr = get32 (ldata s bp) (4 * bn)
             in if addr = 0 then
                  rbind (balloc (idev ip) s) (\<lambda>(addr, s).
                  rbind (log_write bp (lstore bp (put32 (ldata s bp) (4 * bn) addr) s)) (\<lambda>s.
                  rbind (lrelse bp s) (\<lambda>s. Ok (addr, ip, s))))
                else rbind (lrelse bp s) (\<lambda>s. Ok (addr, ip, s))))
           else Panic ''bmap: out of range'')"

record stat =
  st_type :: ushort
  st_dev :: uint
  st_ino :: uint
  st_nlink :: ushort
  st_size :: uint

definition stati :: "inode \<Rightarrow> stat" where
  "stati ip = \<lparr>st_type = itype ip, st_dev = idev ip, st_ino = inum ip, st_nlink = inlink ip, st_size = isize ip\<rparr>"

text \<open>The loops of \<open>readi\<close> and \<open>writei\<close>; \<open>n\<close> is \<open>n - tot\<close>.\<close>

function readi_loop :: "inode \<Rightarrow> nat \<Rightarrow> nat \<Rightarrow> logsys \<Rightarrow> (uchar list \<times> inode \<times> logsys) res" where
  "readi_loop ip off n s =
     (if n = 0 then Ok ([], ip, s)
      else rbind (bmap ip (off div BSIZE) s) (\<lambda>(addr, ip, s).
           rbind (lread (idev ip) addr s) (\<lambda>(bp, s).
           let m = min n (BSIZE - off mod BSIZE);
               bs = take m (drop (off mod BSIZE) (ldata s bp))
           in rbind (lrelse bp s) (\<lambda>s.
              rbind (readi_loop ip (off + m) (n - m) s) (\<lambda>(cs, ip, s). Ok (bs @ cs, ip, s))))))"
  by pat_completeness auto
termination by (relation "measure (\<lambda>(ip, off, n, s). n)") auto

declare readi_loop.simps [simp del]

function writei_loop :: "inode \<Rightarrow> nat \<Rightarrow> uchar list \<Rightarrow> logsys \<Rightarrow> (inode \<times> logsys) res" where
  "writei_loop ip off src s =
     (if src = [] then Ok (ip, s)
      else rbind (bmap ip (off div BSIZE) s) (\<lambda>(addr, ip, s).
           rbind (lread (idev ip) addr s) (\<lambda>(bp, s).
           let m = min (length src) (BSIZE - off mod BSIZE)
           in rbind (log_write bp (lstore bp (blk_write (ldata s bp) (off mod BSIZE) (take m src)) s)) (\<lambda>s.
              rbind (lrelse bp s) (\<lambda>s. writei_loop ip (off + m) (drop m src) s)))))"
  by pat_completeness auto
termination by (relation "measure (\<lambda>(ip, off, src, s). length src)") (auto simp: length_greater_0_conv [symmetric] simp del: length_greater_0_conv)

declare writei_loop.simps [simp del]

text \<open>The device functions: reading gives the result and the bytes, writing takes the bytes.\<close>

record 's devsw =
  dev_read :: "(nat \<Rightarrow> uint \<Rightarrow> 's \<Rightarrow> ((int \<times> uchar list) \<times> 's) res) option"
  dev_write :: "(nat \<Rightarrow> uchar list \<Rightarrow> 's \<Rightarrow> (int \<times> 's) res) option"

definition readi :: "(nat \<Rightarrow> 'a fs_scheme devsw) \<Rightarrow> nat \<Rightarrow> uint \<Rightarrow> uint \<Rightarrow> 'a fs_scheme \<Rightarrow> ((int \<times> uchar list) \<times> 'a fs_scheme) res" where
  "readi devsw i off n s =
     (let ip = inodes s ! i
      in if itype ip = T_DEV then
           if imajor ip <s 0 \<or> of_nat NDEV \<le>s imajor ip then Ok ((- 1, []), s)
           else (case dev_read (devsw (unat (imajor ip))) of
                   None \<Rightarrow> Ok ((- 1, []), s)
                 | Some f \<Rightarrow> f i n s)
         else if off > isize ip \<or> off + n < off then Ok ((- 1, []), s)
         else let n = (if off + n > isize ip then isize ip - off else n)
              in rbind (readi_loop ip (unat off) (unat n) (fl s)) (\<lambda>(bs, ip, l).
                 Ok ((uint n, bs), set_inode i ip (s\<lparr>fl := l\<rparr>))))"

definition writei :: "(nat \<Rightarrow> 'a fs_scheme devsw) \<Rightarrow> nat \<Rightarrow> uchar list \<Rightarrow> uint \<Rightarrow> uint \<Rightarrow> 'a fs_scheme \<Rightarrow> (int \<times> 'a fs_scheme) res" where
  "writei devsw i src off n s =
     (let ip = inodes s ! i
      in if itype ip = T_DEV then
           if imajor ip <s 0 \<or> of_nat NDEV \<le>s imajor ip then Ok (- 1, s)
           else (case dev_write (devsw (unat (imajor ip))) of
                   None \<Rightarrow> Ok (- 1, s)
                 | Some f \<Rightarrow> f i (take (unat n) src) s)
         else if off > isize ip \<or> off + n < off then Ok (- 1, s)
         else if off + n > of_nat (MAXFILE * BSIZE) then Ok (- 1, s)
         else rbind (writei_loop ip (unat off) (take (unat n) src) (fl s)) (\<lambda>(ip, l).
              let off = off + n
              in rbind (if n > 0 \<and> off > isize ip then
                          let ip = ip\<lparr>isize := off\<rparr> in rbind (iupdate ip l) (\<lambda>l. Ok (ip, l))
                        else Ok (ip, l)) (\<lambda>(ip, l).
                 Ok (uint n, set_inode i ip (s\<lparr>fl := l\<rparr>)))))"

section \<open>Directories\<close>

text \<open>\<open>strncmp\<close> on strings given by their bytes; past the end of the list is the NUL.\<close>

primrec strncmp_bytes :: "nat \<Rightarrow> uchar list \<Rightarrow> uchar list \<Rightarrow> int" where
  "strncmp_bytes 0 p q = 0"
| "strncmp_bytes (Suc n) p q =
     (let a = (if p = [] then 0 else hd p); b = (if q = [] then 0 else hd q)
      in if a \<noteq> 0 \<and> a = b then strncmp_bytes n (tl p) (tl q) else uint a - uint b)"

definition namecmp :: "uchar list \<Rightarrow> uchar list \<Rightarrow> int" where
  "namecmp p q = strncmp_bytes DIRSIZ p q"

definition de_inum :: "uchar list \<Rightarrow> ushort" where
  "de_inum de = get16 de 0"

definition de_name :: "uchar list \<Rightarrow> uchar list" where
  "de_name de = drop 2 de"

text \<open>\<open>strncpy(de.name, name, DIRSIZ); de.inum = inum;\<close>\<close>

definition dirent_bytes :: "uchar list \<Rightarrow> uint \<Rightarrow> uchar list" where
  "dirent_bytes name inm =
     put16 ([0, 0] @ take DIRSIZ name @ replicate (DIRSIZ - length name) 0) 0 (ucast inm)"

definition dir_offsets :: "uint \<Rightarrow> uint list" where
  "dir_offsets sz = map (\<lambda>k. of_nat (16 * k)) [0..<(unat sz + 15) div 16]"

fun dirlookup_loop :: "(nat \<Rightarrow> 'a fs_scheme devsw) \<Rightarrow> nat \<Rightarrow> uchar list \<Rightarrow> uint list \<Rightarrow> 'a fs_scheme \<Rightarrow> ((nat \<times> uint) option \<times> 'a fs_scheme) res" where
  "dirlookup_loop devsw dp name [] s = Ok (None, s)"
| "dirlookup_loop devsw dp name (off # offs) s =
     rbind (readi devsw dp off 16 s) (\<lambda>((r, de), s).
     if r \<noteq> 16 then Panic ''dirlink read''
     else if de_inum de = 0 then dirlookup_loop devsw dp name offs s
     else if namecmp name (de_name de) = 0 then
       rbind (iget (idev (inodes s ! dp)) (ucast (de_inum de)) s) (\<lambda>(i, s). Ok (Some (i, off), s))
     else dirlookup_loop devsw dp name offs s)"

definition dirlookup :: "(nat \<Rightarrow> 'a fs_scheme devsw) \<Rightarrow> nat \<Rightarrow> uchar list \<Rightarrow> 'a fs_scheme \<Rightarrow> ((nat \<times> uint) option \<times> 'a fs_scheme) res" where
  "dirlookup devsw dp name s =
     (if itype (inodes s ! dp) \<noteq> T_DIR then Panic ''dirlookup not DIR''
      else dirlookup_loop devsw dp name (dir_offsets (isize (inodes s ! dp))) s)"

text \<open>The search for an empty entry; \<open>lst\<close> is the offset at which the loop ends.\<close>

fun dirlink_find :: "(nat \<Rightarrow> 'a fs_scheme devsw) \<Rightarrow> nat \<Rightarrow> uint list \<Rightarrow> uint \<Rightarrow> 'a fs_scheme \<Rightarrow> (uint \<times> 'a fs_scheme) res" where
  "dirlink_find devsw dp [] lst s = Ok (lst, s)"
| "dirlink_find devsw dp (off # offs) lst s =
     rbind (readi devsw dp off 16 s) (\<lambda>((r, de), s).
     if r \<noteq> 16 then Panic ''dirlink read''
     else if de_inum de = 0 then Ok (off, s)
     else dirlink_find devsw dp offs lst s)"

definition dirlink :: "(nat \<Rightarrow> 'a fs_scheme devsw) \<Rightarrow> nat \<Rightarrow> uchar list \<Rightarrow> uint \<Rightarrow> 'a fs_scheme \<Rightarrow> (int \<times> 'a fs_scheme) res" where
  "dirlink devsw dp name inm s =
     rbind (dirlookup devsw dp name s) (\<lambda>(found, s).
     case found of
       Some (i, off) \<Rightarrow> rbind (iput i s) (\<lambda>s. Ok (- 1, s))
     | None \<Rightarrow>
         let sz = isize (inodes s ! dp)
         in rbind (dirlink_find devsw dp (dir_offsets sz) (of_nat (16 * ((unat sz + 15) div 16))) s) (\<lambda>(off, s).
            rbind (writei devsw dp (dirent_bytes name inm) off 16 s) (\<lambda>(r, s).
            if r \<noteq> 16 then Panic ''dirlink'' else Ok (0, s))))"

section \<open>Paths\<close>

abbreviation (input) slash :: uchar where "slash \<equiv> 47"

definition skipelem :: "uchar list \<Rightarrow> (uchar list \<times> uchar list) option" where
  "skipelem path =
     (let path = dropWhile (\<lambda>c. c = slash) path
      in if path = [] then None
         else let elem = takeWhile (\<lambda>c. c \<noteq> slash) path;
                  path = dropWhile (\<lambda>c. c \<noteq> slash) path
              in Some (dropWhile (\<lambda>c. c = slash) path, take DIRSIZ elem))"

lemma skipelem_shorter: "skipelem path = Some (rest, name) \<Longrightarrow> length rest < length path"
proof -
  assume a: "skipelem path = Some (rest, name)"
  define p where "p = dropWhile (\<lambda>c. c = slash) path"
  have p: "p \<noteq> []" "length p \<le> length path" using a by (auto simp: skipelem_def p_def Let_def length_dropWhile_le split: if_splits)
  then obtain c cs where c: "p = c # cs" by (cases p) auto
  have "c \<noteq> slash" using hd_dropWhile [of "\<lambda>c. c = slash" path] p(1) unfolding p_def [symmetric] c by simp
  then have "rest = dropWhile (\<lambda>c. c = slash) (dropWhile (\<lambda>c. c \<noteq> slash) cs)"
    using a p(1) by (auto simp: skipelem_def Let_def c simp flip: p_def)
  then have "length rest \<le> length cs" by (metis length_dropWhile_le le_trans)
  then show ?thesis using p(2) c by simp
qed

text \<open>The loop of \<open>namex\<close>; the result is the inode, if any, and the contents of \<open>name\<close>.\<close>

function namex_loop :: "(nat \<Rightarrow> 'a fs_scheme devsw) \<Rightarrow> bool \<Rightarrow> nat \<Rightarrow> uchar list \<Rightarrow> uchar list \<Rightarrow> 'a fs_scheme \<Rightarrow> ((nat option \<times> uchar list) \<times> 'a fs_scheme) res" where
  "namex_loop devsw parent ip path name s =
     (case skipelem path of
        None \<Rightarrow> if parent then rbind (iput ip s) (\<lambda>s. Ok ((None, name), s)) else Ok ((Some ip, name), s)
      | Some (path', name) \<Rightarrow>
          rbind (ilock (Some ip) s) (\<lambda>s.
          if itype (inodes s ! ip) \<noteq> T_DIR then rbind (iunlockput ip s) (\<lambda>s. Ok ((None, name), s))
          else if parent \<and> path' = [] then rbind (iunlock (Some ip) s) (\<lambda>s. Ok ((Some ip, name), s))
          else rbind (dirlookup devsw ip name s) (\<lambda>(found, s).
               case found of
                 None \<Rightarrow> rbind (iunlockput ip s) (\<lambda>s. Ok ((None, name), s))
               | Some (nxt, _) \<Rightarrow> rbind (iunlockput ip s) (\<lambda>s. namex_loop devsw parent nxt path' name s))))"
  by pat_completeness auto
termination
  by (relation "measure (\<lambda>(devsw, parent, ip, path, name, s). length path)") (auto dest: skipelem_shorter)

declare namex_loop.simps [simp del]

text \<open>\<open>cwd\<close> is \<open>proc->cwd\<close>.\<close>

definition namex :: "(nat \<Rightarrow> 'a fs_scheme devsw) \<Rightarrow> nat \<Rightarrow> uchar list \<Rightarrow> bool \<Rightarrow> 'a fs_scheme \<Rightarrow> ((nat option \<times> uchar list) \<times> 'a fs_scheme) res" where
  "namex devsw cwd path parent s =
     rbind (if path \<noteq> [] \<and> hd path = slash then iget ROOTDEV ROOTINO s else Ok (idup cwd s)) (\<lambda>(ip, s).
     namex_loop devsw parent ip path [] s)"

definition namei :: "(nat \<Rightarrow> 'a fs_scheme devsw) \<Rightarrow> nat \<Rightarrow> uchar list \<Rightarrow> 'a fs_scheme \<Rightarrow> (nat option \<times> 'a fs_scheme) res" where
  "namei devsw cwd path s = rbind (namex devsw cwd path False s) (\<lambda>((ip, name), s). Ok (ip, s))"

definition nameiparent :: "(nat \<Rightarrow> 'a fs_scheme devsw) \<Rightarrow> nat \<Rightarrow> uchar list \<Rightarrow> 'a fs_scheme \<Rightarrow> ((nat option \<times> uchar list) \<times> 'a fs_scheme) res" where
  "nameiparent devsw cwd path s = namex devsw cwd path True s"

end
