(* ===== verification/Xv6_Txn.thy ===== *)
theory Xv6_Txn
  imports Xv6_Fs
begin

text \<open>
  What the file system relies on inside a transaction (between \<open>begin_op\<close> and \<open>end_op\<close>): a block
  that is read has its current content; releasing it changes nothing; writing it with \<open>log_write\<close>
  and releasing it changes exactly that block, as long as the transaction has room for one more
  block. The locale states this interface, and the buffer cache with the log provides it.
\<close>

locale transaction =
  fixes ok :: "'s \<Rightarrow> nat \<Rightarrow> bool" and view :: "'s \<Rightarrow> uint \<Rightarrow> block" and nblk :: "'s \<Rightarrow> uint"
    and rd :: "uint \<Rightarrow> 's \<Rightarrow> (nat \<times> 's) res" and data :: "'s \<Rightarrow> nat \<Rightarrow> block"
    and wr :: "nat \<Rightarrow> block \<Rightarrow> 's \<Rightarrow> 's res" and rel :: "nat \<Rightarrow> 's \<Rightarrow> 's res"
  assumes access: "ok s r \<Longrightarrow> n < nblk s \<Longrightarrow> \<exists>b s1. rd n s = Ok (b, s1) \<and> data s1 b = view s n \<and>
      (\<exists>s2. rel b s1 = Ok s2 \<and> ok s2 r \<and> view s2 = view s \<and> nblk s2 = nblk s) \<and>
      (\<forall>d r'. r = Suc r' \<longrightarrow> length d = BSIZE \<longrightarrow>
         (\<exists>s2 s3. wr b d s1 = Ok s2 \<and> rel b s2 = Ok s3 \<and> ok s3 r' \<and> view s3 = (view s)(n := d) \<and> nblk s3 = nblk s))"
    and len: "ok s r \<Longrightarrow> n < nblk s \<Longrightarrow> length (view s n) = BSIZE"
    and weaken: "ok s (Suc r) \<Longrightarrow> ok s r"
begin

lemma read_block:
  assumes "ok s r" "n < nblk s"
  obtains b s1 s2 where "rd n s = Ok (b, s1)" "data s1 b = view s n" "rel b s1 = Ok s2" "ok s2 r" "view s2 = view s"
    "nblk s2 = nblk s"
  using access [OF assms] by blast

lemma write_block:
  assumes "ok s (Suc r)" "n < nblk s"
  obtains b s1 where "rd n s = Ok (b, s1)" "data s1 b = view s n"
    "\<And>d. length d = BSIZE \<Longrightarrow> \<exists>s2 s3. wr b d s1 = Ok s2 \<and> rel b s2 = Ok s3 \<and> ok s3 r \<and> view s3 = (view s)(n := d) \<and> nblk s3 = nblk s"
    "\<exists>s2. rel b s1 = Ok s2 \<and> ok s2 (Suc r) \<and> view s2 = view s \<and> nblk s2 = nblk s"
  using access [OF assms] by blast

lemma update_block:
  assumes "ok s (Suc r)" "n < nblk s" "length (f (view s n)) = BSIZE"
  shows "\<exists>s'. rbind (rd n s) (\<lambda>(b, s). rbind (wr b (f (data s b)) s) (rel b)) = Ok s' \<and> ok s' r \<and>
    view s' = (view s)(n := f (view s n)) \<and> nblk s' = nblk s"
proof -
  obtain b s1 where a: "rd n s = Ok (b, s1)" "data s1 b = view s n"
    "\<And>d. length d = BSIZE \<Longrightarrow> \<exists>s2 s3. wr b d s1 = Ok s2 \<and> rel b s2 = Ok s3 \<and> ok s3 r \<and> view s3 = (view s)(n := d) \<and> nblk s3 = nblk s"
    using write_block [OF assms(1,2)] by blast
  from a(3) [OF assms(3)] a(1,2) show ?thesis by auto
qed

end

section \<open>The log provides it\<close>

definition logged :: "log \<Rightarrow> uint set" where
  "logged l = set (take (nat (lh_n l)) (lh_sector l))"

definition txn :: "logsys \<Rightarrow> nat \<Rightarrow> bool" where
  "txn s r \<longleftrightarrow> cache_inv (bc s) \<and> sheld (cache_abs (bc s)) = {} \<and> spinned (cache_abs (bc s)) \<subseteq> logged (lg s) \<and>
     length (lh_sector (lg s)) = LOGSIZE \<and> 0 \<le> lh_n (lg s) \<and> lh_n (lg s) + int r < int LOGSIZE \<and>
     lh_n (lg s) + int r < lsize (lg s) \<and> 1 \<le> outstanding (lg s)"

definition lview :: "logsys \<Rightarrow> uint \<Rightarrow> block" where
  "lview s = sview (cache_abs (bc s))"

definition lblocks :: "logsys \<Rightarrow> uint" where
  "lblocks s = ssize (cache_abs (bc s))"

definition lwrite :: "nat \<Rightarrow> block \<Rightarrow> logsys \<Rightarrow> logsys res" where
  "lwrite b d s = log_write b (lstore b d s)"

lemma log_write_effect:
  assumes "0 \<le> lh_n (lg s)" "lh_n (lg s) < int LOGSIZE" "lh_n (lg s) < lsize (lg s) - 1" "1 \<le> outstanding (lg s)"
    "length (lh_sector (lg s)) = LOGSIZE"
  shows "\<exists>s'. log_write b s = Ok s' \<and> bc s' = bpin b (bc s) \<and> lsize (lg s') = lsize (lg s) \<and>
    outstanding (lg s') = outstanding (lg s) \<and> length (lh_sector (lg s')) = LOGSIZE \<and>
    lh_n (lg s) \<le> lh_n (lg s') \<and> lh_n (lg s') \<le> lh_n (lg s) + 1 \<and>
    logged (lg s') = insert (bsector (bufs (bc s) b)) (logged (lg s))"
proof -
  let ?l = "lg s" and ?x = "bsector (bufs (bc s) b)"
  obtain n where n: "lh_n ?l = int n" "n < LOGSIZE" using assms(1,2) by (auto elim: nonneg_int_cases)
  let ?k = "absorb (lh_sector ?l) ?x n [0..<n]"
  define l' where "l' = (if ?k = n then ?l\<lparr>lh_sector := (lh_sector ?l)[n := ?x], lh_n := int n + 1\<rparr>
      else ?l\<lparr>lh_sector := (lh_sector ?l)[?k := ?x]\<rparr>)"
  have w: "log_write b s = Ok (s\<lparr>lg := l', bc := bpin b (bc s)\<rparr>)"
    using assms n unfolding log_write_def Let_def l'_def by (simp del: upt_rec_numeral)
  consider "?k = n" | "?k < n" "lh_sector ?l ! ?k = ?x"
    using absorb_cases [of "lh_sector ?l" ?x n "[0..<n]"] by auto
  then have "logged l' = insert ?x (logged ?l)"
  proof cases
    case 1
    then show ?thesis
      using n assms(5) by (simp add: l'_def logged_def nat_add_distrib take_Suc_conv_app_nth)
  next
    case 2
    then have "(lh_sector ?l)[?k := ?x] = lh_sector ?l" by (metis list_update_id)
    moreover have "?x \<in> set (take n (lh_sector ?l))"
      using 2 n assms(5) by (simp add: in_set_conv_nth) (rule exI [of _ ?k], simp)
    ultimately show ?thesis using 2(1) n by (auto simp: l'_def logged_def insert_absorb)
  qed
  then show ?thesis using w n assms(5) by (auto simp: l'_def)
qed

lemma txn_room:
  assumes "txn s r"
  shows "card (sheld (cache_abs (bc s)) \<union> spinned (cache_abs (bc s))) < NBUF"
proof -
  have "card (spinned (cache_abs (bc s))) \<le> card (logged (lg s))"
    using assms by (intro card_mono) (auto simp: txn_def logged_def)
  also have "\<dots> \<le> nat (lh_n (lg s))"
    unfolding logged_def using card_length [of "take (nat (lh_n (lg s))) (lh_sector (lg s))"] by simp
  also have "\<dots> < NBUF" using assms by (auto simp: txn_def)
  finally show ?thesis using assms by (simp add: txn_def)
qed

text \<open>Reading a block inside a transaction: the buffer is held, the rest is as before.\<close>

lemma txn_read:
  assumes t: "txn s r" and n: "n < lblocks s"
  obtains b c where "lread 1 n s = Ok (b, s\<lparr>bc := c\<rparr>)" "cache_inv c" "holds c b n"
    "cache_abs c = (cache_abs (bc s))\<lparr>sheld := {n}\<rparr>"
proof -
  have "\<exists>b c. bread 1 n (bc s) = Ok (b, c) \<and> cache_inv c \<and> holds c b n \<and>
      (\<forall>b' m. holds (bc s) b' m \<longrightarrow> holds c b' m) \<and> cache_abs c = (cache_abs (bc s))\<lparr>sheld := insert n (sheld (cache_abs (bc s)))\<rparr>"
    using t n txn_room [OF t] by (intro bc.rd) (auto simp: txn_def lblocks_def)
  then show thesis using t by (auto simp: lread_def txn_def intro: that)
qed

lemma txn_release:
  assumes "cache_inv c" "holds c b n" "cache_abs c = a\<lparr>sheld := {n}\<rparr>" "n \<in> spinned a \<or> sview a n = sdisk a n"
  obtains c' where "lrelse b (s\<lparr>bc := c\<rparr>) = Ok (s\<lparr>bc := c'\<rparr>)" "cache_inv c'" "cache_abs c' = a\<lparr>sheld := {}\<rparr>"
proof -
  have "\<exists>c'. brelse b c = Ok c' \<and> cache_inv c' \<and> (\<forall>d m. holds c' d m \<longleftrightarrow> d \<noteq> b \<and> holds c d m) \<and>
      cache_abs c' = (cache_abs c)\<lparr>sheld := sheld (cache_abs c) - {n}\<rparr>"
    using assms by (intro bc.rel) auto
  then show thesis using assms(3) by (auto simp: lrelse_def intro: that)
qed

lemma bstore_sector [simp]: "bsector (bufs (bstore b d c) b) = bsector (bufs c b)"
  by (simp add: bstore_def bupd_def)

lemma holds_sector: "holds c b n \<Longrightarrow> bsector (bufs c b) = n"
  by (simp add: holds_def cached_def)

lemma txn_write:
  assumes t: "txn s (Suc r)" and c: "cache_inv c" "holds c b n" "cache_abs c = (cache_abs (bc s))\<lparr>sheld := {n}\<rparr>"
    and d: "length d = BSIZE"
  obtains s2 s3 where "lwrite b d (s\<lparr>bc := c\<rparr>) = Ok s2" "lrelse b s2 = Ok s3" "txn s3 r" "lview s3 = (lview s)(n := d)"
    "lblocks s3 = lblocks s"
proof -
  let ?a = "(cache_abs (bc s))\<lparr>sview := (lview s)(n := d), spinned := insert n (spinned (cache_abs (bc s)))\<rparr>"
  note st = bc.store [OF c(1,2) d]
  note pn = bc.pin [OF conjunct1 [OF st], of b n]
  have p: "cache_inv (bpin b (bstore b d c))" "holds (bpin b (bstore b d c)) b n"
    "cache_abs (bpin b (bstore b d c)) = ?a\<lparr>sheld := {n}\<rparr>"
    using st pn c by (auto simp: lview_def)
  obtain s2 where w: "lwrite b d (s\<lparr>bc := c\<rparr>) = Ok s2" and s2: "bc s2 = bpin b (bstore b d c)" "lsize (lg s2) = lsize (lg s)"
      "outstanding (lg s2) = outstanding (lg s)" "length (lh_sector (lg s2)) = LOGSIZE" "lh_n (lg s) \<le> lh_n (lg s2)"
      "lh_n (lg s2) \<le> lh_n (lg s) + 1" "logged (lg s2) = insert n (logged (lg s))"
    using log_write_effect [of "lstore b d (s\<lparr>bc := c\<rparr>)" b] t holds_sector [OF c(2)]
    by (auto simp: txn_def lwrite_def lstore_def)
  obtain c' where c': "lrelse b (s2\<lparr>bc := bpin b (bstore b d c)\<rparr>) = Ok (s2\<lparr>bc := c'\<rparr>)" "cache_inv c'" "cache_abs c' = ?a\<lparr>sheld := {}\<rparr>"
    using txn_release [OF p] by auto
  have "s2\<lparr>bc := bpin b (bstore b d c)\<rparr> = s2" using s2(1) by (metis logsys.surjective logsys.update_convs(1) logsys.update_convs(2) logsys.select_convs)
  with c' have "lrelse b s2 = Ok (s2\<lparr>bc := c'\<rparr>)" by simp
  moreover have "txn (s2\<lparr>bc := c'\<rparr>) r" using t s2 c' by (auto simp: txn_def)
  ultimately show thesis using w c' by (auto simp: lview_def lblocks_def intro: that)
qed

interpretation tx: transaction txn lview lblocks "lread 1" ldata lwrite lrelse
proof (unfold_locales, goal_cases)
  case (1 s r n)
  obtain b c where c: "lread 1 n s = Ok (b, s\<lparr>bc := c\<rparr>)" "cache_inv c" "holds c b n"
    "cache_abs c = (cache_abs (bc s))\<lparr>sheld := {n}\<rparr>" by (rule txn_read [OF 1])
  have "n \<in> spinned (cache_abs (bc s)) \<or> sview (cache_abs (bc s)) n = sdisk (cache_abs (bc s)) n"
    using bc.coherent [of "bc s" n] 1 by (auto simp: txn_def)
  then obtain c' where c': "lrelse b (s\<lparr>bc := c\<rparr>) = Ok (s\<lparr>bc := c'\<rparr>)" "cache_inv c'" "cache_abs c' = (cache_abs (bc s))\<lparr>sheld := {}\<rparr>"
    using txn_release [OF c(2-4)] by blast
  have "txn (s\<lparr>bc := c'\<rparr>) r" "lview (s\<lparr>bc := c'\<rparr>) = lview s" "lblocks (s\<lparr>bc := c'\<rparr>) = lblocks s"
    using 1 c' by (auto simp: txn_def lview_def lblocks_def)
  moreover have "ldata (s\<lparr>bc := c\<rparr>) b = lview s n"
    using bc.data [OF c(2,3)] c(4) by (simp add: ldata_def lview_def)
  moreover have "\<exists>s2 s3. lwrite b d (s\<lparr>bc := c\<rparr>) = Ok s2 \<and> lrelse b s2 = Ok s3 \<and> txn s3 r' \<and> lview s3 = (lview s)(n := d) \<and>
      lblocks s3 = lblocks s" if "r = Suc r'" "length d = BSIZE" for d r'
    using txn_write [of s r' c b n d] 1(1) c(2-4) that by blast
  ultimately show ?case using c(1) c'(1) by blast
next
  case (2 s r n) then show ?case using bc.len [of "bc s" n] by (simp add: txn_def lview_def lblocks_def)
next
  case (3 s r) then show ?case by (simp add: txn_def)
qed

text \<open>A transaction that has just begun on a disk with content \<open>D\<close>; the log has 30 blocks.\<close>

definition txn_on :: "(uint \<Rightarrow> block) \<Rightarrow> uint \<Rightarrow> logsys" where
  "txn_on D sz = (reboot D sz)\<lparr>lg := (log_at (sz - 30) 30)\<lparr>outstanding := 1\<rparr>\<rparr>"

lemma txn_on:
  assumes "\<forall>n < sz. length (D n) = BSIZE" "r < 30"
  shows "txn (txn_on D sz) r" "lview (txn_on D sz) = D" "lblocks (txn_on D sz) = sz"
  using reboot_idle [OF assms(1)] assms(2)
  by (simp_all add: txn_def lview_def lblocks_def txn_on_def cache_idle_def log_at_def log_zero_def)

end
