(* ===== verification/Xv6_Balloc.thy ===== *)
theory Xv6_Balloc
  imports Xv6_Txn
begin

text \<open>
  The block bitmap of \<^verbatim>\<open>fs.c\<close>: \<open>balloc\<close> takes the first free block and zeroes it, \<open>bfree\<close> gives it back.
  The bitmap of the current content \<open>v\<close> of the disk is the set of the blocks in use.
\<close>

section \<open>Bits of a block\<close>

lemma bit_set_iff: "bit_set d i \<longleftrightarrow> bit (d ! (i div 8)) (i mod 8)"
  unfolding bit_set_def push_bit_of_1 using and_exp_eq_0_iff_not_bit by blast

lemma bit_set_set_bit_in:
  "i div 8 < length d \<Longrightarrow> bit_set (set_bit_in d i) j \<longleftrightarrow> j = i \<or> bit_set d j"
proof -
  assume l: "i div 8 < length d"
  have "j mod 8 < 8" by simp
  then have "j mod 8 < 8 \<and> (j = i \<longleftrightarrow> j div 8 = i div 8 \<and> j mod 8 = i mod 8)" by (metis div_mod_decomp)
  with l show ?thesis by (auto simp: bit_set_iff set_bit_in_def nth_list_update bit_simps)
qed

lemma bit_set_clear_bit_in:
  "i div 8 < length d \<Longrightarrow> bit_set (clear_bit_in d i) j \<longleftrightarrow> j \<noteq> i \<and> bit_set d j"
proof -
  assume l: "i div 8 < length d"
  have "j mod 8 < 8" by simp
  then have "j mod 8 < 8 \<and> (j = i \<longleftrightarrow> j div 8 = i div 8 \<and> j mod 8 = i mod 8)" by (metis div_mod_decomp)
  with l show ?thesis by (auto simp: bit_set_iff clear_bit_in_def nth_list_update bit_simps)
qed

lemma length_bit_in [simp]: "length (set_bit_in d i) = length d" "length (clear_bit_in d i) = length d"
  by (simp_all add: set_bit_in_def clear_bit_in_def)

lemma find_upt_Some:
  assumes "P r" "r < m" "\<And>i. i < r \<Longrightarrow> \<not> P i" shows "find P [0..<m] = Some r"
  using assms by (auto simp: find_Some_iff intro!: exI [of _ r])

section \<open>The bitmap\<close>

definition bmap_block :: "superblock \<Rightarrow> nat \<Rightarrow> uint" where
  "bmap_block sb b = BBLOCK (of_nat b) (sb_ninodes sb)"

definition bused :: "(uint \<Rightarrow> block) \<Rightarrow> superblock \<Rightarrow> nat \<Rightarrow> bool" where
  "bused v sb b \<longleftrightarrow> bit_set (v (bmap_block sb b)) (b mod BPB)"

text \<open>The superblock and the bitmap blocks lie on the disk and are themselves in use.\<close>

definition bitmap_ok :: "(uint \<Rightarrow> block) \<Rightarrow> superblock \<Rightarrow> uint \<Rightarrow> bool" where
  "bitmap_ok v sb nb \<longleftrightarrow> sb_of (v 1) = sb \<and> sb_size sb \<le> nb \<and> 1 < sb_size sb \<and> bused v sb 1 \<and>
     (\<forall>b < unat (sb_size sb). bmap_block sb b < sb_size sb \<and> bused v sb (unat (bmap_block sb b)))"

lemma bmap_block_same:
  assumes "b < 2 ^ 32" "c < 2 ^ 32" "b div BPB = c div BPB" shows "bmap_block sb b = bmap_block sb c"
proof -
  have "(of_nat b :: uint) div 4096 = of_nat c div 4096"
    using assms by (simp add: word_unat_eq_iff unat_div unat_of_nat)
  then show ?thesis by (simp add: bmap_block_def BBLOCK_def)
qed

lemma unat_bmap_block:
  assumes "b < 2 ^ 32" shows "unat (bmap_block sb b) = unat (sb_ninodes sb) div 8 + b div BPB + 3"
proof -
  have "unat (sb_ninodes sb) div 8 < 2 ^ 29" "b div BPB < 2 ^ 20"
    using unsigned_less [of "sb_ninodes sb", where 'a = nat] assms by (simp_all add: less_mult_imp_div_less)
  then show ?thesis using assms by (simp add: bmap_block_def BBLOCK_def unat_word_ariths unat_div unat_of_nat)
qed

lemma bmap_block_inj:
  "\<lbrakk>b < 2 ^ 32; c < 2 ^ 32; bmap_block sb b = bmap_block sb c\<rbrakk> \<Longrightarrow> b div BPB = c div BPB"
  by (metis unat_bmap_block add_right_imp_eq add_left_imp_eq)

lemma bmap_block_neq_1: "b < 2 ^ 32 \<Longrightarrow> bmap_block sb b \<noteq> 1"
  using unat_bmap_block [of b sb] by auto

lemma bused_upd:
  assumes "b < 2 ^ 32" "c < 2 ^ 32" "length (v (bmap_block sb b)) = BSIZE"
  shows "bused (v(bmap_block sb b := set_bit_in (v (bmap_block sb b)) (b mod BPB))) sb c \<longleftrightarrow> c = b \<or> bused v sb c"
    "bused (v(bmap_block sb b := clear_bit_in (v (bmap_block sb b)) (b mod BPB))) sb c \<longleftrightarrow> c \<noteq> b \<and> bused v sb c"
proof -
  have l: "b mod BPB div 8 < length (v (bmap_block sb b))"
    using assms(3) mod_less_divisor [of 4096 b] by (auto simp: less_mult_imp_div_less)
  have e: "c = b" if "bmap_block sb c = bmap_block sb b" "c mod BPB = b mod BPB"
    using that bmap_block_inj [OF assms(2,1)] by (metis div_mult_mod_eq)
  show "bused (v(bmap_block sb b := set_bit_in (v (bmap_block sb b)) (b mod BPB))) sb c \<longleftrightarrow> c = b \<or> bused v sb c"
    "bused (v(bmap_block sb b := clear_bit_in (v (bmap_block sb b)) (b mod BPB))) sb c \<longleftrightarrow> c \<noteq> b \<and> bused v sb c"
    using e by (auto simp: bused_def bit_set_set_bit_in [OF l] bit_set_clear_bit_in [OF l])
qed

section \<open>The routines\<close>

lemma lreadsb_txn:
  assumes "txn s r" "1 < lblocks s"
  shows "\<exists>s'. lreadsb 1 s = Ok (sb_of (lview s 1), s') \<and> txn s' r \<and> lview s' = lview s \<and> lblocks s' = lblocks s"
proof -
  obtain b s1 s2 where "lread 1 1 s = Ok (b, s1)" "ldata s1 b = lview s 1" "lrelse b s1 = Ok s2" "txn s2 r"
    "lview s2 = lview s" "lblocks s2 = lblocks s" by (rule tx.read_block [OF assms])
  then show ?thesis by (auto simp: lreadsb_def readsb_def lread_def lrelse_def ldata_def Let_def)
qed

lemma bzero_txn:
  assumes "txn s (Suc r)" "n < lblocks s"
  shows "\<exists>s'. bzero 1 n s = Ok s' \<and> txn s' r \<and> lview s' = (lview s)(n := replicate BSIZE 0) \<and> lblocks s' = lblocks s"
  using tx.update_block [OF assms, of "\<lambda>_. replicate BSIZE 0"] by (simp add: bzero_def lwrite_def)

text \<open>The bitmap after block \<open>b\<close> has been allocated and zeroed.\<close>

definition take_block :: "superblock \<Rightarrow> nat \<Rightarrow> (uint \<Rightarrow> block) \<Rightarrow> uint \<Rightarrow> block" where
  "take_block sb b v =
     (v(bmap_block sb b := set_bit_in (v (bmap_block sb b)) (b mod BPB)))(of_nat b := replicate BSIZE 0)"

lemma balloc_loop_step:
  assumes t: "txn s (Suc (Suc r))" and ok: "bitmap_ok (lview s) sb (lblocks s)" and k: "b div BPB = k"
    and b: "b < unat (sb_size sb)" "\<not> bused (lview s) sb b" "\<And>c. BPB * k \<le> c \<Longrightarrow> c < b \<Longrightarrow> bused (lview s) sb c"
  shows "\<exists>s'. balloc_loop 1 sb (BPB * k # ks) s = Ok (of_nat b, s') \<and> txn s' r \<and> lview s' = take_block sb b (lview s) \<and>
    lblocks s' = lblocks s"
proof -
  have b32: "b < 2 ^ 32" using b(1) unsigned_less [of "sb_size sb", where 'a = nat] by simp
  have blk: "BBLOCK (of_nat (BPB * k)) (sb_ninodes sb) = bmap_block sb b"
    using bmap_block_same [of "BPB * k" b sb] b32 k by (auto simp: bmap_block_def)
  have bk: "b = BPB * k + b mod BPB" "b mod BPB < BPB" using k by (metis mult_div_mod_eq) simp
  have used: "bit_set (lview s (bmap_block sb b)) i \<longleftrightarrow> bused (lview s) sb (BPB * k + i)" if "BPB * k + i \<le> b" for i
    using that bmap_block_same [of "BPB * k + i" b sb] b32 bk k by (auto simp: bused_def)
  have f: "find (\<lambda>bi. \<not> bit_set (lview s (bmap_block sb b)) bi) [0..<min BPB (unat (sb_size sb) - BPB * k)] = Some (b mod BPB)"
    using bk b used by (intro find_upt_Some) auto
  have n: "bmap_block sb b < lblocks s" "of_nat b < lblocks s"
    using ok b(1) b32 by (auto simp: bitmap_ok_def word_less_nat_alt word_le_nat_alt unat_of_nat intro: less_le_trans)
  obtain bp s1 where w: "lread 1 (bmap_block sb b) s = Ok (bp, s1)" "ldata s1 bp = lview s (bmap_block sb b)"
    "\<And>d. length d = BSIZE \<Longrightarrow> \<exists>s2 s3. lwrite bp d s1 = Ok s2 \<and> lrelse bp s2 = Ok s3 \<and> txn s3 (Suc r) \<and>
        lview s3 = (lview s)(bmap_block sb b := d) \<and> lblocks s3 = lblocks s"
    using tx.write_block [OF t n(1)] by blast
  obtain s2 s3 where s3: "lwrite bp (set_bit_in (lview s (bmap_block sb b)) (b mod BPB)) s1 = Ok s2" "lrelse bp s2 = Ok s3"
      "txn s3 (Suc r)" "lview s3 = (lview s)(bmap_block sb b := set_bit_in (lview s (bmap_block sb b)) (b mod BPB))"
      "lblocks s3 = lblocks s"
    using w(3) [of "set_bit_in (lview s (bmap_block sb b)) (b mod BPB)"] tx.len [OF t n(1)] by auto
  obtain s4 where "bzero 1 (of_nat b) s3 = Ok s4" "txn s4 r" "lview s4 = (lview s3)(of_nat b := replicate BSIZE 0)"
      "lblocks s4 = lblocks s3" using bzero_txn [OF s3(3), of "of_nat b"] n(2) s3(5) by auto
  then show ?thesis using w(1,2) s3 f blk bk(1)
    by (auto simp: lwrite_def take_block_def simp del: of_nat_add of_nat_mult)
qed

text \<open>A bitmap block without a free bit is passed over.\<close>

lemma balloc_loop_skip:
  assumes t: "txn s r" and ok: "bitmap_ok (lview s) sb (lblocks s)" and k: "BPB * k < unat (sb_size sb)"
    and full: "\<And>c. BPB * k \<le> c \<Longrightarrow> c < BPB * Suc k \<Longrightarrow> c < unat (sb_size sb) \<Longrightarrow> bused (lview s) sb c"
  shows "\<exists>s'. balloc_loop 1 sb (BPB * k # ks) s = balloc_loop 1 sb ks s' \<and> txn s' r \<and> lview s' = lview s \<and>
    lblocks s' = lblocks s"
proof -
  let ?n = "bmap_block sb (BPB * k)"
  have k32: "unat (sb_size sb) < 2 ^ 32" using unsigned_less [of "sb_size sb", where 'a = nat] by simp
  have n: "?n < lblocks s" using ok k by (auto simp: bitmap_ok_def intro: less_le_trans)
  have "bit_set (lview s ?n) i" if "i < BPB" "i < unat (sb_size sb) - BPB * k" for i
  proof -
    have "bmap_block sb (BPB * k + i) = ?n" using that k32 by (intro bmap_block_same) auto
    moreover have "bused (lview s) sb (BPB * k + i)" using that by (intro full) auto
    ultimately show ?thesis using that by (simp add: bused_def)
  qed
  then have f: "find (\<lambda>bi. \<not> bit_set (lview s ?n) bi) [0..<min BPB (unat (sb_size sb) - BPB * k)] = None"
    by (auto simp: find_None_iff)
  obtain b s1 s2 where "lread 1 ?n s = Ok (b, s1)" "ldata s1 b = lview s ?n" "lrelse b s1 = Ok s2" "txn s2 r"
    "lview s2 = lview s" "lblocks s2 = lblocks s" by (rule tx.read_block [OF t n])
  then show ?thesis using f by (auto simp: bmap_block_def)
qed

lemma balloc_loop_first:
  assumes "txn s (Suc (Suc r))" "bitmap_ok (lview s) sb (lblocks s)" "j \<le> b div BPB" "b div BPB < K"
    and "b < unat (sb_size sb)" "\<not> bused (lview s) sb b" "\<And>c. BPB * j \<le> c \<Longrightarrow> c < b \<Longrightarrow> bused (lview s) sb c"
  shows "\<exists>s'. balloc_loop 1 sb (map (\<lambda>k. BPB * k) [j..<K]) s = Ok (of_nat b, s') \<and> txn s' r \<and>
    lview s' = take_block sb b (lview s) \<and> lblocks s' = lblocks s"
  using assms
proof (induction "b div BPB - j" arbitrary: j s)
  case 0
  then have "b div BPB = j" "[j..<K] = j # [Suc j..<K]" by (simp_all add: upt_conv_Cons)
  with balloc_loop_step [OF "0.prems"(1,2) this(1) "0.prems"(5-7)] show ?case by simp
next
  case (Suc n)
  then have j: "j < b div BPB" "[j..<K] = j # [Suc j..<K]" by (simp_all add: upt_conv_Cons)
  have lt: "BPB * Suc j \<le> b" using Suc_leI [OF j(1)] less_eq_div_iff_mult_less_eq [of BPB "Suc j" b] by (simp add: mult.commute)
  obtain s' where s': "balloc_loop 1 sb (BPB * j # map (\<lambda>k. BPB * k) [Suc j..<K]) s =
      balloc_loop 1 sb (map (\<lambda>k. BPB * k) [Suc j..<K]) s'" "txn s' (Suc (Suc r))" "lview s' = lview s" "lblocks s' = lblocks s"
    using balloc_loop_skip [OF Suc.prems(1,2), of j] Suc.prems(5,7) lt by fastforce
  show ?case using Suc.hyps(1) [of "Suc j" s'] Suc.hyps(2) Suc.prems(2,4-7) s' j lt by simp
qed

lemma balloc_first:
  assumes t: "txn s (Suc (Suc r))" and ok: "bitmap_ok (lview s) sb (lblocks s)"
    and b: "b < unat (sb_size sb)" "\<not> bused (lview s) sb b" "\<And>c. c < b \<Longrightarrow> bused (lview s) sb c"
  shows "\<exists>s'. balloc 1 s = Ok (of_nat b, s') \<and> txn s' r \<and> lview s' = take_block sb b (lview s) \<and> lblocks s' = lblocks s"
proof -
  have "1 < lblocks s" "sb_of (lview s 1) = sb" using ok by (auto simp: bitmap_ok_def)
  then obtain s1 where s1: "lreadsb 1 s = Ok (sb, s1)" "txn s1 (Suc (Suc r))" "lview s1 = lview s" "lblocks s1 = lblocks s"
    using lreadsb_txn [OF t] by auto
  have "b div BPB < (unat (sb_size sb) + BPB - 1) div BPB"
    using b(1) by (simp add: div_less_iff_less_mult less_eq_div_iff_mult_less_eq Suc_le_eq [symmetric])
  then show ?thesis using balloc_loop_first [OF s1(2), of sb 0 b "(unat (sb_size sb) + BPB - 1) div BPB"] s1 ok b
    by (auto simp: balloc_def)
qed

lemma take_block_used:
  assumes ok: "bitmap_ok v sb nb" and len: "\<And>n. n < nb \<Longrightarrow> length (v n) = BSIZE"
    and b: "b < unat (sb_size sb)" "\<not> bused v sb b" and c: "c < unat (sb_size sb)"
  shows "bused (take_block sb b v) sb c \<longleftrightarrow> c = b \<or> bused v sb c"
proof -
  have s32: "unat (sb_size sb) < 2 ^ 32" using unsigned_less [of "sb_size sb", where 'a = nat] by simp
  then have "unat (of_nat b :: uint) = b" using b(1) by (simp add: unat_of_nat)
  moreover have "bused v sb (unat (bmap_block sb c))" using ok c by (auto simp: bitmap_ok_def)
  ultimately have "bmap_block sb c \<noteq> of_nat b" using b(2) by metis
  moreover have "length (v (bmap_block sb b)) = BSIZE"
    using ok b(1) by (intro len) (auto simp: bitmap_ok_def intro: less_le_trans)
  ultimately show ?thesis
    using bused_upd(1) [of b c v sb] b c s32 by (simp add: take_block_def bused_def)
qed

lemma take_block_ok:
  assumes ok: "bitmap_ok v sb nb" and len: "\<And>n. n < nb \<Longrightarrow> length (v n) = BSIZE"
    and b: "b < unat (sb_size sb)" "\<not> bused v sb b"
  shows "bitmap_ok (take_block sb b v) sb nb"
proof -
  have b32: "b < 2 ^ 32" using b(1) unsigned_less [of "sb_size sb", where 'a = nat] by simp
  then have "of_nat b \<noteq> (1 :: uint)" using b ok by (auto simp: bitmap_ok_def word_unat_eq_iff unat_of_nat)
  then have "take_block sb b v 1 = v 1" using bmap_block_neq_1 [OF b32] by (auto simp: take_block_def)
  moreover have "bmap_block sb c < sb_size sb \<and> unat (bmap_block sb c) < unat (sb_size sb) \<and> bused v sb (unat (bmap_block sb c))"
    if "c < unat (sb_size sb)" for c using ok that by (auto simp: bitmap_ok_def word_less_nat_alt)
  moreover have "1 < unat (sb_size sb)" "bused v sb 1" using ok by (auto simp: bitmap_ok_def word_less_nat_alt)
  ultimately show ?thesis
    using ok take_block_used [OF ok len b] by (auto simp: bitmap_ok_def)
qed

lemma bfree_txn:
  assumes t: "txn s (Suc r)" and ok: "bitmap_ok (lview s) sb (lblocks s)"
    and b: "unat b < unat (sb_size sb)" "bused (lview s) sb (unat b)"
  shows "\<exists>s'. bfree 1 b s = Ok s' \<and> txn s' r \<and> lblocks s' = lblocks s \<and> lview s' =
    (lview s)(bmap_block sb (unat b) := clear_bit_in (lview s (bmap_block sb (unat b))) (unat b mod BPB))"
proof -
  let ?n = "bmap_block sb (unat b)"
  have n: "?n < lblocks s" using ok b(1) by (auto simp: bitmap_ok_def intro: less_le_trans)
  have "1 < lblocks s" "sb_of (lview s 1) = sb" using ok by (auto simp: bitmap_ok_def)
  then obtain s1 where s1: "lreadsb 1 s = Ok (sb, s1)" "txn s1 (Suc r)" "lview s1 = lview s" "lblocks s1 = lblocks s"
    using lreadsb_txn [OF t] by auto
  obtain bp s2 where w: "lread 1 ?n s1 = Ok (bp, s2)" "ldata s2 bp = lview s ?n"
    "\<And>d. length d = BSIZE \<Longrightarrow> \<exists>s3 s4. lwrite bp d s2 = Ok s3 \<and> lrelse bp s3 = Ok s4 \<and> txn s4 r \<and>
        lview s4 = (lview s)(?n := d) \<and> lblocks s4 = lblocks s"
    using tx.write_block [OF s1(2), unfolded s1(3,4), OF n] by blast
  have "BBLOCK b (sb_ninodes sb) = ?n" "bit_set (lview s ?n) (unat b mod BPB)" using b by (simp_all add: bmap_block_def bused_def)
  with s1(1) w(1,2) w(3) [of "clear_bit_in (lview s ?n) (unat b mod BPB)"] tx.len [OF t n] show ?thesis
    by (auto simp: bfree_def lwrite_def)
qed

text \<open>C14: Inside a transaction with room for three more blocks, on a disk whose bitmap covers itself, let
  \<open>b\<close> be the first block that the bitmap marks free. \<open>balloc\<close> returns \<open>b\<close>; afterwards \<open>b\<close> is zeroed and in use, every
  other block is in use as before, and no block but \<open>b\<close> and its bitmap block has changed. \<open>bfree(b)\<close> then gives back
  the bitmap as it was before.\<close>

theorem balloc_bfree:
  assumes "txn s (Suc (Suc (Suc r)))" "bitmap_ok (lview s) sb (lblocks s)"
    "b < unat (sb_size sb)" "\<not> bused (lview s) sb b" "\<And>c. c < b \<Longrightarrow> bused (lview s) sb c"
  shows "\<exists>s1 s2. balloc 1 s = Ok (of_nat b, s1) \<and> lview s1 (of_nat b) = replicate BSIZE 0 \<and>
    (\<forall>c < unat (sb_size sb). bused (lview s1) sb c \<longleftrightarrow> c = b \<or> bused (lview s) sb c) \<and>
    (\<forall>n. n \<noteq> of_nat b \<and> n \<noteq> bmap_block sb b \<longrightarrow> lview s1 n = lview s n) \<and>
    bfree 1 (of_nat b) s1 = Ok s2 \<and> txn s2 r \<and>
    (\<forall>c < unat (sb_size sb). bused (lview s2) sb c \<longleftrightarrow> bused (lview s) sb c)"
proof -
  note len = tx.len [OF assms(1)]
  have s32: "unat (sb_size sb) < 2 ^ 32" using unsigned_less [of "sb_size sb", where 'a = nat] by simp
  then have ub: "unat (of_nat b :: uint) = b" using assms(3) by (simp add: unat_of_nat)
  obtain s1 where s1: "balloc 1 s = Ok (of_nat b, s1)" "txn s1 (Suc r)" "lview s1 = take_block sb b (lview s)" "lblocks s1 = lblocks s"
    using balloc_first [OF assms] by auto
  note used = take_block_used [OF assms(2) len assms(3,4)]
  obtain s2 where s2: "bfree 1 (of_nat b) s1 = Ok s2" "txn s2 r" "lview s2 =
      (lview s1)(bmap_block sb b := clear_bit_in (lview s1 (bmap_block sb b)) (b mod BPB))"
    using bfree_txn [OF s1(2), of sb "of_nat b"] take_block_ok [OF assms(2) len assms(3,4)] used assms(3) s1(3,4) ub by auto
  have "length (lview s1 (bmap_block sb b)) = BSIZE"
    using assms(2,3) s1(4) by (intro tx.len [OF s1(2)]) (auto simp: bitmap_ok_def intro: less_le_trans)
  then have "bused (lview s2) sb c \<longleftrightarrow> c \<noteq> b \<and> bused (lview s1) sb c" if "c < unat (sb_size sb)" for c
    unfolding s2(3) using bused_upd(2) [of b c "lview s1" sb] that assms(3) s32 by linarith
  then have "\<forall>c < unat (sb_size sb). bused (lview s2) sb c \<longleftrightarrow> bused (lview s) sb c"
    using used s1(3) assms(4) by auto
  then show ?thesis using s1 s2 used by (auto simp: take_block_def)
qed

text \<open>A disk of 1000 blocks with the bitmap in block 3, where blocks 0 to 4 are in use.\<close>

definition bitmap_disk :: "uint \<Rightarrow> block" where
  "bitmap_disk = log_disk(3 := (replicate BSIZE 0)[0 := 31])"

lemma bitmap_disk_sb: "sb_of (bitmap_disk 1) = \<lparr>sb_size = 1000, sb_nblocks = 0, sb_ninodes = 0, sb_nlog = 30\<rparr>"
  by (simp add: bitmap_disk_def log_disk_def sb_block_def sb_of_def layout get32_replicate_0)

lemma bitmap_disk_used: "c < 1000 \<Longrightarrow> bused bitmap_disk (sb_of (bitmap_disk 1)) c \<longleftrightarrow> c < 5"
proof -
  assume c: "c < 1000"
  have "bmap_block (sb_of (bitmap_disk 1)) c = 3"
    using c by (simp add: word_unat_eq_iff unat_bmap_block bitmap_disk_sb)
  moreover have "bit (31 :: uchar) k \<longleftrightarrow> k < 5" for k
    using bit_mask_iff [of 5 k, where 'a = "8 word"] by (auto simp: mask_eq_exp_minus_1)
  moreover have "bit_set (bitmap_disk 3) c \<longleftrightarrow> c < 5" if k: "\<And>k. bit (31 :: uchar) k \<longleftrightarrow> k < 5"
  proof (cases "c < 8")
    case True
    then have "bitmap_disk 3 ! (c div 8) = 31" "c mod 8 = c" by (simp_all add: bitmap_disk_def)
    then show ?thesis by (simp only: bit_set_iff k)
  next
    case False
    then have "c div 8 \<noteq> 0" "c div 8 < 512" using c by (auto simp: div_eq_0_iff)
    then show ?thesis using False by (simp add: bit_set_iff bitmap_disk_def)
  qed
  ultimately show ?thesis using c by (simp add: bused_def)
qed

theorem balloc_bfree_witness:
  "\<exists>s1 s2. balloc 1 (txn_on bitmap_disk 1000) = Ok (5, s1) \<and> bfree 1 5 s1 = Ok s2 \<and>
     bused (lview s1) (sb_of (bitmap_disk 1)) 5 \<and> \<not> bused (lview s2) (sb_of (bitmap_disk 1)) 5"
proof -
  let ?s = "txn_on bitmap_disk 1000" and ?sb = "sb_of (bitmap_disk 1)"
  have t: "txn ?s (Suc (Suc (Suc 0)))" "lview ?s = bitmap_disk" "lblocks ?s = 1000"
    using txn_on [of 1000 bitmap_disk 3] by (simp_all add: bitmap_disk_def log_disk_def sb_block_def numeral_3_eq_3)
  have m: "unat (bmap_block ?sb c) = 3" if "c < 1000" for c
    using that by (simp add: unat_bmap_block bitmap_disk_sb)
  have "bitmap_ok (lview ?s) ?sb (lblocks ?s)"
    using m by (auto simp: bitmap_ok_def t word_less_nat_alt bitmap_disk_sb bitmap_disk_used [unfolded bitmap_disk_sb])
  with balloc_bfree [of ?s 0 ?sb 5] t bitmap_disk_used show ?thesis
    by (auto simp: bitmap_disk_sb bitmap_disk_used [unfolded bitmap_disk_sb])
qed

end
