(* ===== verification/Xv6_Files.thy ===== *)
theory Xv6_Files
  imports Xv6_Txn
begin

text \<open>
  File contents: \<open>bmap\<close>, \<open>readi\<close> and \<open>writei\<close> of \<^verbatim>\<open>fs.c\<close> against the bytes of a file. A file whose blocks
  are all allocated is a sequence of bytes spread over the data blocks that its direct addresses and its
  indirect block name; reading returns a part of it and overwriting changes exactly that part.
\<close>

section \<open>The bytes of a file\<close>

definition baddr :: "(uint \<Rightarrow> block) \<Rightarrow> inode \<Rightarrow> nat \<Rightarrow> uint" where
  "baddr v ip bn = (if bn < NDIRECT then iaddrs ip ! bn else get32 (v (iaddrs ip ! NDIRECT)) (4 * (bn - NDIRECT)))"

definition fbyte :: "(uint \<Rightarrow> block) \<Rightarrow> inode \<Rightarrow> nat \<Rightarrow> uchar" where
  "fbyte v ip k = v (baddr v ip (k div BSIZE)) ! (k mod BSIZE)"

definition mapped :: "(uint \<Rightarrow> block) \<Rightarrow> inode \<Rightarrow> uint \<Rightarrow> nat \<Rightarrow> bool" where
  "mapped v ip nb bn \<longleftrightarrow> bn < MAXFILE \<and> baddr v ip bn \<noteq> 0 \<and> baddr v ip bn < nb \<and>
     (NDIRECT \<le> bn \<longrightarrow> iaddrs ip ! NDIRECT \<noteq> 0 \<and> iaddrs ip ! NDIRECT < nb)"

text \<open>The file of \<open>ip\<close>: its blocks up to \<open>N\<close> are allocated, and none of them is used twice.\<close>

definition file_ok :: "(uint \<Rightarrow> block) \<Rightarrow> inode \<Rightarrow> uint \<Rightarrow> nat \<Rightarrow> bool" where
  "file_ok v ip nb N \<longleftrightarrow> idev ip = 1 \<and> (\<forall>bn < N. mapped v ip nb bn) \<and>
     (\<forall>a < N. \<forall>b < N. baddr v ip a = baddr v ip b \<longrightarrow> a = b) \<and>
     (\<forall>a < N. NDIRECT < N \<longrightarrow> baddr v ip a \<noteq> iaddrs ip ! NDIRECT)"

lemma bmap_mapped:
  assumes t: "txn s r" and m: "mapped (lview s) ip (lblocks s) bn" and d: "idev ip = 1"
  shows "\<exists>s'. bmap ip bn s = Ok (baddr (lview s) ip bn, ip, s') \<and> txn s' r \<and> lview s' = lview s \<and> lblocks s' = lblocks s"
proof (cases "bn < NDIRECT")
  case True
  then show ?thesis using m t by (auto simp: bmap_def mapped_def baddr_def)
next
  case False
  then have i: "iaddrs ip ! NDIRECT \<noteq> 0" "iaddrs ip ! NDIRECT < lblocks s" "bn - NDIRECT < NINDIRECT"
    using m by (auto simp: mapped_def)
  obtain b s1 s2 where "lread 1 (iaddrs ip ! NDIRECT) s = Ok (b, s1)" "ldata s1 b = lview s (iaddrs ip ! NDIRECT)"
      "lrelse b s1 = Ok s2" "txn s2 r" "lview s2 = lview s" "lblocks s2 = lblocks s"
    by (rule tx.read_block [OF t i(2)])
  then show ?thesis using False m i d by (auto simp: bmap_def mapped_def baddr_def)
qed

section \<open>Reading\<close>

lemma map_upt_block:
  assumes "length d = BSIZE" "off mod BSIZE + m \<le> BSIZE"
  shows "take m (drop (off mod BSIZE) d) = map (\<lambda>k. d ! (k mod BSIZE)) [off..<off + m]"
proof (rule nth_equalityI)
  fix i assume "i < length (take m (drop (off mod BSIZE) d))"
  then have i: "i < m" by simp
  then have "(off + i) mod BSIZE = off mod BSIZE + i"
    using assms(2) mod_add_left_eq [of off BSIZE i] by simp
  then show "take m (drop (off mod BSIZE) d) ! i = map (\<lambda>k. d ! (k mod BSIZE)) [off..<off + m] ! i"
    using i assms by simp
qed (use assms in simp)

lemma block_of_range:
  assumes "off \<le> k" "k < off + m" "off mod BSIZE + m \<le> BSIZE" shows "k div BSIZE = off div BSIZE"
proof -
  have "k = BSIZE * (off div BSIZE) + (off mod BSIZE + (k - off))" "off mod BSIZE + (k - off) < BSIZE"
    using assms by (simp_all add: minus_mod_eq_mult_div [symmetric])
  then show ?thesis by (metis div_mult_self4 div_less add_cancel_right_right zero_neq_numeral)
qed

lemma readi_loop_mapped:
  assumes "txn s r" "file_ok (lview s) ip (lblocks s) N" "off + n \<le> BSIZE * N"
  shows "\<exists>s'. readi_loop ip off n s = Ok (map (fbyte (lview s) ip) [off..<off + n], ip, s') \<and> txn s' r \<and>
    lview s' = lview s \<and> lblocks s' = lblocks s"
  using assms
proof (induction n arbitrary: off s rule: less_induct)
  case (less n)
  show ?case
  proof (cases "n = 0")
    case True
    then show ?thesis using less.prems by (simp add: readi_loop.simps [of ip off 0])
  next
    case False
    let ?bn = "off div BSIZE"
    define m where "m = min n (BSIZE - off mod BSIZE)"
    have mpos: "0 < m" "m \<le> n" "off mod BSIZE + m \<le> BSIZE" using False by (auto simp: m_def)
    have "?bn < N" using less.prems(3) False by (simp add: div_less_iff_less_mult)
    then have mp: "mapped (lview s) ip (lblocks s) ?bn" and d: "idev ip = 1" using less.prems(2) by (auto simp: file_ok_def)
    obtain s1 where s1: "bmap ip ?bn s = Ok (baddr (lview s) ip ?bn, ip, s1)" "txn s1 r" "lview s1 = lview s" "lblocks s1 = lblocks s"
      using bmap_mapped [OF less.prems(1) mp d] by auto
    have a: "baddr (lview s) ip ?bn < lblocks s1" using mp s1(4) by (auto simp: mapped_def)
    obtain b s2 s3 where s3: "lread 1 (baddr (lview s) ip ?bn) s1 = Ok (b, s2)" "ldata s2 b = lview s (baddr (lview s) ip ?bn)"
      "lrelse b s2 = Ok s3" "txn s3 r" "lview s3 = lview s" "lblocks s3 = lblocks s"
      using tx.read_block [OF s1(2) a, unfolded s1(3,4)] by blast
    have bytes: "take m (drop (off mod BSIZE) (lview s (baddr (lview s) ip ?bn))) = map (fbyte (lview s) ip) [off..<off + m]"
      unfolding map_upt_block [OF tx.len [OF s1(2) a, unfolded s1(3)] mpos(3)]
      using block_of_range [OF _ _ mpos(3)] by (intro map_cong refl) (simp only: fbyte_def set_upt atLeastLessThan_iff)
    have split: "[off..<off + n] = [off..<off + m] @ [off + m..<off + n]"
      using upt_add_eq_append [of off "off + m" "n - m"] mpos by simp
    obtain s4 where s4: "readi_loop ip (off + m) (n - m) s3 = Ok (map (fbyte (lview s) ip) [off + m..<off + n], ip, s4)"
        "txn s4 r" "lview s4 = lview s" "lblocks s4 = lblocks s"
      using less.IH [of "n - m" s3 "off + m"] less.prems(2,3) s3(4-6) mpos False by auto
    have "readi_loop ip off n s = Ok (map (fbyte (lview s) ip) [off..<off + n], ip, s4)"
      using False s1(1) s3(1-3) s4(1) d bytes
      unfolding readi_loop.simps [of ip off n] split by (simp add: Let_def flip: m_def)
    then show ?thesis using s4 by blast
  qed
qed

section \<open>Overwriting\<close>

text \<open>The number of blocks that the bytes \<open>off\<close>, ..., \<open>off + n - 1\<close> lie in.\<close>

definition touched :: "nat \<Rightarrow> nat \<Rightarrow> nat" where
  "touched off n = (if n = 0 then 0 else Suc ((off + n - 1) div BSIZE - off div BSIZE))"

lemma touched_step:
  assumes "0 < n" "m = min n (BSIZE - off mod BSIZE)"
  shows "touched off n = Suc (touched (off + m) (n - m))"
proof (cases "m = n")
  case True
  then have "off mod BSIZE + n \<le> BSIZE" using assms(2) by (simp add: min_def split: if_splits)
  then have "(off + n - 1) div BSIZE = off div BSIZE"
    using assms(1) by (intro block_of_range [of off _ n]) auto
  then show ?thesis using True assms(1) by (simp add: touched_def)
next
  case False
  then have m: "m = BSIZE - off mod BSIZE" "m < n" using assms(2) by (simp_all add: min_def split: if_splits)
  have "off + m = off div BSIZE * BSIZE + BSIZE"
    using m(1) div_mult_mod_eq [of off BSIZE] mod_less_divisor [of BSIZE off] by linarith
  then have "(off + m) div BSIZE = Suc (off div BSIZE)" by simp
  moreover have "(off + m) div BSIZE \<le> (off + n - 1) div BSIZE" using m(2) by (intro div_le_mono) simp
  moreover have "off + m + (n - m) = off + n" using m(2) by simp
  ultimately show ?thesis using m(2) assms(1) by (simp add: touched_def Suc_le_eq Suc_diff_Suc)
qed

lemma baddr_upd:
  assumes "file_ok v ip nb N" "a < N" "b < N"
  shows "baddr (v(baddr v ip a := d)) ip b = baddr v ip b"
proof -
  have "iaddrs ip ! NDIRECT \<noteq> baddr v ip a" if "\<not> b < NDIRECT" using that assms unfolding file_ok_def by force
  then show ?thesis unfolding baddr_def [of _ _ b] by simp
qed

lemma file_ok_upd:
  assumes "file_ok v ip nb N" "a < N" shows "file_ok (v(baddr v ip a := d)) ip nb N"
  using assms(1) baddr_upd [OF assms] unfolding file_ok_def mapped_def by simp

lemma fbyte_upd:
  assumes ok: "file_ok v ip nb N" and k: "k < BSIZE * N" and off: "off div BSIZE < N"
    and len: "length (v (baddr v ip (off div BSIZE))) = BSIZE" and bs: "off mod BSIZE + length bs \<le> BSIZE"
  shows "fbyte (v(baddr v ip (off div BSIZE) := blk_write (v (baddr v ip (off div BSIZE))) (off mod BSIZE) bs)) ip k =
    (if off \<le> k \<and> k < off + length bs then bs ! (k - off) else fbyte v ip k)" (is "fbyte ?v ip k = _")
proof -
  have kN: "k div BSIZE < N" using k by (simp add: div_less_iff_less_mult mult.commute)
  have b: "baddr ?v ip (k div BSIZE) = baddr v ip (k div BSIZE)" by (rule baddr_upd [OF ok off kN])
  show ?thesis
  proof (cases "k div BSIZE = off div BSIZE")
    case True
    then have "off \<le> k \<longleftrightarrow> off mod BSIZE \<le> k mod BSIZE" "k < off + length bs \<longleftrightarrow> k mod BSIZE < off mod BSIZE + length bs"
        "k - off = k mod BSIZE - off mod BSIZE"
      using div_mult_mod_eq [of k BSIZE] div_mult_mod_eq [of off BSIZE] by linarith+
    then show ?thesis using b True len bs by (simp add: fbyte_def nth_blk_write)
  next
    case False
    then have "\<not> (off \<le> k \<and> k < off + length bs)" using block_of_range [OF _ _ bs] by blast
    moreover have "baddr v ip (k div BSIZE) \<noteq> baddr v ip (off div BSIZE)" using ok False kN off by (auto simp: file_ok_def)
    ultimately show ?thesis using b by (auto simp: fbyte_def)
  qed
qed

definition overwritten :: "logsys \<Rightarrow> logsys \<Rightarrow> inode \<Rightarrow> nat \<Rightarrow> nat \<Rightarrow> uchar list \<Rightarrow> bool" where
  "overwritten s s' ip N off src \<longleftrightarrow> lblocks s' = lblocks s \<and> file_ok (lview s') ip (lblocks s) N \<and>
     (\<forall>k < BSIZE * N. fbyte (lview s') ip k =
        (if off \<le> k \<and> k < off + length src then src ! (k - off) else fbyte (lview s) ip k)) \<and>
     (\<forall>x. (\<forall>bn < N. x \<noteq> baddr (lview s) ip bn) \<longrightarrow> lview s' x = lview s x) \<and>
     (\<forall>bn < N. baddr (lview s') ip bn = baddr (lview s) ip bn)"

lemma overwritten_trans:
  assumes "overwritten s t ip N off (take m src)" "overwritten t u ip N (off + m) (drop m src)" "m \<le> length src"
  shows "overwritten s u ip N off src"
  using assms unfolding overwritten_def by (auto simp: min_def nth_append)

lemma writei_loop_mapped:
  assumes "txn s (touched off (length src) + r)" "file_ok (lview s) ip (lblocks s) N" "off + length src \<le> BSIZE * N"
  shows "\<exists>s'. writei_loop ip off src s = Ok (ip, s') \<and> txn s' r \<and> overwritten s s' ip N off src"
  using assms
proof (induction "length src" arbitrary: off src s rule: less_induct)
  case less
  show ?case
  proof (cases "src = []")
    case True
    then show ?thesis using less.prems by (auto simp: writei_loop.simps [of ip off "[]"] touched_def overwritten_def)
  next
    case False
    let ?bn = "off div BSIZE" and ?a = "baddr (lview s) ip (off div BSIZE)"
    define m where "m = min (length src) (BSIZE - off mod BSIZE)"
    let ?d = "blk_write (lview s ?a) (off mod BSIZE) (take m src)"
    have m: "0 < m" "m \<le> length src" "off mod BSIZE + m \<le> BSIZE" using False by (auto simp: m_def)
    have bn: "?bn < N" using less.prems(3) m(1,2) by (simp add: div_less_iff_less_mult)
    then have mp: "mapped (lview s) ip (lblocks s) ?bn" and d: "idev ip = 1" using less.prems(2) by (auto simp: file_ok_def)
    have t: "txn s (Suc (touched (off + m) (length src - m) + r))"
      using less.prems(1) touched_step [OF _ m_def] False by simp
    obtain s1 where s1: "bmap ip ?bn s = Ok (?a, ip, s1)" "txn s1 (Suc (touched (off + m) (length src - m) + r))"
        "lview s1 = lview s" "lblocks s1 = lblocks s"
      using bmap_mapped [OF t mp d] by auto
    have a: "?a < lblocks s1" using mp s1(4) by (auto simp: mapped_def)
    note len = tx.len [OF s1(2) a, unfolded s1(3)]
    obtain b s2 where b: "lread 1 ?a s1 = Ok (b, s2)" "ldata s2 b = lview s ?a"
      and w: "\<And>d. length d = BSIZE \<Longrightarrow> \<exists>s3 s4. lwrite b d s2 = Ok s3 \<and> lrelse b s3 = Ok s4 \<and>
        txn s4 (touched (off + m) (length src - m) + r) \<and> lview s4 = (lview s)(?a := d) \<and> lblocks s4 = lblocks s"
      using tx.write_block [OF s1(2) a, unfolded s1(3,4)] by blast
    obtain s3 s4 where s4: "lwrite b ?d s2 = Ok s3" "lrelse b s3 = Ok s4" "txn s4 (touched (off + m) (length src - m) + r)"
        "lview s4 = (lview s)(?a := ?d)" "lblocks s4 = lblocks s"
      using w [of ?d] len m by auto
    have o: "overwritten s s4 ip N off (take m src)"
      using fbyte_upd [OF less.prems(2) _ bn len, of _ "take m src"] file_ok_upd [OF less.prems(2) bn]
        baddr_upd [OF less.prems(2) bn] bn m s4(4,5) by (auto simp: overwritten_def)
    obtain s5 where "writei_loop ip (off + m) (drop m src) s4 = Ok (ip, s5)" "txn s5 r"
        "overwritten s4 s5 ip N (off + m) (drop m src)"
    proof -
      have "file_ok (lview s4) ip (lblocks s4) N" using o by (simp add: overwritten_def)
      moreover have "length src - m < length src" using m(1,2) by linarith
      ultimately show ?thesis using less.hyps [of "drop m src" s4 "off + m"] s4(3) less.prems(3) m(2) that by auto
    qed
    moreover have "writei_loop ip off src s = writei_loop ip (off + m) (drop m src) s4"
      using False s1(1) b s4(1,2) d unfolding writei_loop.simps [of ip off src]
      by (simp add: Let_def lwrite_def flip: m_def)
    ultimately show ?thesis using overwritten_trans [OF o _ m(2)] by auto
  qed
qed

section \<open>The routines on an inode\<close>

text \<open>The contents of the file of \<open>ip\<close>, and the number of its blocks.\<close>

definition contents :: "(uint \<Rightarrow> block) \<Rightarrow> inode \<Rightarrow> uchar list" where
  "contents v ip = map (fbyte v ip) [0..<unat (isize ip)]"

definition fblocks :: "inode \<Rightarrow> nat" where
  "fblocks ip = (unat (isize ip) + BSIZE - 1) div BSIZE"

lemma fblocks_size: "unat (isize ip) \<le> BSIZE * fblocks ip"
  using div_mult_mod_eq [of "unat (isize ip) + BSIZE - 1" BSIZE] mod_less_divisor [of BSIZE "unat (isize ip) + BSIZE - 1"]
  unfolding fblocks_def by linarith

lemma file_ok_size:
  assumes "file_ok v ip nb (fblocks ip)" shows "unat (isize ip) \<le> MAXFILE * BSIZE"
proof (rule ccontr)
  assume "\<not> ?thesis"
  then have "MAXFILE < fblocks ip" using fblocks_size [of ip] by linarith
  then show False using assms by (auto simp: file_ok_def mapped_def)
qed

lemma set_inode_same [simp]: "set_inode i (inodes s ! i) s = s" "set_inode i (inodes s ! i) (s\<lparr>fl := l\<rparr>) = s\<lparr>fl := l\<rparr>"
  by (simp_all add: set_inode_def)

lemma unat_add_le: "unat (a :: uint) + unat b \<le> unat (c :: uint) \<Longrightarrow> unat (a + b) = unat a + unat b"
  using unsigned_less [of c, where 'a = nat] by (intro unat_add_lem [THEN iffD1]) (auto simp del: unsigned_less)

lemma readi_file:
  assumes "txn (fl s) r" "file_ok (lview (fl s)) (inodes s ! i) (lblocks (fl s)) (fblocks (inodes s ! i))"
    "itype (inodes s ! i) \<noteq> T_DEV" "unat off + unat n \<le> unat (isize (inodes s ! i))"
  shows "\<exists>l. readi devsw i off n s = Ok ((uint n, take (unat n) (drop (unat off) (contents (lview (fl s)) (inodes s ! i)))), s\<lparr>fl := l\<rparr>) \<and>
    txn l r \<and> lview l = lview (fl s) \<and> lblocks l = lblocks (fl s)"
proof -
  let ?ip = "inodes s ! i"
  note add = unat_add_le [OF assms(4)]
  obtain l where l: "readi_loop ?ip (unat off) (unat n) (fl s) = Ok (map (fbyte (lview (fl s)) ?ip) [unat off..<unat off + unat n], ?ip, l)"
      "txn l r" "lview l = lview (fl s)" "lblocks l = lblocks (fl s)"
    using readi_loop_mapped [OF assms(1,2), of "unat off" "unat n"] assms(4) fblocks_size [of ?ip] by auto
  have "\<not> (isize ?ip < off \<or> off + n < off)" "\<not> isize ?ip < off + n"
    using assms(4) add by (auto simp: word_less_nat_alt)
  moreover have "map (fbyte (lview (fl s)) ?ip) [unat off..<unat off + unat n] =
      take (unat n) (drop (unat off) (contents (lview (fl s)) ?ip))"
    using assms(4) by (simp add: contents_def drop_map take_map)
  ultimately show ?thesis using l assms(3) by (intro exI [of _ l]) (simp add: readi_def Let_def)
qed

lemma writei_file:
  assumes t: "txn (fl s) (touched (unat off) (unat n) + r)" and f: "file_ok (lview (fl s)) (inodes s ! i) (lblocks (fl s)) (fblocks (inodes s ! i))"
    and y: "itype (inodes s ! i) \<noteq> T_DEV" and n: "unat off + unat n \<le> unat (isize (inodes s ! i))" and src: "length src = unat n"
  shows "\<exists>l. writei devsw i src off n s = Ok (uint n, s\<lparr>fl := l\<rparr>) \<and> txn l r \<and>
    overwritten (fl s) l (inodes s ! i) (fblocks (inodes s ! i)) (unat off) src"
proof -
  let ?ip = "inodes s ! i"
  note add = unat_add_le [OF n]
  obtain l where l: "writei_loop ?ip (unat off) src (fl s) = Ok (?ip, l)" "txn l r"
      "overwritten (fl s) l ?ip (fblocks ?ip) (unat off) src"
    using writei_loop_mapped [of "fl s" "unat off" src r ?ip "fblocks ?ip"] t f n fblocks_size [of ?ip] src by auto
  have "\<not> (isize ?ip < off \<or> off + n < off)" "\<not> isize ?ip < off + n" "\<not> of_nat (MAXFILE * BSIZE) < off + n"
    using n add file_ok_size [OF f] by (auto simp: word_less_nat_alt)
  then show ?thesis using l y src by (intro exI [of _ l]) (simp add: writei_def Let_def)
qed

lemma contents_overwritten:
  assumes o: "overwritten s s' ip (fblocks ip) off src" and n: "off + length src \<le> unat (isize ip)"
  shows "contents (lview s') ip = take off (contents (lview s) ip) @ src @ drop (off + length src) (contents (lview s) ip)"
proof (rule nth_equalityI)
  show "length (contents (lview s') ip) =
      length (take off (contents (lview s) ip) @ src @ drop (off + length src) (contents (lview s) ip))"
    using n by (simp add: contents_def)
  fix k assume "k < length (contents (lview s') ip)"
  then have k: "k < unat (isize ip)" "k < BSIZE * fblocks ip" using fblocks_size [of ip] by (simp_all add: contents_def)
  have "contents (lview s') ip ! k = (if off \<le> k \<and> k < off + length src then src ! (k - off) else contents (lview s) ip ! k)"
    using o k by (simp add: overwritten_def contents_def)
  also have "\<dots> = (take off (contents (lview s) ip) @ src @ drop (off + length src) (contents (lview s) ip)) ! k"
    using n k(1) by (auto simp: nth_append contents_def min_def)
  finally show "contents (lview s') ip ! k = (take off (contents (lview s) ip) @ src @ drop (off + length src) (contents (lview s) ip)) ! k" .
qed

text \<open>C5: Let the blocks of a regular file be allocated and distinct, and let a transaction have room for the
  blocks that the bytes \<open>off\<close>, ..., \<open>off + n - 1\<close> of the file lie in. \<open>writei\<close> of \<open>n\<close> bytes inside the file then
  returns \<open>n\<close>; a \<open>readi\<close> of the whole file gives its old contents with exactly these bytes replaced; and no block
  that does not hold data of the file has changed.\<close>

theorem writei_overwrites:
  assumes "txn (fl s) (touched (unat off) (unat n) + r)" "itype (inodes s ! i) \<noteq> T_DEV"
    "file_ok (lview (fl s)) (inodes s ! i) (lblocks (fl s)) (fblocks (inodes s ! i))"
    "unat off + unat n \<le> unat (isize (inodes s ! i))" "length src = unat n"
  shows "\<exists>s0 old s1 s2. readi devsw i 0 (isize (inodes s ! i)) s = Ok ((uint (isize (inodes s ! i)), old), s0) \<and>
    writei devsw i src off n s = Ok (uint n, s1) \<and>
    readi devsw i 0 (isize (inodes s ! i)) s1 =
      Ok ((uint (isize (inodes s ! i)), take (unat off) old @ src @ drop (unat off + unat n) old), s2) \<and>
    (\<forall>x. (\<forall>bn < fblocks (inodes s ! i). x \<noteq> baddr (lview (fl s)) (inodes s ! i) bn) \<longrightarrow>
       lview (fl s1) x = lview (fl s) x)"
proof -
  let ?ip = "inodes s ! i"
  have all: "take (unat (isize ?ip)) (drop (unat 0) (contents v ?ip)) = contents v ?ip" for v
    by (simp add: contents_def)
  obtain l0 where r0: "readi devsw i 0 (isize ?ip) s = Ok ((uint (isize ?ip), contents (lview (fl s)) ?ip), s\<lparr>fl := l0\<rparr>)"
    using readi_file [OF assms(1,3,2), of 0 "isize ?ip", unfolded all] by auto
  obtain l1 where w: "writei devsw i src off n s = Ok (uint n, s\<lparr>fl := l1\<rparr>)" "txn l1 r"
      and o: "overwritten (fl s) l1 ?ip (fblocks ?ip) (unat off) src"
    using writei_file [OF assms(1,3,2,4,5)] by auto
  have "file_ok (lview l1) ?ip (lblocks l1) (fblocks ?ip)" using o by (simp add: overwritten_def)
  then obtain l2 where r2: "readi devsw i 0 (isize ?ip) (s\<lparr>fl := l1\<rparr>) =
      Ok ((uint (isize ?ip), contents (lview l1) ?ip), s\<lparr>fl := l2\<rparr>)"
    using readi_file [of "s\<lparr>fl := l1\<rparr>" r i 0 "isize ?ip" devsw] w(2) assms(2) all by auto
  show ?thesis
    using r0 w(1) r2 o contents_overwritten [OF o] assms(4,5) by (auto simp: overwritten_def)
qed

text \<open>A file of 1000 bytes in blocks 500 and 501, on a disk of zeros.\<close>

definition file_ip :: inode where
  "file_ip = \<lparr>idev = 1, inum = 2, iref = 1, iflags = 3, itype = T_FILE, imajor = 0, iminor = 0, inlink = 1, isize = 1000,
     iaddrs = [500, 501, 0, 0, 0, 0, 0, 0, 0, 0, 0, 0, 0]\<rparr>"

definition file_fs :: fs where
  "file_fs = \<lparr>fl = txn_on log_disk 1000, icache_lock = llock log_zero, inodes = [file_ip], fwakes = []\<rparr>"

definition no_devices :: "nat \<Rightarrow> fs devsw" where
  "no_devices = (\<lambda>_. \<lparr>dev_read = None, dev_write = None\<rparr>)"

theorem writei_overwrites_witness:
  "\<exists>s1. writei no_devices 0 (replicate 600 7) 300 600 file_fs = Ok (600, s1)"
proof -
  have "touched (unat (300 :: uint)) (unat (600 :: uint)) + 0 = 2" by (simp add: touched_def)
  then have t: "txn (fl file_fs) (touched (unat (300 :: uint)) (unat (600 :: uint)) + 0)" "lview (fl file_fs) = log_disk" "lblocks (fl file_fs) = 1000"
    using txn_on [of 1000 log_disk 2] by (simp_all only:) (simp_all add: file_fs_def log_disk_def sb_block_def)
  have two: "bn < 2 \<longleftrightarrow> bn = 0 \<or> bn = Suc 0" for bn :: nat by auto
  have "file_ok log_disk file_ip 1000 2"
    unfolding file_ok_def two by (auto simp: mapped_def baddr_def file_ip_def)
  then have "file_ok (lview (fl file_fs)) (inodes file_fs ! 0) (lblocks (fl file_fs)) (fblocks (inodes file_fs ! 0))"
    unfolding t by (simp add: fblocks_def file_fs_def file_ip_def)
  from writei_overwrites [OF t(1) _ this, of "replicate 600 7" no_devices] show ?thesis by (auto simp: file_fs_def file_ip_def)
qed

end
