(* ===== verification/Xv6_Names.thy ===== *)
theory Xv6_Names
  imports Xv6_Fs "HOL-Library.Multiset"
begin

text \<open>
  Path names and the inode cache of \<^verbatim>\<open>fs.c\<close>. \<open>namex\<close> depends on a path only through its elements, the
  nonempty parts between slashes cut to \<open>DIRSIZ\<close> bytes. The reference counts of \<open>icache\<close> count the
  references that \<open>iget\<close> and \<open>idup\<close> have handed out and \<open>iput\<close> has not yet taken back.
\<close>

section \<open>Path elements\<close>

text \<open>The parts of a path between its slashes, empty ones included.\<close>

primrec split_slash :: "uchar list \<Rightarrow> uchar list list" where
  "split_slash [] = [[]]"
| "split_slash (c # cs) =
     (if c = slash then [] # split_slash cs else (c # hd (split_slash cs)) # tl (split_slash cs))"

definition elements :: "uchar list \<Rightarrow> uchar list list" where
  "elements path = map (take DIRSIZ) (filter (\<lambda>e. e \<noteq> []) (split_slash path))"

lemma split_slash_neq [simp]: "split_slash p \<noteq> []"
  by (cases p) auto

lemma elements_Nil [simp]: "elements [] = []"
  by (simp add: elements_def)

lemma elements_slash [simp]: "elements (slash # p) = elements p"
  by (simp add: elements_def)

lemma elements_dropWhile: "elements (dropWhile (\<lambda>c. c = slash) p) = elements p"
  by (induction p) auto

lemma split_slash_span:
  "split_slash p = takeWhile (\<lambda>c. c \<noteq> slash) p #
     (case dropWhile (\<lambda>c. c \<noteq> slash) p of [] \<Rightarrow> [] | c # q \<Rightarrow> split_slash q)"
  by (induction p) auto

lemma elements_None: "skipelem p = None \<longleftrightarrow> elements p = []"
proof -
  let ?q = "dropWhile (\<lambda>c. c = slash) p"
  have "elements q \<noteq> []" if "q \<noteq> []" "hd q \<noteq> slash" for q
    using that split_slash_span [of q] by (cases q) (auto simp: elements_def)
  moreover have "hd ?q \<noteq> slash" if "?q \<noteq> []" using hd_dropWhile [OF that] .
  ultimately have "elements ?q = [] \<longleftrightarrow> ?q = []" by (cases "?q = []") (auto simp only: elements_Nil)
  moreover have "skipelem p = None \<longleftrightarrow> ?q = []" unfolding skipelem_def Let_def by (cases "?q = []") simp_all
  ultimately show ?thesis using elements_dropWhile [of p] by simp
qed

lemma elements_Some:
  assumes "skipelem p = Some (rest, name)"
  shows "elements p = name # elements rest" "rest = [] \<longleftrightarrow> elements rest = []"
proof -
  define q where "q = dropWhile (\<lambda>c. c = slash) p"
  have q: "q \<noteq> []" "hd q \<noteq> slash" and r: "rest = dropWhile (\<lambda>c. c = slash) (dropWhile (\<lambda>c. c \<noteq> slash) q)"
    "name = take DIRSIZ (takeWhile (\<lambda>c. c \<noteq> slash) q)"
    using assms hd_dropWhile [of "\<lambda>c. c = slash" p] by (auto simp: skipelem_def Let_def q_def split: if_splits)
  have tw: "takeWhile (\<lambda>c. c \<noteq> slash) q \<noteq> []" using q by (cases q) auto
  have "elements q = name # elements rest"
  proof (cases "dropWhile (\<lambda>c. c \<noteq> slash) q")
    case Nil
    have "split_slash q = [takeWhile (\<lambda>c. c \<noteq> slash) q]" "rest = []"
      using split_slash_span [of q] r(1) unfolding Nil by simp_all
    then show ?thesis using tw r(2) by (simp add: elements_def del: takeWhile_eq_Nil_iff)
  next
    case (Cons c cs)
    then have "c = slash" using hd_dropWhile [of "\<lambda>c. c \<noteq> slash" q] by simp
    then have "split_slash q = takeWhile (\<lambda>c. c \<noteq> slash) q # split_slash cs" "elements rest = elements cs"
      using split_slash_span [of q] r(1) elements_dropWhile [of cs] unfolding Cons by simp_all
    then show ?thesis using tw r(2) by (simp add: elements_def del: takeWhile_eq_Nil_iff)
  qed
  then show "elements p = name # elements rest" using elements_dropWhile [of p] by (simp add: q_def)
  have "skipelem rest = None \<longleftrightarrow> rest = []"
  proof -
    have "dropWhile (\<lambda>c. c = slash) rest = rest" using r by simp
    then show ?thesis by (simp add: skipelem_def Let_def)
  qed
  then show "rest = [] \<longleftrightarrow> elements rest = []" using elements_None [of rest] by simp
qed

lemma namex_loop_elements:
  "elements p = elements q \<Longrightarrow> namex_loop devsw parent ip p name s = namex_loop devsw parent ip q name s"
proof (induction devsw parent ip p name s arbitrary: q rule: namex_loop.induct)
  case (1 devsw parent ip p name s)
  show ?case
  proof (cases "skipelem p")
    case None
    then have "skipelem q = None" using 1(2) elements_None by metis
    with None show ?thesis by (simp add: namex_loop.simps [of _ _ _ p] namex_loop.simps [of _ _ _ q])
  next
    case (Some x)
    then obtain p' nm where p: "skipelem p = Some (p', nm)" by (cases x) auto
    then obtain q' nm' where q: "skipelem q = Some (q', nm')" using 1(2) elements_None [of p] elements_None [of q] by (cases "skipelem q") auto
    note e = elements_Some [OF p] elements_Some [OF q]
    have nm: "nm' = nm" "elements p' = elements q'" "p' = [] \<longleftrightarrow> q' = []" using e 1(2) by auto
    have ih: "namex_loop devsw parent n p' nm t = namex_loop devsw parent n q' nm t"
      if "ilock (Some ip) s = Ok s1" "\<not> itype (inodes s1 ! ip) \<noteq> T_DIR" "\<not> (parent \<and> p' = [])" "dirlookup devsw ip nm s1 = Ok (Some (n, o'), s2)"
        "iunlockput ip s2 = Ok t" for s1 n o' s2 t
      using 1(1) [OF p refl that(1-4) refl refl refl that(5) nm(2)] .
    show ?thesis
      unfolding namex_loop.simps [of _ _ _ p] namex_loop.simps [of _ _ _ q] p q nm(1) option.case prod.case nm(3)
      using ih nm(3) by (auto intro!: rbind_cong split: option.split)
  qed
qed

text \<open>C18: \<open>namex\<close> (and so \<open>namei\<close> and \<open>nameiparent\<close>) gives the same result and the same state for two paths that
  both start with a slash or both do not, and that have the same elements. The number of slashes
  between elements, trailing slashes, and what follows the first 14 bytes of an element make no difference.\<close>

theorem namex_elements:
  assumes "elements p = elements q" "(p \<noteq> [] \<and> hd p = slash) \<longleftrightarrow> (q \<noteq> [] \<and> hd q = slash)"
  shows "namex devsw cwd p parent s = namex devsw cwd q parent s"
  unfolding namex_def assms(2) namex_loop_elements [OF assms(1)] ..

theorem namex_elements_witness:
  "\<forall>devsw cwd parent s. namex devsw cwd [47, 97, 47, 47, 98] parent (s :: fs) = namex devsw cwd [47, 97, 47, 98, 47] parent s"
  by (intro allI namex_elements) (simp_all add: elements_def)

section \<open>Reference counts of the inode cache\<close>

text \<open>
  The references that are in use: one element of the multiset for each one that a process, a file
  structure or a routine under way holds. \<open>disk_io\<close> stands for everything that works on the buffer cache and the log
  or on fields of an inode other than those that identify and count it.
\<close>

definition same_key :: "inode \<Rightarrow> inode \<Rightarrow> bool" where
  "same_key a b \<longleftrightarrow> idev a = idev b \<and> inum a = inum b \<and> iref a = iref b"

inductive icache_step :: "fs \<times> nat multiset \<Rightarrow> fs \<times> nat multiset \<Rightarrow> bool" where
  get: "iget dev n s = Ok (i, s') \<Longrightarrow> icache_step (s, h) (s', add_mset i h)"
| dup: "i \<in># h \<Longrightarrow> idup i s = (i, s') \<Longrightarrow> icache_step (s, h) (s', add_mset i h)"
| lock: "i \<in># h \<Longrightarrow> ilock (Some i) s = Ok s' \<Longrightarrow> icache_step (s, h) (s', h)"
| unlock: "i \<in># h \<Longrightarrow> iunlock (Some i) s = Ok s' \<Longrightarrow> icache_step (s, h) (s', h)"
| disk_io: "length (inodes s') = length (inodes s) \<Longrightarrow> list_all2 same_key (inodes s) (inodes s') \<Longrightarrow> icache_step (s, h) (s', h)"
| put: "i \<in># h \<Longrightarrow> iput i s = Ok s' \<Longrightarrow> icache_step (s, h) (s', h - {#i#})"

inductive icache_reachable :: "fs \<Rightarrow> nat multiset \<Rightarrow> bool" where
  boot: "length (inodes s) = NINODE \<Longrightarrow> \<forall>ip \<in> set (inodes s). iref ip = 0 \<Longrightarrow> icache_reachable s {#}"
| step: "icache_reachable s h \<Longrightarrow> icache_step (s, h) (s', h') \<Longrightarrow> icache_reachable s' h'"

definition icache_inv :: "fs \<Rightarrow> nat multiset \<Rightarrow> bool" where
  "icache_inv s h \<longleftrightarrow> length (inodes s) = NINODE \<and> (\<forall>i \<in># h. i < NINODE) \<and>
     (\<forall>i < NINODE. iref (inodes s ! i) = int (count h i)) \<and>
     (\<forall>i < NINODE. \<forall>j < NINODE. i \<in># h \<longrightarrow> j \<in># h \<longrightarrow> idev (inodes s ! i) = idev (inodes s ! j) \<longrightarrow>
        inum (inodes s ! i) = inum (inodes s ! j) \<longrightarrow> i = j)"

lemma icache_inv_update:
  assumes inv: "icache_inv s h" and i: "i < NINODE" "iref ip = int (count h' i)"
    and h: "\<And>j. j \<noteq> i \<Longrightarrow> count h' j = count h j" and s': "inodes s' = (inodes s)[i := ip]"
    and key: "i \<in># h' \<Longrightarrow> (i \<in># h \<and> idev ip = idev (inodes s ! i) \<and> inum ip = inum (inodes s ! i)) \<or>
      (\<forall>j < NINODE. j \<in># h \<longrightarrow> j = i \<or> idev (inodes s ! j) \<noteq> idev ip \<or> inum (inodes s ! j) \<noteq> inum ip)"
  shows "icache_inv s' h'"
proof -
  have mem: "j \<in># h' \<longleftrightarrow> j \<in># h" if "j \<noteq> i" for j
    using h [OF that] by (metis count_greater_zero_iff)
  have "\<forall>j \<in># h'. j < NINODE" using inv i(1) mem unfolding icache_inv_def by metis
  moreover have "\<forall>j < NINODE. iref (inodes s' ! j) = int (count h' j)"
    using inv i h by (auto simp: icache_inv_def s' nth_list_update)
  moreover have "a = b" if "a < NINODE" "b < NINODE" "a \<in># h'" "b \<in># h'" "idev (inodes s' ! a) = idev (inodes s' ! b)"
      "inum (inodes s' ! a) = inum (inodes s' ! b)" for a b
    using that inv i(1) mem key unfolding icache_inv_def s' by (cases "a = i"; cases "b = i") (auto simp: nth_list_update)
  ultimately show ?thesis using inv by (simp add: icache_inv_def s')
qed

lemma find_upt_SomeD: "find P [0..<n] = Some i \<Longrightarrow> i < n \<and> P i"
  by (auto simp: find_Some_iff)

lemma count_pos: "i \<in># h \<longleftrightarrow> 0 < int (count h i)"
  by simp

lemma iget_inv:
  assumes inv: "icache_inv s h" and g: "iget dev n s = Ok (i, s')"
  shows "icache_inv s' (add_mset i h)"
proof (cases "find (\<lambda>i. iref (inodes s ! i) > 0 \<and> idev (inodes s ! i) = dev \<and> inum (inodes s ! i) = n) [0..<NINODE]")
  case (Some k)
  then have "k = i" "i < NINODE" "iref (inodes s ! i) > 0" and s': "inodes s' = (inodes s)[i := (inodes s ! i)\<lparr>iref := iref (inodes s ! i) + 1\<rparr>]"
    using g find_upt_SomeD [OF Some] by (auto simp: iget_def simp del: upt_rec_numeral)
  moreover have "i \<in># h" using inv calculation(2,3) by (simp add: icache_inv_def)
  ultimately show ?thesis using inv by (intro icache_inv_update [OF inv _ _ _ s']) (auto simp: icache_inv_def)
next
  case None
  then have none: "\<not> (iref (inodes s ! j) > 0 \<and> idev (inodes s ! j) = dev \<and> inum (inodes s ! j) = n)" if "j < NINODE" for j
    using that by (auto simp: find_None_iff simp del: upt_rec_numeral)
  from None g have f: "find (\<lambda>i. iref (inodes s ! i) = 0) [0..<NINODE] = Some i"
    and s': "inodes s' = (inodes s)[i := (inodes s ! i)\<lparr>idev := dev, inum := n, iref := 1, iflags := 0\<rparr>]"
    by (auto simp: iget_def simp del: upt_rec_numeral split: option.splits)
  then have i: "i < NINODE" "count h i = 0" using inv find_upt_SomeD [OF f] by (auto simp: icache_inv_def)
  have "\<forall>j < NINODE. j \<in># h \<longrightarrow> idev (inodes s ! j) \<noteq> dev \<or> inum (inodes s ! j) \<noteq> n"
    using inv none by (auto simp: icache_inv_def)
  then show ?thesis using i by (intro icache_inv_update [OF inv i(1) _ _ s']) auto
qed

lemma icache_inv_same_key:
  assumes inv: "icache_inv s h" and k: "length (inodes s') = length (inodes s)" "list_all2 same_key (inodes s) (inodes s')"
  shows "icache_inv s' h"
proof -
  have "idev (inodes s ! i) = idev (inodes s' ! i) \<and> inum (inodes s ! i) = inum (inodes s' ! i) \<and> iref (inodes s ! i) = iref (inodes s' ! i)"
    if "i < NINODE" for i
    using that inv list_all2_nthD [OF k(2), of i] by (simp add: icache_inv_def same_key_def)
  then show ?thesis using inv k(1) by (simp add: icache_inv_def)
qed

lemma same_key_refl [simp]: "same_key a a"
  by (simp add: same_key_def)

lemma list_all2_upd_same_key:
  "same_key (xs ! i) y \<Longrightarrow> list_all2 same_key xs (xs[i := y])"
  by (cases "i < length xs") (auto simp: list_all2_conv_all_nth nth_list_update)

lemma ilock_keys: "ilock (Some i) s = Ok s' \<Longrightarrow> list_all2 same_key (inodes s) (inodes s')"
  by (auto simp: set_inode_def Let_def load_inode_def same_key_def intro!: list_all2_upd_same_key split: if_splits)

lemma iunlock_keys: "iunlock (Some i) s = Ok s' \<Longrightarrow> list_all2 same_key (inodes s) (inodes s')"
  by (auto simp: set_inode_def Let_def same_key_def intro!: list_all2_upd_same_key split: if_splits)

lemma free_direct_key: "free_direct is ip s = Ok (ip', s') \<Longrightarrow> same_key ip ip'"
proof (induction "is" arbitrary: ip s)
  case (Cons i "is")
  from Cons.prems consider s1 where "free_direct is (ip\<lparr>iaddrs := (iaddrs ip)[i := 0]\<rparr>) s1 = Ok (ip', s')" | "free_direct is ip s = Ok (ip', s')"
    by (auto split: if_splits)
  then show ?case by cases (auto dest: Cons.IH simp: same_key_def)
qed simp

lemma itrunc_key:
  assumes "itrunc ip s = Ok (ip', s')" shows "same_key ip ip'"
proof -
  obtain ip1 s1 where "free_direct [0..<NDIRECT] ip s = Ok (ip1, s1)" and "same_key ip1 ip'"
    using assms by (auto simp: itrunc_def Let_def same_key_def simp del: upt_rec_numeral split: if_splits)
  then show ?thesis using free_direct_key [of _ ip s ip1] by (auto simp: same_key_def)
qed

lemma iput_inode:
  assumes "iput i s = Ok s'"
  shows "\<exists>ip. inodes s' = (inodes s)[i := ip] \<and> idev ip = idev (inodes s ! i) \<and> inum ip = inum (inodes s ! i) \<and>
    (i < length (inodes s) \<longrightarrow> iref ip = iref (inodes s ! i) - 1)"
proof -
  let ?ip = "inodes s ! i"
  obtain t where t: "inodes s' = (inodes t)[i := (inodes t ! i)\<lparr>iref := iref (inodes t ! i) - 1\<rparr>]"
    and c: "(if iref ?ip = 1 \<and> ivalid ?ip \<and> inlink ?ip = 0 then
        if ibusy ?ip then Panic ''iput busy''
        else rbind (itrunc (?ip\<lparr>iflags := iflags ?ip OR I_BUSY\<rparr>) (fl s)) (\<lambda>(ip, l).
             let ip = ip\<lparr>itype := 0\<rparr>
             in rbind (iupdate ip l) (\<lambda>l.
                Ok (set_inode i (ip\<lparr>iflags := 0\<rparr>) (s\<lparr>fl := l, fwakes := fwakes s @ [ChInode i]\<rparr>))))
      else Ok s) = Ok t"
    using assms unfolding iput_def Let_def by (elim rbind_OkE) (auto simp: set_inode_def)
  have "t = s \<or> (\<exists>ip. same_key ?ip ip \<and> inodes t = (inodes s)[i := ip])"
  proof (cases "iref ?ip = 1 \<and> ivalid ?ip \<and> inlink ?ip = 0 \<and> \<not> ibusy ?ip")
    case True
    with c obtain ip l where tr: "itrunc (?ip\<lparr>iflags := iflags ?ip OR I_BUSY\<rparr>) (fl s) = Ok (ip, l)"
        and "inodes t = (inodes s)[i := ip\<lparr>itype := 0, iflags := 0\<rparr>]"
      by (auto simp: Let_def set_inode_def)
    then show ?thesis using itrunc_key [OF tr]
      by (intro disjI2 exI [of _ "ip\<lparr>itype := 0, iflags := 0\<rparr>"]) (simp add: same_key_def)
  qed (use c in \<open>auto split: if_splits\<close>)
  then show ?thesis
  proof (elim disjE exE conjE)
    fix ip assume "same_key (inodes s ! i) ip" "inodes t = (inodes s)[i := ip]"
    then show ?thesis using t by (cases "i < length (inodes s)") (auto simp: same_key_def list_update_beyond)
  qed (use t in auto)
qed

lemma iput_inv:
  assumes inv: "icache_inv s h" and i: "i \<in># h" and p: "iput i s = Ok s'"
  shows "icache_inv s' (h - {#i#})"
proof -
  have iN: "i < NINODE" "i < length (inodes s)" using inv i by (auto simp: icache_inv_def)
  obtain ip where ip: "inodes s' = (inodes s)[i := ip]" "idev ip = idev (inodes s ! i)" "inum ip = inum (inodes s ! i)"
      "iref ip = iref (inodes s ! i) - 1"
    using iput_inode [OF p] iN(2) by blast
  have "0 < count h i" using i by simp
  then have "iref ip = int (count (h - {#i#}) i)" using inv iN(1) ip(4) by (auto simp: icache_inv_def of_nat_diff)
  then show ?thesis using ip i by (intro icache_inv_update [OF inv iN(1) _ _ ip(1)]) auto
qed

lemma idup_inv:
  assumes inv: "icache_inv s h" and i: "i \<in># h" and d: "idup i s = (i, s')"
  shows "icache_inv s' (add_mset i h)"
proof -
  have iN: "i < NINODE" using inv i by (auto simp: icache_inv_def)
  have s': "inodes s' = (inodes s)[i := (inodes s ! i)\<lparr>iref := iref (inodes s ! i) + 1\<rparr>]" using d by (auto simp: idup_def)
  show ?thesis using inv iN i by (intro icache_inv_update [OF inv iN _ _ s']) (auto simp: icache_inv_def)
qed

lemma icache_step_inv:
  assumes "icache_step (s, h) (s', h')" and inv: "icache_inv s h" shows "icache_inv s' h'"
  using assms(1)
proof cases
  case (get dev n i)
  then show ?thesis using iget_inv [OF inv] by simp
next
  case (dup i)
  then show ?thesis using idup_inv [OF inv] by simp
next
  case (lock i)
  then show ?thesis using icache_inv_same_key [OF inv _ ilock_keys] list_all2_lengthD [OF ilock_keys] by metis
next
  case (unlock i)
  then show ?thesis using icache_inv_same_key [OF inv _ iunlock_keys] list_all2_lengthD [OF iunlock_keys] by metis
next
  case disk_io
  then show ?thesis using icache_inv_same_key [OF inv] by simp
next
  case (put i)
  then show ?thesis using iput_inv [OF inv] by simp
qed

lemma icache_reachable_inv: "icache_reachable s h \<Longrightarrow> icache_inv s h"
proof (induction rule: icache_reachable.induct)
  case (boot s)
  then show ?case by (simp add: icache_inv_def)
next
  case (step s h s' h')
  then show ?case by (blast intro: icache_step_inv)
qed

lemma iget_entry:
  assumes "iget dev n s = Ok (k, s')"
  shows "k < NINODE \<and> (\<exists>ip. inodes s' = (inodes s)[k := ip] \<and>
    (iref (inodes s ! k) = 0 \<or> idev ip = idev (inodes s ! k) \<and> inum ip = inum (inodes s ! k)))"
proof (cases "find (\<lambda>i. iref (inodes s ! i) > 0 \<and> idev (inodes s ! i) = dev \<and> inum (inodes s ! i) = n) [0..<NINODE]")
  case (Some i)
  then show ?thesis using assms find_upt_SomeD [OF Some] by (auto simp: iget_def simp del: upt_rec_numeral)
next
  case None
  then have k: "find (\<lambda>i. iref (inodes s ! i) = 0) [0..<NINODE] = Some k"
    using assms by (auto simp: iget_def simp del: upt_rec_numeral split: option.splits)
  then show ?thesis using None assms find_upt_SomeD [OF k] by (auto simp: iget_def simp del: upt_rec_numeral)
qed

lemma iget_keeps:
  assumes inv: "icache_inv s h" and g: "iget dev n s = Ok (k, s')" and i: "i \<in># h"
  shows "idev (inodes s' ! i) = idev (inodes s ! i) \<and> inum (inodes s' ! i) = inum (inodes s ! i)"
proof -
  have p: "i < NINODE" "iref (inodes s ! i) \<noteq> 0" "length (inodes s) = NINODE" using inv i by (auto simp: icache_inv_def)
  then show ?thesis using iget_entry [OF g] by (cases "i = k") (auto simp: nth_list_update)
qed

text \<open>C7: In every state that calls of \<open>iget\<close>, \<open>idup\<close>, \<open>ilock\<close>, \<open>iunlock\<close> and \<open>iput\<close> lead to from an empty cache,
  the reference count of an entry is the number of references to it that are in use; references to the same
  inode of the same device are references to the same entry; and \<open>iget\<close> never hands out an entry that is referenced for
  another inode: every referenced entry still names the inode it named before.\<close>

theorem icache_references:
  assumes "icache_reachable s h"
  shows "(\<forall>i < NINODE. iref (inodes s ! i) = int (count h i)) \<and>
    (\<forall>i j. i \<in># h \<longrightarrow> j \<in># h \<longrightarrow> idev (inodes s ! i) = idev (inodes s ! j) \<longrightarrow> inum (inodes s ! i) = inum (inodes s ! j) \<longrightarrow> i = j) \<and>
    (\<forall>dev n k s' i. iget dev n s = Ok (k, s') \<longrightarrow> i \<in># h \<longrightarrow>
       idev (inodes s' ! i) = idev (inodes s ! i) \<and> inum (inodes s' ! i) = inum (inodes s ! i))"
proof (intro conjI)
  note inv = icache_reachable_inv [OF assms]
  show "\<forall>i < NINODE. iref (inodes s ! i) = int (count h i)" using inv by (simp add: icache_inv_def)
  show "\<forall>i j. i \<in># h \<longrightarrow> j \<in># h \<longrightarrow> idev (inodes s ! i) = idev (inodes s ! j) \<longrightarrow> inum (inodes s ! i) = inum (inodes s ! j) \<longrightarrow> i = j"
    using inv unfolding icache_inv_def by blast
  show "\<forall>dev n k s' i. iget dev n s = Ok (k, s') \<longrightarrow> i \<in># h \<longrightarrow>
      idev (inodes s' ! i) = idev (inodes s ! i) \<and> inum (inodes s' ! i) = inum (inodes s ! i)"
    using iget_keeps [OF inv] by blast
qed

definition empty_inode :: inode where
  "empty_inode = \<lparr>idev = 0, inum = 0, iref = 0, iflags = 0, itype = 0, imajor = 0, iminor = 0, inlink = 0, isize = 0,
     iaddrs = replicate 13 0\<rparr>"

definition icache_boot :: fs where
  "icache_boot = \<lparr>fl = reboot log_disk 1000, icache_lock = llock log_zero, inodes = replicate NINODE empty_inode, fwakes = []\<rparr>"

lemma iget_boot:
  "iget 1 1 icache_boot = Ok (0, icache_boot\<lparr>inodes := (replicate NINODE empty_inode)[0 := empty_inode\<lparr>idev := 1, inum := 1, iref := 1\<rparr>]\<rparr>)"
proof -
  have "find (\<lambda>i. iref (inodes icache_boot ! i) > 0 \<and> idev (inodes icache_boot ! i) = 1 \<and> inum (inodes icache_boot ! i) = 1) [0..<NINODE] = None"
    by (auto simp: find_None_iff icache_boot_def empty_inode_def simp del: upt_rec_numeral)
  moreover have "find (\<lambda>i. iref (inodes icache_boot ! i) = 0) [0..<NINODE] = Some 0"
    by (simp add: find_Some_iff icache_boot_def empty_inode_def del: upt_rec_numeral) (rule exI [of _ 0], simp)
  ultimately show ?thesis by (simp add: iget_def icache_boot_def empty_inode_def del: upt_rec_numeral)
qed

theorem icache_references_witness:
  "\<exists>s. icache_reachable s {#0, 0#} \<and> iref (inodes s ! 0) = 2"
proof -
  have b: "icache_reachable icache_boot {#}" by (rule icache_reachable.boot) (auto simp: icache_boot_def empty_inode_def)
  obtain s1 where "icache_reachable s1 {#0#}"
    using icache_reachable.step [OF b icache_step.get [OF iget_boot]] by auto
  then have r: "icache_reachable (snd (idup 0 s1)) {#0, 0#}"
    using icache_step.dup [of 0 "{#0#}" s1 "snd (idup 0 s1)"] by (auto simp: idup_def intro: icache_reachable.step)
  then show ?thesis using icache_references [OF r] by (intro exI [of _ "snd (idup 0 s1)"]) auto
qed

end
