(* ===== verification/Xv6_File.thy ===== *)
theory Xv6_File
  imports Xv6_Fs Xv6_Pipe Xv6_Console Xv6_Vm
begin

text \<open>
  \<^verbatim>\<open>file.c\<close>, \<open>pipealloc\<close> of \<^verbatim>\<open>pipe.c\<close> and the device routines of \<^verbatim>\<open>console.c\<close>. The state of the kernel below
  the processes extends that of the file system by the page allocator, the table of open files, the pipes by the
  address of their page, and the console. \<open>e\<close> is the linker symbol \<open>end\<close> and \<open>killed\<close> is \<open>proc->killed\<close>. Wakeups
  are collected in \<open>fwakes\<close>. A call that has to sleep in the middle of a pipe gives \<open>PSleep\<close> with the pipe as it
  is then.
\<close>

section \<open>State\<close>

abbreviation (input) NFILE :: nat where "NFILE \<equiv> 100"
abbreviation (input) CONSOLE :: nat where "CONSOLE \<equiv> 1"

datatype ftype = FD_NONE | FD_PIPE | FD_INODE

record kfile =
  ftype :: ftype
  fref :: int
  freadable :: bool
  fwritable :: bool
  fpipe :: addr
  fip :: nat
  foff :: uint

record kern = fs +
  kk :: kmem
  ftable_lock :: spinlock
  files :: "kfile list"
  pipes :: "addr \<Rightarrow> pipe option"
  cons :: console

definition set_file :: "nat \<Rightarrow> kfile \<Rightarrow> 'a kern_scheme \<Rightarrow> 'a kern_scheme" where
  "set_file i f s = s\<lparr>files := (files s)[i := f]\<rparr>"

text \<open>\<open>begin_op()\<close> and \<open>end_op()\<close> on the whole state.\<close>

definition with_log :: "(logsys \<Rightarrow> logsys res) \<Rightarrow> 'a fs_scheme \<Rightarrow> 'a fs_scheme res" where
  "with_log f s = rbind (f (fl s)) (\<lambda>l. Ok (s\<lparr>fl := l\<rparr>))"

text \<open>A pipe routine on the pipe at address \<open>a\<close>: its wakeups join those of the kernel.\<close>

definition put_pipe :: "addr \<Rightarrow> pipe \<Rightarrow> 'a kern_scheme \<Rightarrow> 'a kern_scheme" where
  "put_pipe a p s = s\<lparr>pipes := (pipes s)(a := Some (p\<lparr>pwakes := []\<rparr>)), fwakes := fwakes s @ pwakes p\<rparr>"

section \<open>The console device\<close>

definition consoleread :: "bool \<Rightarrow> nat \<Rightarrow> uint \<Rightarrow> 'a kern_scheme \<Rightarrow> ((int \<times> uchar list) \<times> 'a kern_scheme) res" where
  "consoleread killed i n s =
     rbind (iunlock (Some i) s) (\<lambda>s.
     let (c, bs, m, out) = consoleread_loop killed (uint n) (nat (sint n)) (cons s);
         s = s\<lparr>cons := c\<rparr>
     in case out of
          CSleep \<Rightarrow> Sleep ChInput
        | CKilled \<Rightarrow> rbind (ilock (Some i) s) (\<lambda>s. Ok ((- 1, bs), s))
        | CDone \<Rightarrow> rbind (ilock (Some i) s) (\<lambda>s. Ok ((if 0 < sint n then sint n - int m else 0, bs), s)))"

definition consolewrite :: "nat \<Rightarrow> uchar list \<Rightarrow> 'a kern_scheme \<Rightarrow> (int \<times> 'a kern_scheme) res" where
  "consolewrite i src s =
     rbind (iunlock (Some i) s) (\<lambda>s.
     rbind (consolewrite_loop src (cons s)) (\<lambda>c.
     rbind (ilock (Some i) (s\<lparr>cons := c\<rparr>)) (\<lambda>s. Ok (int (length src), s))))"

text \<open>The table after \<open>consoleinit\<close>.\<close>

definition devsw_table :: "bool \<Rightarrow> nat \<Rightarrow> 'a kern_scheme devsw" where
  "devsw_table killed = (\<lambda>_. \<lparr>dev_read = None, dev_write = None\<rparr>)
     (CONSOLE := \<lparr>dev_read = Some (consoleread killed), dev_write = Some consolewrite\<rparr>)"

section \<open>file.c\<close>

definition fileinit :: "'a kern_scheme \<Rightarrow> 'a kern_scheme" where
  "fileinit s = s\<lparr>ftable_lock := initlock (ftable_lock s) ''ftable''\<rparr>"

definition filealloc :: "'a kern_scheme \<Rightarrow> nat option \<times> 'a kern_scheme" where
  "filealloc s =
     (case find (\<lambda>i. fref (files s ! i) = 0) [0..<NFILE] of
        Some i \<Rightarrow> (Some i, set_file i ((files s ! i)\<lparr>fref := 1\<rparr>) s)
      | None \<Rightarrow> (None, s))"

definition filedup :: "nat \<Rightarrow> 'a kern_scheme \<Rightarrow> 'a kern_scheme res" where
  "filedup i s =
     (if fref (files s ! i) < 1 then Panic ''filedup''
      else Ok (set_file i ((files s ! i)\<lparr>fref := fref (files s ! i) + 1\<rparr>) s))"

definition close_pipe :: "addr \<Rightarrow> addr \<Rightarrow> bool \<Rightarrow> 'a kern_scheme \<Rightarrow> 'a kern_scheme res" where
  "close_pipe e a writable s =
     (case pipes s a of
        None \<Rightarrow> Fault ''pipe''
      | Some p \<Rightarrow>
          let (p, gone) = pipeclose (unat a) writable p; s = put_pipe a p s
          in if gone then rbind (kfree e a (kk s)) (\<lambda>k. Ok (s\<lparr>kk := k, pipes := (pipes s)(a := None)\<rparr>)) else Ok s)"

definition fileclose :: "addr \<Rightarrow> nat \<Rightarrow> 'a kern_scheme \<Rightarrow> 'a kern_scheme res" where
  "fileclose e i s =
     (let f = files s ! i
      in if fref f < 1 then Panic ''fileclose''
         else if fref f - 1 > 0 then Ok (set_file i (f\<lparr>fref := fref f - 1\<rparr>) s)
         else let s = set_file i (f\<lparr>fref := 0, ftype := FD_NONE\<rparr>) s
              in case ftype f of
                   FD_PIPE \<Rightarrow> close_pipe e (fpipe f) (fwritable f) s
                 | FD_INODE \<Rightarrow> rbind (with_log begin_op s) (\<lambda>s. rbind (iput (fip f) s) (with_log end_op))
                 | FD_NONE \<Rightarrow> Ok s)"

definition filestat :: "nat \<Rightarrow> 'a kern_scheme \<Rightarrow> (stat option \<times> 'a kern_scheme) res" where
  "filestat i s =
     (let f = files s ! i
      in if ftype f = FD_INODE then
           rbind (ilock (Some (fip f)) s) (\<lambda>s.
           let st = stati (inodes s ! fip f)
           in rbind (iunlock (Some (fip f)) s) (\<lambda>s. Ok (Some st, s)))
         else Ok (None, s))"

definition fileread :: "bool \<Rightarrow> nat \<Rightarrow> int \<Rightarrow> 'a kern_scheme \<Rightarrow> ((pipe_out \<times> uchar list) \<times> 'a kern_scheme) res" where
  "fileread killed i n s =
     (let f = files s ! i
      in if \<not> freadable f then Ok ((PReturn (- 1), []), s)
         else case ftype f of
           FD_PIPE \<Rightarrow>
             (case pipes s (fpipe f) of
                None \<Rightarrow> Fault ''pipe''
              | Some p \<Rightarrow> let (p, bs, out) = piperead (unat (fpipe f)) killed n p
                          in Ok ((out, bs), put_pipe (fpipe f) p s))
         | FD_INODE \<Rightarrow>
             rbind (ilock (Some (fip f)) s) (\<lambda>s.
             rbind (readi (devsw_table killed) (fip f) (foff f) (word_of_int n) s) (\<lambda>((r, bs), s).
             let s = (if r > 0 then set_file i ((files s ! i)\<lparr>foff := foff (files s ! i) + word_of_int r\<rparr>) s else s)
             in rbind (iunlock (Some (fip f)) s) (\<lambda>s. Ok ((PReturn r, bs), s))))
         | FD_NONE \<Rightarrow> Panic ''fileread'')"

text \<open>The loop of \<open>filewrite\<close>; the result says whether all bytes have been written.\<close>

function filewrite_loop :: "bool \<Rightarrow> nat \<Rightarrow> uchar list \<Rightarrow> 'a kern_scheme \<Rightarrow> (bool \<times> 'a kern_scheme) res" where
  "filewrite_loop killed i src s =
     (if src = [] then Ok (True, s)
      else let ip = fip (files s ! i); n1 = min (length src) ((LOGSIZE - 1 - 1 - 2) div 2 * 512)
           in rbind (with_log begin_op s) (\<lambda>s.
              rbind (ilock (Some ip) s) (\<lambda>s.
              rbind (writei (devsw_table killed) ip src (foff (files s ! i)) (of_nat n1) s) (\<lambda>(r, s).
              let s = (if r > 0 then set_file i ((files s ! i)\<lparr>foff := foff (files s ! i) + word_of_int r\<rparr>) s else s)
              in rbind (iunlock (Some ip) s) (\<lambda>s.
                 rbind (with_log end_op s) (\<lambda>s.
                 if r < 0 then Ok (False, s)
                 else if r \<noteq> int n1 then Panic ''short filewrite''
                 else filewrite_loop killed i (drop n1 src) s))))))"
  by pat_completeness auto
termination by (relation "measure (\<lambda>(killed, i, src, s). length src)") (auto simp: min_def)

declare filewrite_loop.simps [simp del]

text \<open>\<open>src\<close> is the memory at \<open>addr\<close>, of at least \<open>n\<close> bytes when \<open>n\<close> is positive.\<close>

definition filewrite :: "bool \<Rightarrow> nat \<Rightarrow> uchar list \<Rightarrow> int \<Rightarrow> 'a kern_scheme \<Rightarrow> (pipe_out \<times> 'a kern_scheme) res" where
  "filewrite killed i src n s =
     (let f = files s ! i
      in if \<not> fwritable f then Ok (PReturn (- 1), s)
         else case ftype f of
           FD_PIPE \<Rightarrow>
             (case pipes s (fpipe f) of
                None \<Rightarrow> Fault ''pipe''
              | Some p \<Rightarrow> let (p, out) = pipewrite (unat (fpipe f)) killed n (take (nat n) src) p
                          in Ok (out, put_pipe (fpipe f) p s))
         | FD_INODE \<Rightarrow>
             if n < 0 then Ok (PReturn (- 1), s)
             else rbind (filewrite_loop killed i (take (nat n) src) s) (\<lambda>(all, s). Ok (PReturn (if all then n else - 1), s))
         | FD_NONE \<Rightarrow> Panic ''filewrite'')"

section \<open>pipealloc\<close>

text \<open>\<open>data\<close> follows the lock, 52 bytes into \<open>struct pipe\<close>; \<open>pipealloc\<close> leaves it as it is.\<close>

definition pipe_page :: "kmem \<Rightarrow> addr \<Rightarrow> uchar list" where
  "pipe_page k a = map (\<lambda>j. kmemory k (a + 52 + of_nat j)) [0..<PIPESIZE]"

definition pipealloc :: "addr \<Rightarrow> 'a kern_scheme \<Rightarrow> ((nat \<times> nat) option \<times> 'a kern_scheme) res" where
  "pipealloc e s =
     (case filealloc s of
        (None, s) \<Rightarrow> Ok (None, s)
      | (Some f0, s) \<Rightarrow>
          (case filealloc s of
             (None, s) \<Rightarrow> rbind (fileclose e f0 s) (\<lambda>s. Ok (None, s))
           | (Some f1, s) \<Rightarrow>
               let (a, k) = kalloc (kk s); s = s\<lparr>kk := k\<rparr>
               in if a = 0 then
                    rbind (fileclose e f0 s) (\<lambda>s. rbind (fileclose e f1 s) (\<lambda>s. Ok (None, s)))
                  else
                    let s = s\<lparr>pipes := (pipes s)(a := Some (pipe_init (pipe_page k a)))\<rparr>;
                        s = set_file f0 ((files s ! f0)\<lparr>ftype := FD_PIPE, freadable := True, fwritable := False, fpipe := a\<rparr>) s;
                        s = set_file f1 ((files s ! f1)\<lparr>ftype := FD_PIPE, freadable := False, fwritable := True, fpipe := a\<rparr>) s
                    in Ok (Some (f0, f1), s)))"

end
