(* ===== verification/Xv6_Proc.thy ===== *)
theory Xv6_Proc
  imports Xv6_File
begin

text \<open>
  \<^verbatim>\<open>proc.c\<close>, \<^verbatim>\<open>proc.h\<close>, \<^verbatim>\<open>kthread.h\<close> and \<^verbatim>\<open>kthread.c\<close>: processes with kernel threads. A process is an index into
  \<open>ptable.proc\<close>; \<open>p->threads\<close> is null or names a row of \<open>ptable.tTable\<close>. The per-processor variables
  \<open>proc\<close> and \<open>thread\<close> are the arguments \<open>cp\<close> (the process) and \<open>ct\<close> (the index in its row of threads). Trap
  frames and contexts lie in memory. \<open>e\<close>, \<open>dt\<close>, \<open>trapret\<close> and \<open>forkret_pc\<close> are addresses that the linker
  fixes. Sections under \<open>ptable.lock\<close> are atomic. Signed overflow of a counter, undefined in C, is a fault.
\<close>

section \<open>Memory behind a virtual address\<close>

text \<open>
  The memory management unit: with page directory \<open>d\<close>, the kernel address at which the byte of virtual address
  \<open>va\<close> lies. Kernel addresses are mapped one to one; an access without a present entry is a page fault.
\<close>

definition vaddr :: "addr \<Rightarrow> uint \<Rightarrow> kmem \<Rightarrow> addr res" where
  "vaddr d va k =
     (if va \<ge> KERNBASE then Ok va
      else let pte = fst (walkpgdir d va False k)
           in if pte = 0 then Fault ''page fault''
              else if kload k pte AND PTE_P = 0 then Fault ''page fault''
              else Ok (p2v (PTE_ADDR (kload k pte)) + va mod PGSIZE))"

definition vload8 :: "addr \<Rightarrow> uint \<Rightarrow> kmem \<Rightarrow> uchar res" where
  "vload8 d va k = rbind (vaddr d va k) (\<lambda>a. Ok (kmemory k a))"

definition vstore8 :: "addr \<Rightarrow> uint \<Rightarrow> uchar \<Rightarrow> kmem \<Rightarrow> kmem res" where
  "vstore8 d va b k = rbind (vaddr d va k) (\<lambda>a. Ok (k\<lparr>kmemory := (kmemory k)(a := b)\<rparr>))"

primrec vget :: "addr \<Rightarrow> uint \<Rightarrow> nat \<Rightarrow> kmem \<Rightarrow> uchar list res" where
  "vget d va 0 k = Ok []"
| "vget d va (Suc n) k = rbind (vload8 d va k) (\<lambda>b. rbind (vget d (va + 1) n k) (\<lambda>bs. Ok (b # bs)))"

primrec vput :: "addr \<Rightarrow> uint \<Rightarrow> uchar list \<Rightarrow> kmem \<Rightarrow> kmem res" where
  "vput d va [] k = Ok k"
| "vput d va (b # bs) k = rbind (vstore8 d va b k) (vput d (va + 1) bs)"

definition word_bytes :: "uint \<Rightarrow> uchar list" where
  "word_bytes w = [byte_of 0 w, byte_of 1 w, byte_of 2 w, byte_of 3 w]"

definition vload :: "addr \<Rightarrow> uint \<Rightarrow> kmem \<Rightarrow> uint res" where
  "vload d va k = rbind (vget d va 4 k) (\<lambda>bs. Ok (word_of_bytes (bs ! 0) (bs ! 1) (bs ! 2) (bs ! 3)))"

definition vstore :: "addr \<Rightarrow> uint \<Rightarrow> uint \<Rightarrow> kmem \<Rightarrow> kmem res" where
  "vstore d va w k = vput d va (word_bytes w) k"

section \<open>State\<close>

datatype pstate = UNUSED | EMBRYO | SLEEPING | RUNNABLE | RUNNING | ZOMBIE

record kthread =
  tkstack :: addr
  tstate :: pstate
  ttid :: int
  tparent :: "nat option"
  ttf :: addr
  tcontext :: addr
  tchan :: "chan option"
  tptlock :: bool
  tkernelStack :: int

record proc =
  psz :: uint
  ppgdir :: addr
  pkstack :: addr
  prstate :: pstate
  ppid :: int
  pparent :: "nat option"
  pkilled :: bool
  ofile :: "nat option list"
  pcwd :: "nat option"
  pname :: "uchar list"
  threads :: "nat option"

record sys = kern +
  procs :: "proc list"
  tTable :: "kthread list list"
  initproc :: "nat option"
  nextpid :: int
  nexttid :: int
  first :: bool
  ticks :: uint
  kbdst :: kbd

abbreviation (input) INT_MAX :: int where "INT_MAX \<equiv> 0x7FFFFFFF"
abbreviation (input) TF_SIZE :: uint where "TF_SIZE \<equiv> 76"
abbreviation (input) CONTEXT_SIZE :: uint where "CONTEXT_SIZE \<equiv> 20"
abbreviation (input) TF_eax :: uint where "TF_eax \<equiv> 28"
abbreviation (input) TF_es :: uint where "TF_es \<equiv> 40"
abbreviation (input) TF_ds :: uint where "TF_ds \<equiv> 44"
abbreviation (input) TF_eip :: uint where "TF_eip \<equiv> 56"
abbreviation (input) TF_cs :: uint where "TF_cs \<equiv> 60"
abbreviation (input) TF_eflags :: uint where "TF_eflags \<equiv> 64"
abbreviation (input) TF_esp :: uint where "TF_esp \<equiv> 68"
abbreviation (input) TF_ss :: uint where "TF_ss \<equiv> 72"
abbreviation (input) CTX_eip :: uint where "CTX_eip \<equiv> 16"

definition set_proc :: "nat \<Rightarrow> proc \<Rightarrow> 'a sys_scheme \<Rightarrow> 'a sys_scheme" where
  "set_proc i p s = s\<lparr>procs := (procs s)[i := p]\<rparr>"

definition set_row :: "nat \<Rightarrow> kthread list \<Rightarrow> 'a sys_scheme \<Rightarrow> 'a sys_scheme" where
  "set_row r ts s = s\<lparr>tTable := (tTable s)[r := ts]\<rparr>"

definition set_thread :: "nat \<Rightarrow> nat \<Rightarrow> kthread \<Rightarrow> 'a sys_scheme \<Rightarrow> 'a sys_scheme" where
  "set_thread r i t s = set_row r ((tTable s ! r)[i := t]) s"

definition the_thread :: "nat \<Rightarrow> nat \<Rightarrow> 'a sys_scheme \<Rightarrow> kthread" where
  "the_thread cp ct s = tTable s ! cp ! ct"

text \<open>The row that \<open>p->threads\<close> points to; indexing a null pointer is a fault.\<close>

definition threads_of :: "nat \<Rightarrow> 'a sys_scheme \<Rightarrow> nat res" where
  "threads_of p s = (case threads (procs s ! p) of None \<Rightarrow> Fault ''threads'' | Some r \<Rightarrow> Ok r)"

text \<open>A routine on the memory, here with the page directory of the running process.\<close>

definition in_mem :: "(kmem \<Rightarrow> kmem res) \<Rightarrow> 'a kern_scheme \<Rightarrow> 'a kern_scheme res" where
  "in_mem f s = rbind (f (kk s)) (\<lambda>k. Ok (s\<lparr>kk := k\<rparr>))"

section \<open>Allocation\<close>

definition procIsReady :: "proc \<Rightarrow> bool" where
  "procIsReady p \<longleftrightarrow> prstate p = RUNNABLE \<or> prstate p = RUNNING"

text \<open>The trap frame and the context at the top of a new kernel stack.\<close>

definition stack_frames :: "addr \<Rightarrow> uint \<Rightarrow> uint \<Rightarrow> kmem \<Rightarrow> addr \<times> addr \<times> kmem" where
  "stack_frames kstack trapret forkret_pc k =
     (let sp = kstack + KSTACKSIZE - TF_SIZE; tf = sp;
          sp = sp - 4; k = kstore sp trapret k;
          sp = sp - CONTEXT_SIZE; k = kmemset sp 0 CONTEXT_SIZE k;
          k = kstore (sp + CTX_eip) forkret_pc k
      in (tf, sp, k))"

definition allocproc :: "uint \<Rightarrow> uint \<Rightarrow> 'a sys_scheme \<Rightarrow> (nat option \<times> 'a sys_scheme) res" where
  "allocproc trapret forkret_pc s =
     (case find (\<lambda>i. prstate (procs s ! i) = UNUSED) [0..<NPROC] of
        None \<Rightarrow> Ok (None, s)
      | Some i \<Rightarrow>
          if nextpid s = INT_MAX then Fault ''overflow''
          else
            let s = set_proc i ((procs s ! i)\<lparr>prstate := EMBRYO, threads := Some i, ppid := nextpid s\<rparr>) s;
                s = s\<lparr>nextpid := nextpid s + 1\<rparr>;
                (a, k) = kalloc (kk s);
                s = set_proc i ((procs s ! i)\<lparr>pkstack := a\<rparr>) (s\<lparr>kk := k\<rparr>)
            in if a = 0 then Ok (None, set_proc i ((procs s ! i)\<lparr>prstate := UNUSED\<rparr>) s)
               else
                 let s = set_row i (map (\<lambda>t. t\<lparr>tstate := UNUSED, tptlock := True\<rparr>) (tTable s ! i)) s;
                     (tf, ctx, k) = stack_frames a trapret forkret_pc (kk s);
                     s = set_thread i 0 ((tTable s ! i ! 0)\<lparr>ttf := tf, tcontext := ctx, tkstack := a, tkernelStack := 1,
                           tptlock := True\<rparr>) (s\<lparr>kk := k\<rparr>)
                 in Ok (Some i, s))"

text \<open>\<open>code\<close> and \<open>sz\<close> place the binary of \<^verbatim>\<open>initcode.S\<close> in the kernel image; the segment selectors and \<open>FL_IF\<close>
  are those of \<^verbatim>\<open>mmu.h\<close>.\<close>

definition user_frame :: "addr \<Rightarrow> kmem \<Rightarrow> kmem" where
  "user_frame tf k =
     (let k = kmemset tf 0 TF_SIZE k;
          k = kstore (tf + TF_cs) 0x23 k;
          k = kstore (tf + TF_ds) 0x2B k;
          k = kstore (tf + TF_es) 0x2B k;
          k = kstore (tf + TF_ss) 0x2B k;
          k = kstore (tf + TF_eflags) 0x200 k;
          k = kstore (tf + TF_esp) PGSIZE k
      in kstore (tf + TF_eip) 0 k)"

definition userinit :: "uint \<Rightarrow> uint \<Rightarrow> uint \<Rightarrow> addr \<Rightarrow> uint \<Rightarrow> 'a sys_scheme \<Rightarrow> 'a sys_scheme res" where
  "userinit dt trapret forkret_pc code sz s =
     rbind (allocproc trapret forkret_pc s) (\<lambda>(p, s).
     case p of
       None \<Rightarrow> Fault ''userinit''
     | Some p \<Rightarrow>
         let s = s\<lparr>initproc := Some p\<rparr>
         in rbind (setupkvm dt (kk s)) (\<lambda>(d, k).
            let s = set_proc p ((procs s ! p)\<lparr>ppgdir := d\<rparr>) (s\<lparr>kk := k\<rparr>)
            in if d = 0 then Panic ''userinit: out of memory?''
               else rbind (in_mem (inituvm d code sz) s) (\<lambda>s.
                    let s = s\<lparr>kk := user_frame (ttf (tTable s ! p ! 0)) (kk s)\<rparr>;
                        s = set_proc p ((procs s ! p)\<lparr>psz := PGSIZE, pname := map of_char ''initcode''\<rparr>) s
                    in rbind (namei (devsw_table False) 0 [slash] s) (\<lambda>(ip, s).
                       let s = set_proc p ((procs s ! p)\<lparr>pcwd := ip, prstate := RUNNABLE\<rparr>) s
                       in Ok (set_thread p 0 ((tTable s ! p ! 0)\<lparr>tstate := RUNNABLE\<rparr>) s)))))"

definition switchuvm :: "nat \<Rightarrow> 'a sys_scheme \<Rightarrow> 'a sys_scheme res" where
  "switchuvm p s = (if ppgdir (procs s ! p) = 0 then Panic ''switchuvm: no pgdir'' else Ok s)"

definition growproc :: "addr \<Rightarrow> nat \<Rightarrow> int \<Rightarrow> 'a sys_scheme \<Rightarrow> (int \<times> 'a sys_scheme) res" where
  "growproc e cp n s =
     (let p = procs s ! cp; sz = psz p
      in rbind (if n > 0 then allocuvm e (ppgdir p) sz (sz + word_of_int n) (kk s)
                else if n < 0 then deallocuvm e (ppgdir p) sz (sz + word_of_int n) (kk s)
                else Ok (sz, kk s)) (\<lambda>(sz, k).
         let s = s\<lparr>kk := k\<rparr>
         in if n \<noteq> 0 \<and> sz = 0 then Ok (- 1, s)
            else let s = set_proc cp ((procs s ! cp)\<lparr>psz := sz\<rparr>) s
                 in rbind (switchuvm cp s) (\<lambda>s. Ok (0, s))))"

text \<open>The loop of \<open>fork\<close> over the descriptors.\<close>

fun fork_files :: "nat \<Rightarrow> nat \<Rightarrow> nat list \<Rightarrow> 'a sys_scheme \<Rightarrow> 'a sys_scheme res" where
  "fork_files cp np [] s = Ok s"
| "fork_files cp np (fd # fds) s =
     (case ofile (procs s ! cp) ! fd of
        None \<Rightarrow> fork_files cp np fds s
      | Some f \<Rightarrow> rbind (filedup f s) (\<lambda>s.
          fork_files cp np fds (set_proc np ((procs s ! np)\<lparr>ofile := (ofile (procs s ! np))[fd := Some f]\<rparr>) s)))"

definition fork :: "addr \<Rightarrow> uint \<Rightarrow> uint \<Rightarrow> uint \<Rightarrow> nat \<Rightarrow> nat \<Rightarrow> 'a sys_scheme \<Rightarrow> (int \<times> 'a sys_scheme) res" where
  "fork e dt trapret forkret_pc cp ct s =
     rbind (allocproc trapret forkret_pc s) (\<lambda>(np, s).
     case np of
       None \<Rightarrow> Ok (- 1, s)
     | Some np \<Rightarrow>
         rbind (copyuvm e dt (ppgdir (procs s ! cp)) (psz (procs s ! cp)) (kk s)) (\<lambda>(d, k).
         let s = set_proc np ((procs s ! np)\<lparr>ppgdir := d\<rparr>) (s\<lparr>kk := k\<rparr>)
         in if d = 0 then
              rbind (in_mem (kfree e (pkstack (procs s ! np))) s) (\<lambda>s.
              Ok (- 1, set_proc np ((procs s ! np)\<lparr>pkstack := 0, prstate := UNUSED\<rparr>) s))
            else
              let s = set_proc np ((procs s ! np)\<lparr>psz := psz (procs s ! cp), pparent := Some cp\<rparr>) s;
                  s = set_row np (hd (tTable s ! np) # map (\<lambda>t. t\<lparr>tstate := UNUSED, tptlock := True\<rparr>) (tl (tTable s ! np))) s;
                  t = the_thread cp ct s;
                  s = set_thread np 0 ((tTable s ! np ! 0)\<lparr>tparent := Some np, tkstack := tkstack t, tkernelStack := tkernelStack t\<rparr>) s;
                  tf = ttf (tTable s ! np ! 0)
              in rbind (vget (ppgdir (procs s ! cp)) (ttf t) (unat TF_SIZE) (kk s)) (\<lambda>bs.
                 rbind (in_mem (vput (ppgdir (procs s ! cp)) tf bs) s) (\<lambda>s.
                 rbind (in_mem (vstore (ppgdir (procs s ! cp)) (tf + TF_eax) 0) s) (\<lambda>s.
                 rbind (fork_files cp np [0..<NOFILE] s) (\<lambda>s.
                 case pcwd (procs s ! cp) of
                   None \<Rightarrow> Fault ''cwd''
                 | Some c \<Rightarrow>
                     let (c, s) = idup c s;
                         s = set_proc np ((procs s ! np)\<lparr>pcwd := Some c, pname := pname (procs s ! cp)\<rparr>) s;
                         s = set_proc np ((procs s ! np)\<lparr>prstate := RUNNABLE\<rparr>) s;
                         s = set_thread np 0 ((tTable s ! np ! 0)\<lparr>tstate := RUNNABLE\<rparr>) s
                     in Ok (ppid (procs s ! np), s)))))))"

section \<open>Sleeping and waking\<close>

definition wake_row :: "chan option \<Rightarrow> kthread list \<Rightarrow> kthread list" where
  "wake_row ch ts = map (\<lambda>t. if tstate t = SLEEPING \<and> tchan t = ch then t\<lparr>tstate := RUNNABLE\<rparr> else t) ts"

fun wakeup1_loop :: "chan option \<Rightarrow> nat list \<Rightarrow> 'a sys_scheme \<Rightarrow> 'a sys_scheme res" where
  "wakeup1_loop ch [] s = Ok s"
| "wakeup1_loop ch (p # ps) s =
     (if \<not> procIsReady (procs s ! p) then wakeup1_loop ch ps s
      else rbind (threads_of p s) (\<lambda>r. wakeup1_loop ch ps (set_row r (wake_row ch (tTable s ! r)) s)))"

definition wakeup1 :: "chan option \<Rightarrow> 'a sys_scheme \<Rightarrow> 'a sys_scheme res" where
  "wakeup1 ch s = wakeup1_loop ch [0..<NPROC] s"

definition wakeup :: "chan \<Rightarrow> 'a sys_scheme \<Rightarrow> 'a sys_scheme res" where
  "wakeup ch s = wakeup1 (Some ch) s"

text \<open>\<open>sched\<close> hands the processor to the scheduler: the thread must not be running any more.\<close>

definition sched :: "nat \<Rightarrow> nat \<Rightarrow> 'a sys_scheme \<Rightarrow> 'a sys_scheme res" where
  "sched cp ct s = (if tstate (the_thread cp ct s) = RUNNING then Panic ''sched running'' else Ok s)"

definition yield :: "nat \<Rightarrow> nat \<Rightarrow> 'a sys_scheme \<Rightarrow> 'a sys_scheme res" where
  "yield cp ct s = sched cp ct (set_thread cp ct ((the_thread cp ct s)\<lparr>tstate := RUNNABLE\<rparr>) s)"

text \<open>\<open>sleep\<close> up to the switch, and what it does when the thread runs again.\<close>

definition sleep :: "nat \<Rightarrow> nat \<Rightarrow> chan \<Rightarrow> 'a sys_scheme \<Rightarrow> 'a sys_scheme res" where
  "sleep cp ct ch s = sched cp ct (set_thread cp ct ((the_thread cp ct s)\<lparr>tchan := Some ch, tstate := SLEEPING\<rparr>) s)"

definition awake :: "nat \<Rightarrow> nat \<Rightarrow> 'a sys_scheme \<Rightarrow> 'a sys_scheme" where
  "awake cp ct s = set_thread cp ct ((the_thread cp ct s)\<lparr>tchan := None\<rparr>) s"

definition forkret :: "'a sys_scheme \<Rightarrow> 'a sys_scheme res" where
  "forkret s = (if first s then with_log initlog (s\<lparr>first := False\<rparr>) else Ok s)"

definition kill :: "int \<Rightarrow> 'a sys_scheme \<Rightarrow> (int \<times> 'a sys_scheme) res" where
  "kill pid s =
     (case find (\<lambda>i. ppid (procs s ! i) = pid) [0..<NPROC] of
        None \<Rightarrow> Ok (- 1, s)
      | Some i \<Rightarrow>
          let s = set_proc i ((procs s ! i)\<lparr>pkilled := True\<rparr>) s
          in rbind (threads_of i s) (\<lambda>r.
             Ok (0, set_row r (map (\<lambda>t. if tstate t = SLEEPING then t\<lparr>tstate := RUNNABLE\<rparr> else t) (tTable s ! r)) s)))"

section \<open>Exit and wait\<close>

fun close_files :: "addr \<Rightarrow> nat \<Rightarrow> nat list \<Rightarrow> 'a sys_scheme \<Rightarrow> 'a sys_scheme res" where
  "close_files e cp [] s = Ok s"
| "close_files e cp (fd # fds) s =
     (case ofile (procs s ! cp) ! fd of
        None \<Rightarrow> close_files e cp fds s
      | Some f \<Rightarrow> rbind (fileclose e f s) (\<lambda>s.
          close_files e cp fds (set_proc cp ((procs s ! cp)\<lparr>ofile := (ofile (procs s ! cp))[fd := None]\<rparr>) s)))"

text \<open>A thread slot that is neither unused nor a zombie.\<close>

definition live :: "kthread \<Rightarrow> bool" where
  "live t \<longleftrightarrow> \<not> (tstate t = UNUSED \<or> tstate t = ZOMBIE)"

fun reparent :: "nat \<Rightarrow> nat list \<Rightarrow> 'a sys_scheme \<Rightarrow> 'a sys_scheme res" where
  "reparent cp [] s = Ok s"
| "reparent cp (p # ps) s =
     (if pparent (procs s ! p) = Some cp then
        let s = set_proc p ((procs s ! p)\<lparr>pparent := initproc s\<rparr>) s
        in rbind (threads_of p s) (\<lambda>r.
           reparent cp ps (if \<not> list_ex live (tTable s ! r) then set_proc p ((procs s ! p)\<lparr>prstate := ZOMBIE\<rparr>) s else s))
      else reparent cp ps s)"

definition zombie_threads :: "kthread list \<Rightarrow> kthread list" where
  "zombie_threads ts = map (\<lambda>t. t\<lparr>tstate := ZOMBIE, ttid := 0, tparent := None, tchan := None\<rparr>) ts"

definition exit :: "addr \<Rightarrow> nat \<Rightarrow> nat \<Rightarrow> 'a sys_scheme \<Rightarrow> 'a sys_scheme res" where
  "exit e cp ct s =
     (if initproc s = Some cp then Panic ''init exiting''
      else
        rbind (close_files e cp [0..<NOFILE] s) (\<lambda>s.
        rbind (with_log begin_op s) (\<lambda>s.
        rbind (case pcwd (procs s ! cp) of None \<Rightarrow> Fault ''cwd'' | Some c \<Rightarrow> iput c s) (\<lambda>s.
        rbind (with_log end_op s) (\<lambda>s.
        rbind (wakeup1 (map_option ChProc (pparent (procs s ! cp))) (set_proc cp ((procs s ! cp)\<lparr>pcwd := None\<rparr>) s)) (\<lambda>s.
        rbind (reparent cp [0..<NPROC] s) (\<lambda>s.
        rbind (threads_of cp s) (\<lambda>r.
        let s = set_row r (zombie_threads (tTable s ! r)) s;
            s = set_proc cp ((procs s ! cp)\<lparr>prstate := ZOMBIE, threads := None\<rparr>) s
        in sched cp ct s))))))))"

definition reap :: "addr \<Rightarrow> nat \<Rightarrow> 'a sys_scheme \<Rightarrow> (int \<times> 'a sys_scheme) res" where
  "reap e p s =
     rbind (in_mem (kfree e (pkstack (procs s ! p))) s) (\<lambda>s.
     let s = set_proc p ((procs s ! p)\<lparr>pkstack := 0\<rparr>) s
     in rbind (in_mem (freevm e (ppgdir (procs s ! p))) s) (\<lambda>s.
        Ok (ppid (procs s ! p), set_proc p ((procs s ! p)\<lparr>prstate := UNUSED, ppid := 0, pparent := None, pname := [],
          pkilled := False\<rparr>) s)))"

definition wait :: "addr \<Rightarrow> nat \<Rightarrow> 'a sys_scheme \<Rightarrow> (int \<times> 'a sys_scheme) res" where
  "wait e cp s =
     (case find (\<lambda>p. pparent (procs s ! p) = Some cp \<and> prstate (procs s ! p) = ZOMBIE) [0..<NPROC] of
        Some p \<Rightarrow> reap e p s
      | None \<Rightarrow>
          if \<not> list_ex (\<lambda>p. pparent (procs s ! p) = Some cp) [0..<NPROC] \<or> pkilled (procs s ! cp) then Ok (- 1, s)
          else Sleep (ChProc cp))"

section \<open>The scheduler\<close>

text \<open>
  \<open>run p t\<close> is what happens between \<open>swtch\<close> to thread \<open>t\<close> of process \<open>p\<close> and its return to the scheduler: the
  thread runs until it calls \<open>sched\<close>. The pass also yields the threads it has run, in order. The inner loop ends when
  \<open>p->threads\<close> has become null.
\<close>

fun sched_threads :: "(nat \<Rightarrow> nat \<Rightarrow> 'a sys_scheme \<Rightarrow> 'a sys_scheme) \<Rightarrow> nat \<Rightarrow> nat \<Rightarrow> nat list \<Rightarrow> 'a sys_scheme \<Rightarrow> ((nat \<times> nat) list \<times> 'a sys_scheme) res" where
  "sched_threads run p r [] s = Ok ([], s)"
| "sched_threads run p r (t # ts) s =
     (if threads (procs s ! p) = None then Ok ([], s)
      else if tstate (tTable s ! r ! t) \<noteq> RUNNABLE then sched_threads run p r ts s
      else rbind (switchuvm p s) (\<lambda>s.
           let s = run p t (set_thread r t ((tTable s ! r ! t)\<lparr>tstate := RUNNING\<rparr>) s)
           in rbind (sched_threads run p r ts s) (\<lambda>(tr, s). Ok ((p, t) # tr, s))))"

fun sched_procs :: "(nat \<Rightarrow> nat \<Rightarrow> 'a sys_scheme \<Rightarrow> 'a sys_scheme) \<Rightarrow> nat list \<Rightarrow> 'a sys_scheme \<Rightarrow> ((nat \<times> nat) list \<times> 'a sys_scheme) res" where
  "sched_procs run [] s = Ok ([], s)"
| "sched_procs run (p # ps) s =
     (if \<not> procIsReady (procs s ! p) then sched_procs run ps s
      else rbind (threads_of p s) (\<lambda>r.
           rbind (sched_threads run p r [0..<NTHREAD] s) (\<lambda>(tr, s).
           rbind (sched_procs run ps s) (\<lambda>(us, s). Ok (tr @ us, s)))))"

text \<open>One turn of the endless loop of \<open>scheduler\<close>.\<close>

definition scheduler_pass :: "(nat \<Rightarrow> nat \<Rightarrow> 'a sys_scheme \<Rightarrow> 'a sys_scheme) \<Rightarrow> 'a sys_scheme \<Rightarrow> ((nat \<times> nat) list \<times> 'a sys_scheme) res" where
  "scheduler_pass run s = sched_procs run [0..<NPROC] s"

section \<open>Kernel threads\<close>

definition wakeupThreads :: "nat \<Rightarrow> chan \<Rightarrow> 'a sys_scheme \<Rightarrow> 'a sys_scheme res" where
  "wakeupThreads cp ch s = rbind (threads_of cp s) (\<lambda>r. Ok (set_row r (wake_row (Some ch) (tTable s ! r)) s))"

text \<open>\<open>t->kstack\<close> is used as it is; the stores go through the page directory of the process.\<close>

definition kthread_create :: "uint \<Rightarrow> uint \<Rightarrow> nat \<Rightarrow> nat \<Rightarrow> uint \<Rightarrow> uint \<Rightarrow> uint \<Rightarrow> 'a sys_scheme \<Rightarrow> (int \<times> 'a sys_scheme) res" where
  "kthread_create trapret forkret_pc cp ct start_func stack stack_size s =
     rbind (threads_of cp s) (\<lambda>r.
     case find (\<lambda>i. tstate (tTable s ! r ! i) = UNUSED) [0..<NTHREAD] of
       None \<Rightarrow> Ok (- 1, s)
     | Some i \<Rightarrow>
         if nexttid s = INT_MAX then Fault ''overflow''
         else
           let s = set_thread r i ((tTable s ! r ! i)\<lparr>tstate := EMBRYO, ttid := nexttid s\<rparr>) s;
               s = s\<lparr>nexttid := nexttid s + 1\<rparr>;
               d = ppgdir (procs s ! cp);
               sp = tkstack (tTable s ! r ! i) + stack_size - TF_SIZE; tf = sp;
               s = set_thread r i ((tTable s ! r ! i)\<lparr>ttf := tf\<rparr>) s;
               sp = sp - 4
           in rbind (in_mem (vstore d sp trapret) s) (\<lambda>s.
              let sp = sp - CONTEXT_SIZE;
                  s = set_thread r i ((tTable s ! r ! i)\<lparr>tcontext := sp\<rparr>) s
              in rbind (in_mem (vput d sp (replicate (unat CONTEXT_SIZE) 0)) s) (\<lambda>s.
                 rbind (in_mem (vstore d (sp + CTX_eip) forkret_pc) s) (\<lambda>s.
                 rbind (vget d (ttf (the_thread cp ct s)) (unat TF_SIZE) (kk s)) (\<lambda>bs.
                 rbind (in_mem (vput d tf bs) s) (\<lambda>s.
                 rbind (in_mem (vstore d (tf + TF_eip) start_func) s) (\<lambda>s.
                 rbind (in_mem (vstore d (tf + TF_esp) (stack + stack_size)) s) (\<lambda>s.
                 rbind (in_mem (vstore d (tf + TF_eflags) 0x200) s) (\<lambda>s.
                 let s = set_thread r i ((tTable s ! r ! i)\<lparr>tparent := Some cp, tstate := RUNNABLE\<rparr>) s
                 in Ok (ttid (tTable s ! r ! i), s))))))))))"

definition kthread_id :: "nat \<Rightarrow> nat \<Rightarrow> 'a sys_scheme \<Rightarrow> int" where
  "kthread_id cp ct s = ttid (the_thread cp ct s)"

text \<open>When it was the last thread, the process exits; \<open>exit\<close> does not return.\<close>

definition kthread_exit :: "addr \<Rightarrow> nat \<Rightarrow> nat \<Rightarrow> 'a sys_scheme \<Rightarrow> 'a sys_scheme res" where
  "kthread_exit e cp ct s =
     (let s = set_thread cp ct ((the_thread cp ct s)\<lparr>tstate := ZOMBIE\<rparr>) s
      in rbind (threads_of cp s) (\<lambda>r.
         if \<not> list_ex live (take NTHREAD (tTable s ! r)) then
           exit e cp ct (set_proc cp ((procs s ! cp)\<lparr>prstate := ZOMBIE\<rparr>) s)
         else
           let s = set_thread cp ct ((the_thread cp ct s)\<lparr>tkernelStack := 0, tparent := None, tptlock := False, ttf := 0,
                     ttid := 0\<rparr>) s
           in rbind (wakeupThreads cp (ChThread cp ct) s) (sched cp ct)))"

definition kthread_join :: "nat \<Rightarrow> int \<Rightarrow> 'a sys_scheme \<Rightarrow> (int \<times> 'a sys_scheme) res" where
  "kthread_join cp thread_id s =
     rbind (threads_of cp s) (\<lambda>r.
     let ms = filter (\<lambda>i. ttid (tTable s ! r ! i) = thread_id) [0..<NTHREAD]
     in case find (\<lambda>i. tstate (tTable s ! r ! i) = ZOMBIE) ms of
          Some i \<Rightarrow> Ok (ttid (tTable s ! r ! i), set_thread r i ((tTable s ! r ! i)\<lparr>ttid := - 1, tparent := None\<rparr>) s)
        | None \<Rightarrow> if ms = [] \<or> pkilled (procs s ! cp) then Ok (- 1, s) else Sleep (ChThread r (List.last ms)))"

end
