(* ===== verification/Xv6_Exec.thy ===== *)
theory Xv6_Exec
  imports Xv6_Proc
begin

text \<open>
  \<^verbatim>\<open>exec.c\<close> and \<^verbatim>\<open>elf.h\<close>, with \<open>loaduvm\<close> of \<^verbatim>\<open>vm.c\<close>. The path and the arguments are byte strings without their NUL.
  \<open>copyout\<close> is used here with the bytes it copies, since they lie in the old address space or on the kernel stack.
  \<open>None\<close> stands for \<open>goto bad\<close>.
\<close>

section \<open>ELF\<close>

abbreviation (input) ELF_MAGIC :: uint where "ELF_MAGIC \<equiv> 0x464C457F"
abbreviation (input) ELF_PROG_LOAD :: uint where "ELF_PROG_LOAD \<equiv> 1"
abbreviation (input) MAXARG :: nat where "MAXARG \<equiv> 32"
abbreviation (input) ELF_SIZE :: nat where "ELF_SIZE \<equiv> 52"
abbreviation (input) PH_SIZE :: nat where "PH_SIZE \<equiv> 32"

record elfhdr =
  emagic :: uint
  eelf :: "uchar list"
  etype :: ushort
  emachine :: ushort
  eversion :: uint
  eentry :: uint
  ephoff :: uint
  eshoff :: uint
  eflags :: uint
  eehsize :: ushort
  ephentsize :: ushort
  ephnum :: ushort
  eshentsize :: ushort
  eshnum :: ushort
  eshstrndx :: ushort

record proghdr =
  phtype :: uint
  phoff :: uint
  phvaddr :: uint
  phpaddr :: uint
  phfilesz :: uint
  phmemsz :: uint
  phflags :: uint
  phalign :: uint

definition elf_of :: "uchar list \<Rightarrow> elfhdr" where
  "elf_of bs = \<lparr>emagic = get32 bs 0, eelf = take 12 (drop 4 bs), etype = get16 bs 16, emachine = get16 bs 18,
     eversion = get32 bs 20, eentry = get32 bs 24, ephoff = get32 bs 28, eshoff = get32 bs 32, eflags = get32 bs 36,
     eehsize = get16 bs 40, ephentsize = get16 bs 42, ephnum = get16 bs 44, eshentsize = get16 bs 46, eshnum = get16 bs 48,
     eshstrndx = get16 bs 50\<rparr>"

definition ph_of :: "uchar list \<Rightarrow> proghdr" where
  "ph_of bs = \<lparr>phtype = get32 bs 0, phoff = get32 bs 4, phvaddr = get32 bs 8, phpaddr = get32 bs 12,
     phfilesz = get32 bs 16, phmemsz = get32 bs 20, phflags = get32 bs 24, phalign = get32 bs 28\<rparr>"

section \<open>Copying to user memory\<close>

definition kput :: "addr \<Rightarrow> uchar list \<Rightarrow> kmem \<Rightarrow> kmem" where
  "kput a bs k = k\<lparr>kmemory := (\<lambda>x. if unat (x - a) < length bs then bs ! unat (x - a) else kmemory k x)\<rparr>"

function copyout_bytes :: "addr \<Rightarrow> uint \<Rightarrow> uchar list \<Rightarrow> kmem \<Rightarrow> (int \<times> kmem) res" where
  "copyout_bytes pgdir va bs k =
     (if bs = [] then Ok (0, k)
      else let va0 = PGROUNDDOWN va
           in rbind (uva2ka pgdir va0 k) (\<lambda>pa0.
              if pa0 = 0 then Ok (- 1, k)
              else let n = min (unat (PGSIZE - (va - va0))) (length bs)
                   in copyout_bytes pgdir (va0 + PGSIZE) (drop n bs) (kput (pa0 + (va - va0)) (take n bs) k)))"
  by pat_completeness auto
termination
proof (relation "measure (\<lambda>(pgdir, va, bs, k). length bs)")
  fix bs :: "uchar list" and va va0 :: uint and n
  assume "bs \<noteq> []" "va0 = PGROUNDDOWN va" "n = min (unat (PGSIZE - (va - va0))) (length bs)"
  moreover have "0 < unat (PGSIZE - (va - PGROUNDDOWN va))"
    unfolding page_rest using mod_less_divisor [of 4096 "unat va"] by linarith
  ultimately show "((pgdir, va0 + PGSIZE, drop n bs, k'), (pgdir, va, bs, k)) \<in> measure (\<lambda>(pgdir, va, bs, k). length bs)"
    for pgdir k k' by (auto simp: min_def)
qed auto

declare copyout_bytes.simps [simp del]

section \<open>Loading a segment\<close>

primrec loaduvm_loop :: "nat \<Rightarrow> bool \<Rightarrow> addr \<Rightarrow> uint \<Rightarrow> nat \<Rightarrow> uint \<Rightarrow> uint \<Rightarrow> uint \<Rightarrow> 'a kern_scheme \<Rightarrow> (int \<times> 'a kern_scheme) res" where
  "loaduvm_loop 0 killed pgdir va ip off i sz s = (if i < sz then Fault ''loop'' else Ok (0, s))"
| "loaduvm_loop (Suc fuel) killed pgdir va ip off i sz s =
     (if i < sz then
        let pte = fst (walkpgdir pgdir (va + i) False (kk s))
        in if pte = 0 then Panic ''loaduvm: address should exist''
           else let pa = PTE_ADDR (kload (kk s) pte);
                    n = (if sz - i < PGSIZE then sz - i else PGSIZE)
                in rbind (readi (devsw_table killed) ip (off + i) n s) (\<lambda>((r, bs), s).
                   let s = s\<lparr>kk := kput (p2v pa) bs (kk s)\<rparr>
                   in if word_of_int r \<noteq> n then Ok (- 1, s)
                      else loaduvm_loop fuel killed pgdir va ip off (i + PGSIZE) sz s)
      else Ok (0, s))"

definition loaduvm :: "bool \<Rightarrow> addr \<Rightarrow> uint \<Rightarrow> nat \<Rightarrow> uint \<Rightarrow> uint \<Rightarrow> 'a kern_scheme \<Rightarrow> (int \<times> 'a kern_scheme) res" where
  "loaduvm killed pgdir va ip off sz s =
     (if va mod PGSIZE \<noteq> 0 then Panic ''loaduvm: addr must be page aligned''
      else loaduvm_loop (Suc (unat sz div 4096)) killed pgdir va ip off 0 sz s)"

section \<open>exec\<close>

text \<open>The loop over the program headers, \<open>n\<close> of them left, the next at offset \<open>off\<close>.\<close>

primrec exec_load :: "nat \<Rightarrow> addr \<Rightarrow> bool \<Rightarrow> nat \<Rightarrow> addr \<Rightarrow> uint \<Rightarrow> uint \<Rightarrow> 'a kern_scheme \<Rightarrow> (uint option \<times> 'a kern_scheme) res" where
  "exec_load 0 e killed ip d off sz s = Ok (Some sz, s)"
| "exec_load (Suc n) e killed ip d off sz s =
     rbind (readi (devsw_table killed) ip off (of_nat PH_SIZE) s) (\<lambda>((r, bs), s).
     if r \<noteq> int PH_SIZE then Ok (None, s)
     else let ph = ph_of bs
          in if phtype ph \<noteq> ELF_PROG_LOAD then exec_load n e killed ip d (off + of_nat PH_SIZE) sz s
             else if phmemsz ph < phfilesz ph then Ok (None, s)
             else rbind (allocuvm e d sz (phvaddr ph + phmemsz ph) (kk s)) (\<lambda>(sz, k).
                  let s = s\<lparr>kk := k\<rparr>
                  in if sz = 0 then Ok (None, s)
                     else rbind (loaduvm killed d (phvaddr ph) ip (phoff ph) (phfilesz ph) s) (\<lambda>(r, s).
                          if r < 0 then Ok (None, s)
                          else exec_load n e killed ip d (off + of_nat PH_SIZE) sz s)))"

text \<open>Pushing the argument strings; \<open>args\<close> are the addresses so far.\<close>

fun exec_args :: "addr \<Rightarrow> uchar list list \<Rightarrow> uint \<Rightarrow> uint list \<Rightarrow> kmem \<Rightarrow> ((uint \<times> uint list) option \<times> kmem) res" where
  "exec_args d [] sp args k = Ok (Some (sp, args), k)"
| "exec_args d (a # as) sp args k =
     (if length args \<ge> MAXARG then Ok (None, k)
      else let sp = (sp - of_nat (length a + 1)) AND NOT 3
           in rbind (copyout_bytes d sp (a @ [0]) k) (\<lambda>(r, k).
              if r < 0 then Ok (None, k) else exec_args d as sp (args @ [sp]) k))"

definition ustack :: "uint \<Rightarrow> uint list \<Rightarrow> uint list" where
  "ustack sp args = [0xFFFFFFFF, of_nat (length args), sp - of_nat ((length args + 1) * 4)] @ args @ [0]"

definition words_bytes :: "uint list \<Rightarrow> uchar list" where
  "words_bytes ws = concat (map word_bytes ws)"

definition after_slash :: "uchar list \<Rightarrow> uchar list" where
  "after_slash path = rev (takeWhile (\<lambda>c. c \<noteq> slash) (rev path))"

text \<open>The user image: the stack with the arguments above the program of size \<open>sz\<close>. The result is the
  new size and the stack pointer.\<close>

definition exec_stack :: "addr \<Rightarrow> addr \<Rightarrow> uchar list list \<Rightarrow> uint \<Rightarrow> kmem \<Rightarrow> ((uint \<times> uint) option \<times> kmem) res" where
  "exec_stack e d argv sz k =
     (let sz = PGROUNDUP sz
      in rbind (allocuvm e d sz (sz + 2 * PGSIZE) k) (\<lambda>(sz, k).
         if sz = 0 then Ok (None, k)
         else rbind (clearpteu d (sz - 2 * PGSIZE) k) (\<lambda>k.
              rbind (exec_args d argv sz [] k) (\<lambda>(st, k).
              case st of
                None \<Rightarrow> Ok (None, k)
              | Some (sp, args) \<Rightarrow>
                  let us = ustack sp args; sp = sp - of_nat (4 * length us)
                  in rbind (copyout_bytes d sp (words_bytes us) k) (\<lambda>(r, k).
                     if r < 0 then Ok (None, k) else Ok (Some (sz, sp), k))))))"

text \<open>The label \<open>bad\<close>: \<open>d\<close> is \<open>pgdir\<close>, and \<open>ip\<close> the inode while it is still locked.\<close>

definition exec_bad :: "addr \<Rightarrow> addr \<Rightarrow> nat option \<Rightarrow> 'a kern_scheme \<Rightarrow> (int \<times> 'a kern_scheme) res" where
  "exec_bad e d ip s =
     rbind (if d \<noteq> 0 then in_mem (freevm e d) s else Ok s) (\<lambda>s.
     rbind (case ip of None \<Rightarrow> Ok s | Some i \<Rightarrow> rbind (iunlockput i s) (with_log end_op)) (\<lambda>s. Ok (- 1, s)))"

text \<open>Switching to the new image. The loop over the other threads never runs: its counter starts at 0
  and the condition asks for \<open>NTHREAD - 1\<close>.\<close>

definition exec_commit :: "addr \<Rightarrow> nat \<Rightarrow> nat \<Rightarrow> addr \<Rightarrow> uint \<Rightarrow> uint \<Rightarrow> uint \<Rightarrow> uchar list \<Rightarrow> 'a sys_scheme \<Rightarrow> (int \<times> 'a sys_scheme) res" where
  "exec_commit e cp ct d sz sp entry path s =
     (let old = ppgdir (procs s ! cp); tf = ttf (the_thread cp ct s);
          s = set_proc cp ((procs s ! cp)\<lparr>pname := take 15 (after_slash path)\<rparr>) s;
          s = set_proc cp ((procs s ! cp)\<lparr>ppgdir := d, psz := sz\<rparr>) s
      in rbind (in_mem (vstore old (tf + TF_eip) entry) s) (\<lambda>s.
         rbind (in_mem (vstore old (tf + TF_esp) sp) s) (\<lambda>s.
         rbind (switchuvm cp s) (\<lambda>s.
         rbind (in_mem (freevm e old) s) (\<lambda>s. Ok (0, s))))))"

definition exec :: "addr \<Rightarrow> uint \<Rightarrow> nat \<Rightarrow> nat \<Rightarrow> uchar list \<Rightarrow> uchar list list \<Rightarrow> 'a sys_scheme \<Rightarrow> (int \<times> 'a sys_scheme) res" where
  "exec e dt cp ct path argv s =
     (let killed = pkilled (procs s ! cp)
      in rbind (with_log begin_op s) (\<lambda>s.
         case pcwd (procs s ! cp) of None \<Rightarrow> Fault ''cwd'' | Some cwd \<Rightarrow>
         rbind (namei (devsw_table killed) cwd path s) (\<lambda>(ip, s).
         case ip of
           None \<Rightarrow> rbind (with_log end_op s) (\<lambda>s. Ok (- 1, s))
         | Some ip \<Rightarrow>
             rbind (ilock (Some ip) s) (\<lambda>s.
             rbind (readi (devsw_table killed) ip 0 (of_nat ELF_SIZE) s) (\<lambda>((r, bs), s).
             if (word_of_int r :: uint) < of_nat ELF_SIZE then exec_bad e 0 (Some ip) s
             else if length bs < ELF_SIZE then Fault ''elf''
             else let elf = elf_of bs
                  in if emagic elf \<noteq> ELF_MAGIC then exec_bad e 0 (Some ip) s
                     else rbind (setupkvm dt (kk s)) (\<lambda>(d, k).
                          let s = s\<lparr>kk := k\<rparr>
                          in if d = 0 then exec_bad e 0 (Some ip) s
                             else rbind (exec_load (unat (ephnum elf)) e killed ip d (ephoff elf) 0 s) (\<lambda>(sz, s).
                                  case sz of
                                    None \<Rightarrow> exec_bad e d (Some ip) s
                                  | Some sz \<Rightarrow>
                                      rbind (iunlockput ip s) (\<lambda>s.
                                      rbind (with_log end_op s) (\<lambda>s.
                                      rbind (exec_stack e d argv sz (kk s)) (\<lambda>(st, k).
                                      let s = s\<lparr>kk := k\<rparr>
                                      in case st of
                                           None \<Rightarrow> exec_bad e d None s
                                         | Some (sz, sp) \<Rightarrow> exec_commit e cp ct d sz sp (eentry elf) path s))))))))))"

end
