(* ===== verification/Xv6_Syscall.thy ===== *)
theory Xv6_Syscall
  imports Xv6_Exec Xv6_Ulib
begin

text \<open>
  \<^verbatim>\<open>syscall.c\<close>, \<^verbatim>\<open>sysfile.c\<close>, \<^verbatim>\<open>sysproc.c\<close> and \<^verbatim>\<open>trap.c\<close>. A handler reads its arguments from the user stack through the page directory
  of the process. Its result is the value for \<open>eax\<close>, or that the thread sleeps in the middle of a pipe with these bytes
  still to write, or that the thread has ended, or that it has given up the processor on a clock tick.
\<close>

section \<open>Arguments\<close>

definition fetchint :: "nat \<Rightarrow> uint \<Rightarrow> 'a sys_scheme \<Rightarrow> uint option res" where
  "fetchint cp addr s =
     (let p = procs s ! cp
      in if addr \<ge> psz p \<or> addr + 4 > psz p then Ok None
         else rbind (vload (ppgdir p) addr (kk s)) (\<lambda>w. Ok (Some w)))"

text \<open>\<open>n\<close> bytes are left up to the end of the process.\<close>

primrec fetchstr_loop :: "nat \<Rightarrow> addr \<Rightarrow> uint \<Rightarrow> kmem \<Rightarrow> uchar list option res" where
  "fetchstr_loop 0 d a k = Ok None"
| "fetchstr_loop (Suc n) d a k =
     rbind (vload8 d a k) (\<lambda>b.
     if b = 0 then Ok (Some []) else rbind (fetchstr_loop n d (a + 1) k) (\<lambda>r. Ok (map_option (\<lambda>bs. b # bs) r)))"

definition fetchstr :: "nat \<Rightarrow> uint \<Rightarrow> 'a sys_scheme \<Rightarrow> uchar list option res" where
  "fetchstr cp addr s =
     (let p = procs s ! cp
      in if addr \<ge> psz p then Ok None else fetchstr_loop (unat (psz p - addr)) (ppgdir p) addr (kk s))"

definition argint :: "nat \<Rightarrow> nat \<Rightarrow> uint \<Rightarrow> 'a sys_scheme \<Rightarrow> uint option res" where
  "argint cp ct n s =
     rbind (vload (ppgdir (procs s ! cp)) (ttf (the_thread cp ct s) + TF_esp) (kk s)) (\<lambda>esp.
     fetchint cp (esp + 4 + 4 * n) s)"

definition argptr :: "nat \<Rightarrow> nat \<Rightarrow> uint \<Rightarrow> uint \<Rightarrow> 'a sys_scheme \<Rightarrow> uint option res" where
  "argptr cp ct n sz s =
     rbind (argint cp ct n s) (\<lambda>i.
     case i of
       None \<Rightarrow> Ok None
     | Some i \<Rightarrow> if i \<ge> psz (procs s ! cp) \<or> i + sz > psz (procs s ! cp) then Ok None else Ok (Some i))"

definition argstr :: "nat \<Rightarrow> nat \<Rightarrow> uint \<Rightarrow> 'a sys_scheme \<Rightarrow> uchar list option res" where
  "argstr cp ct n s =
     rbind (argint cp ct n s) (\<lambda>a. case a of None \<Rightarrow> Ok None | Some a \<Rightarrow> fetchstr cp a s)"

text \<open>\<open>if(f < 0) return -1;\<close> after a fetch.\<close>

definition need :: "'b option res \<Rightarrow> 'c \<Rightarrow> ('b \<Rightarrow> 'c res) \<Rightarrow> 'c res" where
  "need r d f = rbind r (\<lambda>x. case x of None \<Rightarrow> Ok d | Some x \<Rightarrow> f x)"

definition argfd :: "nat \<Rightarrow> nat \<Rightarrow> uint \<Rightarrow> 'a sys_scheme \<Rightarrow> (nat \<times> nat) option res" where
  "argfd cp ct n s =
     need (argint cp ct n s) None (\<lambda>w.
     let fd = sint w
     in if fd < 0 \<or> fd \<ge> int NOFILE then Ok None
        else Ok (map_option (\<lambda>f. (nat fd, f)) (ofile (procs s ! cp) ! nat fd)))"

definition set_ofile :: "nat \<Rightarrow> nat \<Rightarrow> nat option \<Rightarrow> 'a sys_scheme \<Rightarrow> 'a sys_scheme" where
  "set_ofile cp fd f s = set_proc cp ((procs s ! cp)\<lparr>ofile := (ofile (procs s ! cp))[fd := f]\<rparr>) s"

definition fdalloc :: "nat \<Rightarrow> nat \<Rightarrow> 'a sys_scheme \<Rightarrow> nat option \<times> 'a sys_scheme" where
  "fdalloc cp f s =
     (case find (\<lambda>fd. ofile (procs s ! cp) ! fd = None) [0..<NOFILE] of
        None \<Rightarrow> (None, s)
      | Some fd \<Rightarrow> (Some fd, set_ofile cp fd (Some f) s))"

section \<open>Descriptors\<close>

datatype sysret = Ret int | Blocked chan "uchar list" | Gone | Yielded

definition sys_dup :: "nat \<Rightarrow> nat \<Rightarrow> 'a sys_scheme \<Rightarrow> (sysret \<times> 'a sys_scheme) res" where
  "sys_dup cp ct s =
     need (argfd cp ct 0 s) (Ret (- 1), s) (\<lambda>(_, f).
     case fdalloc cp f s of
       (None, s) \<Rightarrow> Ok (Ret (- 1), s)
     | (Some fd, s) \<Rightarrow> rbind (filedup f s) (\<lambda>s. Ok (Ret (int fd), s)))"

fun pipe_ret :: "pipe_out \<Rightarrow> sysret" where
  "pipe_ret (PReturn r) = Ret r"
| "pipe_ret (PSleep ch bs) = Blocked ch bs"

definition sys_read :: "nat \<Rightarrow> nat \<Rightarrow> 'a sys_scheme \<Rightarrow> (sysret \<times> 'a sys_scheme) res" where
  "sys_read cp ct s =
     need (argfd cp ct 0 s) (Ret (- 1), s) (\<lambda>(_, f).
     need (argint cp ct 2 s) (Ret (- 1), s) (\<lambda>n.
     need (argptr cp ct 1 n s) (Ret (- 1), s) (\<lambda>p.
     rbind (fileread (pkilled (procs s ! cp)) f (sint n) s) (\<lambda>((out, bs), s).
     rbind (in_mem (vput (ppgdir (procs s ! cp)) p bs) s) (\<lambda>s. Ok (pipe_ret out, s))))))"

definition sys_write :: "nat \<Rightarrow> nat \<Rightarrow> 'a sys_scheme \<Rightarrow> (sysret \<times> 'a sys_scheme) res" where
  "sys_write cp ct s =
     need (argfd cp ct 0 s) (Ret (- 1), s) (\<lambda>(_, f).
     need (argint cp ct 2 s) (Ret (- 1), s) (\<lambda>n.
     need (argptr cp ct 1 n s) (Ret (- 1), s) (\<lambda>p.
     rbind (vget (ppgdir (procs s ! cp)) p (nat (sint n)) (kk s)) (\<lambda>src.
     rbind (filewrite (pkilled (procs s ! cp)) f src (sint n) s) (\<lambda>(out, s). Ok (pipe_ret out, s))))))"

definition sys_close :: "addr \<Rightarrow> nat \<Rightarrow> nat \<Rightarrow> 'a sys_scheme \<Rightarrow> (sysret \<times> 'a sys_scheme) res" where
  "sys_close e cp ct s =
     need (argfd cp ct 0 s) (Ret (- 1), s) (\<lambda>(fd, f).
     rbind (fileclose e f (set_ofile cp fd None s)) (\<lambda>s. Ok (Ret 0, s)))"

text \<open>The fields of \<open>struct stat\<close> at the user address \<open>a\<close>.\<close>

definition put_stat :: "addr \<Rightarrow> uint \<Rightarrow> stat \<Rightarrow> kmem \<Rightarrow> kmem res" where
  "put_stat d a st k =
     rbind (vput d a [ucast (st_type st), ucast (drop_bit 8 (st_type st))] k) (\<lambda>k.
     rbind (vstore d (a + 4) (st_dev st) k) (\<lambda>k.
     rbind (vstore d (a + 8) (st_ino st) k) (\<lambda>k.
     rbind (vput d (a + 12) [ucast (st_nlink st), ucast (drop_bit 8 (st_nlink st))] k) (\<lambda>k.
     vstore d (a + 16) (st_size st) k))))"

definition sys_fstat :: "nat \<Rightarrow> nat \<Rightarrow> 'a sys_scheme \<Rightarrow> (sysret \<times> 'a sys_scheme) res" where
  "sys_fstat cp ct s =
     need (argfd cp ct 0 s) (Ret (- 1), s) (\<lambda>(_, f).
     need (argptr cp ct 1 20 s) (Ret (- 1), s) (\<lambda>a.
     rbind (filestat f s) (\<lambda>(st, s).
     case st of
       None \<Rightarrow> Ok (Ret (- 1), s)
     | Some st \<Rightarrow> rbind (in_mem (put_stat (ppgdir (procs s ! cp)) a st) s) (\<lambda>s. Ok (Ret 0, s)))))"

definition sys_pipe :: "addr \<Rightarrow> nat \<Rightarrow> nat \<Rightarrow> 'a sys_scheme \<Rightarrow> (sysret \<times> 'a sys_scheme) res" where
  "sys_pipe e cp ct s =
     need (argptr cp ct 0 8 s) (Ret (- 1), s) (\<lambda>a.
     rbind (pipealloc e s) (\<lambda>(fs, s).
     case fs of
       None \<Rightarrow> Ok (Ret (- 1), s)
     | Some (rf, wrf) \<Rightarrow>
         (case fdalloc cp rf s of
            (None, s) \<Rightarrow> rbind (fileclose e rf s) (\<lambda>s. rbind (fileclose e wrf s) (\<lambda>s. Ok (Ret (- 1), s)))
          | (Some fd0, s) \<Rightarrow>
              (case fdalloc cp wrf s of
                 (None, s) \<Rightarrow>
                   rbind (fileclose e rf (set_ofile cp fd0 None s)) (\<lambda>s.
                   rbind (fileclose e wrf s) (\<lambda>s. Ok (Ret (- 1), s)))
               | (Some fd1, s) \<Rightarrow>
                   rbind (in_mem (vstore (ppgdir (procs s ! cp)) a (of_nat fd0)) s) (\<lambda>s.
                   rbind (in_mem (vstore (ppgdir (procs s ! cp)) (a + 4) (of_nat fd1)) s) (\<lambda>s. Ok (Ret 0, s)))))))"

section \<open>Directories\<close>

text \<open>\<open>end_op(); return -1;\<close>\<close>

definition end_fail :: "'a sys_scheme \<Rightarrow> (sysret \<times> 'a sys_scheme) res" where
  "end_fail s = rbind (with_log end_op s) (\<lambda>s. Ok (Ret (- 1), s))"

text \<open>\<open>namei\<close> and \<open>nameiparent\<close> of the running process.\<close>

definition cur_namei :: "nat \<Rightarrow> uchar list \<Rightarrow> 'a sys_scheme \<Rightarrow> (nat option \<times> 'a sys_scheme) res" where
  "cur_namei cp path s =
     (case pcwd (procs s ! cp) of None \<Rightarrow> Fault ''cwd'' | Some c \<Rightarrow> namei (devsw_table (pkilled (procs s ! cp))) c path s)"

definition cur_nameiparent :: "nat \<Rightarrow> uchar list \<Rightarrow> 'a sys_scheme \<Rightarrow> ((nat option \<times> uchar list) \<times> 'a sys_scheme) res" where
  "cur_nameiparent cp path s =
     (case pcwd (procs s ! cp) of
        None \<Rightarrow> Fault ''cwd''
      | Some c \<Rightarrow> nameiparent (devsw_table (pkilled (procs s ! cp))) c path s)"

definition cur_devsw :: "nat \<Rightarrow> 'a sys_scheme \<Rightarrow> nat \<Rightarrow> 'a sys_scheme devsw" where
  "cur_devsw cp s = devsw_table (pkilled (procs s ! cp))"

text \<open>\<open>iupdate(ip)\<close> after \<open>f\<close> has changed the fields of the inode in the cache.\<close>

definition iupdate_with :: "(inode \<Rightarrow> inode) \<Rightarrow> nat \<Rightarrow> 'a fs_scheme \<Rightarrow> 'a fs_scheme res" where
  "iupdate_with f i s = (let s = set_inode i (f (inodes s ! i)) s in with_log (iupdate (inodes s ! i)) s)"

definition sys_link_bad :: "nat \<Rightarrow> 'a sys_scheme \<Rightarrow> (sysret \<times> 'a sys_scheme) res" where
  "sys_link_bad ip s =
     rbind (ilock (Some ip) s) (\<lambda>s.
     rbind (iupdate_with (\<lambda>i. i\<lparr>inlink := inlink i - 1\<rparr>) ip s) (\<lambda>s.
     rbind (iunlockput ip s) end_fail))"

definition sys_link :: "nat \<Rightarrow> nat \<Rightarrow> 'a sys_scheme \<Rightarrow> (sysret \<times> 'a sys_scheme) res" where
  "sys_link cp ct s =
     need (argstr cp ct 0 s) (Ret (- 1), s) (\<lambda>old.
     need (argstr cp ct 1 s) (Ret (- 1), s) (\<lambda>new.
     rbind (with_log begin_op s) (\<lambda>s.
     rbind (cur_namei cp old s) (\<lambda>(ip, s).
     case ip of
       None \<Rightarrow> end_fail s
     | Some ip \<Rightarrow>
         rbind (ilock (Some ip) s) (\<lambda>s.
         if itype (inodes s ! ip) = T_DIR then rbind (iunlockput ip s) end_fail
         else
           rbind (iupdate_with (\<lambda>i. i\<lparr>inlink := inlink i + 1\<rparr>) ip s) (\<lambda>s.
           rbind (iunlock (Some ip) s) (\<lambda>s.
           rbind (cur_nameiparent cp new s) (\<lambda>((dp, name), s).
           case dp of
             None \<Rightarrow> sys_link_bad ip s
           | Some dp \<Rightarrow>
               rbind (ilock (Some dp) s) (\<lambda>s.
               rbind (if idev (inodes s ! dp) \<noteq> idev (inodes s ! ip) then Ok (- 1, s)
                      else dirlink (cur_devsw cp s) dp name (inum (inodes s ! ip)) s) (\<lambda>(r, s).
               if r < 0 then rbind (iunlockput dp s) (sys_link_bad ip)
               else rbind (iunlockput dp s) (\<lambda>s.
                    rbind (iput ip s) (\<lambda>s.
                    rbind (with_log end_op s) (\<lambda>s. Ok (Ret 0, s))))))))))))))"

fun isdirempty_loop :: "(nat \<Rightarrow> 'a fs_scheme devsw) \<Rightarrow> nat \<Rightarrow> uint list \<Rightarrow> 'a fs_scheme \<Rightarrow> (bool \<times> 'a fs_scheme) res" where
  "isdirempty_loop devsw dp [] s = Ok (True, s)"
| "isdirempty_loop devsw dp (off # offs) s =
     rbind (readi devsw dp off 16 s) (\<lambda>((r, de), s).
     if r \<noteq> 16 then Panic ''isdirempty: readi''
     else if de_inum de \<noteq> 0 then Ok (False, s)
     else isdirempty_loop devsw dp offs s)"

definition isdirempty :: "(nat \<Rightarrow> 'a fs_scheme devsw) \<Rightarrow> nat \<Rightarrow> 'a fs_scheme \<Rightarrow> (bool \<times> 'a fs_scheme) res" where
  "isdirempty devsw dp s = isdirempty_loop devsw dp (drop 2 (dir_offsets (isize (inodes s ! dp)))) s"

definition sys_unlink_bad :: "nat \<Rightarrow> 'a sys_scheme \<Rightarrow> (sysret \<times> 'a sys_scheme) res" where
  "sys_unlink_bad dp s = rbind (iunlockput dp s) end_fail"

definition sys_unlink :: "nat \<Rightarrow> nat \<Rightarrow> 'a sys_scheme \<Rightarrow> (sysret \<times> 'a sys_scheme) res" where
  "sys_unlink cp ct s =
     need (argstr cp ct 0 s) (Ret (- 1), s) (\<lambda>path.
     rbind (with_log begin_op s) (\<lambda>s.
     rbind (cur_nameiparent cp path s) (\<lambda>((dp, name), s).
     case dp of
       None \<Rightarrow> end_fail s
     | Some dp \<Rightarrow>
         rbind (ilock (Some dp) s) (\<lambda>s.
         if namecmp name [46] = 0 \<or> namecmp name [46, 46] = 0 then sys_unlink_bad dp s
         else rbind (dirlookup (cur_devsw cp s) dp name s) (\<lambda>(found, s).
              case found of
                None \<Rightarrow> sys_unlink_bad dp s
              | Some (ip, off) \<Rightarrow>
                  rbind (ilock (Some ip) s) (\<lambda>s.
                  if inlink (inodes s ! ip) <s 1 then Panic ''unlink: nlink < 1''
                  else rbind (if itype (inodes s ! ip) = T_DIR then isdirempty (cur_devsw cp s) ip s else Ok (True, s)) (\<lambda>(em, s).
                       if \<not> em then rbind (iunlockput ip s) (sys_unlink_bad dp)
                       else rbind (writei (cur_devsw cp s) dp (replicate 16 0) off 16 s) (\<lambda>(r, s).
                            if r \<noteq> 16 then Panic ''unlink: writei''
                            else rbind (if itype (inodes s ! ip) = T_DIR
                                        then iupdate_with (\<lambda>i. i\<lparr>inlink := inlink i - 1\<rparr>) dp s else Ok s) (\<lambda>s.
                                 rbind (iunlockput dp s) (\<lambda>s.
                                 rbind (iupdate_with (\<lambda>i. i\<lparr>inlink := inlink i - 1\<rparr>) ip s) (\<lambda>s.
                                 rbind (iunlockput ip s) (\<lambda>s.
                                 rbind (with_log end_op s) (\<lambda>s. Ok (Ret 0, s))))))))))))))"

text \<open>The new inode in \<open>create\<close>: its link count, the entries \<open>.\<close> and \<open>..\<close>, and its name in the directory.\<close>

definition create_new :: "nat \<Rightarrow> nat \<Rightarrow> nat \<Rightarrow> uchar list \<Rightarrow> ushort \<Rightarrow> ushort \<Rightarrow> ushort \<Rightarrow> 'a sys_scheme \<Rightarrow> (nat option \<times> 'a sys_scheme) res" where
  "create_new cp dp ip name type major minor s =
     rbind (ilock (Some ip) s) (\<lambda>s.
     rbind (iupdate_with (\<lambda>i. i\<lparr>imajor := major, iminor := minor, inlink := 1\<rparr>) ip s) (\<lambda>s.
     rbind (if type = T_DIR then
              rbind (iupdate_with (\<lambda>i. i\<lparr>inlink := inlink i + 1\<rparr>) dp s) (\<lambda>s.
              rbind (dirlink (cur_devsw cp s) ip [46] (inum (inodes s ! ip)) s) (\<lambda>(r, s).
              if r < 0 then Panic ''create dots''
              else rbind (dirlink (cur_devsw cp s) ip [46, 46] (inum (inodes s ! dp)) s) (\<lambda>(r, s).
                   if r < 0 then Panic ''create dots'' else Ok s)))
            else Ok s) (\<lambda>s.
     rbind (dirlink (cur_devsw cp s) dp name (inum (inodes s ! ip)) s) (\<lambda>(r, s).
     if r < 0 then Panic ''create: dirlink''
     else rbind (iunlockput dp s) (\<lambda>s. Ok (Some ip, s))))))"

definition create :: "nat \<Rightarrow> uchar list \<Rightarrow> ushort \<Rightarrow> ushort \<Rightarrow> ushort \<Rightarrow> 'a sys_scheme \<Rightarrow> (nat option \<times> 'a sys_scheme) res" where
  "create cp path type major minor s =
     rbind (cur_nameiparent cp path s) (\<lambda>((dp, name), s).
     case dp of
       None \<Rightarrow> Ok (None, s)
     | Some dp \<Rightarrow>
         rbind (ilock (Some dp) s) (\<lambda>s.
         rbind (dirlookup (cur_devsw cp s) dp name s) (\<lambda>(found, s).
         case found of
           Some (ip, off) \<Rightarrow>
             rbind (iunlockput dp s) (\<lambda>s.
             rbind (ilock (Some ip) s) (\<lambda>s.
             if type = T_FILE \<and> itype (inodes s ! ip) = T_FILE then Ok (Some ip, s)
             else rbind (iunlockput ip s) (\<lambda>s. Ok (None, s))))
         | None \<Rightarrow>
             rbind (ialloc (idev (inodes s ! dp)) type s) (\<lambda>(ip, s).
             create_new cp dp ip name type major minor s))))"

abbreviation (input) O_RDONLY :: uint where "O_RDONLY \<equiv> 0x000"
abbreviation (input) O_WRONLY :: uint where "O_WRONLY \<equiv> 0x001"
abbreviation (input) O_RDWR :: uint where "O_RDWR \<equiv> 0x002"
abbreviation (input) O_CREATE :: uint where "O_CREATE \<equiv> 0x200"

text \<open>The inode that \<open>sys_open\<close> opens, locked; \<open>None\<close> when the call fails.\<close>

definition open_inode :: "nat \<Rightarrow> uchar list \<Rightarrow> uint \<Rightarrow> 'a sys_scheme \<Rightarrow> (nat option \<times> 'a sys_scheme) res" where
  "open_inode cp path omode s =
     (if omode AND O_CREATE \<noteq> 0 then create cp path T_FILE 0 0 s
      else rbind (cur_namei cp path s) (\<lambda>(ip, s).
           case ip of
             None \<Rightarrow> Ok (None, s)
           | Some ip \<Rightarrow>
               rbind (ilock (Some ip) s) (\<lambda>s.
               if itype (inodes s ! ip) = T_DIR \<and> omode \<noteq> O_RDONLY then rbind (iunlockput ip s) (\<lambda>s. Ok (None, s))
               else Ok (Some ip, s))))"

text \<open>The open file and the descriptor for the locked inode \<open>ip\<close>.\<close>

definition open_file :: "addr \<Rightarrow> nat \<Rightarrow> uint \<Rightarrow> nat \<Rightarrow> 'a sys_scheme \<Rightarrow> (sysret \<times> 'a sys_scheme) res" where
  "open_file e cp omode ip s =
     (case filealloc s of
        (None, s) \<Rightarrow> rbind (iunlockput ip s) end_fail
      | (Some f, s) \<Rightarrow>
          (case fdalloc cp f s of
             (None, s) \<Rightarrow> rbind (fileclose e f s) (\<lambda>s. rbind (iunlockput ip s) end_fail)
           | (Some fd, s) \<Rightarrow>
               rbind (iunlock (Some ip) s) (\<lambda>s.
               rbind (with_log end_op s) (\<lambda>s.
               Ok (Ret (int fd), set_file f ((files s ! f)\<lparr>ftype := FD_INODE, fip := ip, foff := 0,
                 freadable := (omode AND O_WRONLY = 0), fwritable := (omode AND O_WRONLY \<noteq> 0 \<or> omode AND O_RDWR \<noteq> 0)\<rparr>) s)))))"

definition sys_open :: "addr \<Rightarrow> nat \<Rightarrow> nat \<Rightarrow> 'a sys_scheme \<Rightarrow> (sysret \<times> 'a sys_scheme) res" where
  "sys_open e cp ct s =
     need (argstr cp ct 0 s) (Ret (- 1), s) (\<lambda>path.
     need (argint cp ct 1 s) (Ret (- 1), s) (\<lambda>omode.
     rbind (with_log begin_op s) (\<lambda>s.
     rbind (open_inode cp path omode s) (\<lambda>(ip, s).
     case ip of None \<Rightarrow> end_fail s | Some ip \<Rightarrow> open_file e cp omode ip s))))"

definition sys_mkdir :: "nat \<Rightarrow> nat \<Rightarrow> 'a sys_scheme \<Rightarrow> (sysret \<times> 'a sys_scheme) res" where
  "sys_mkdir cp ct s =
     rbind (with_log begin_op s) (\<lambda>s.
     rbind (argstr cp ct 0 s) (\<lambda>path.
     case path of
       None \<Rightarrow> end_fail s
     | Some path \<Rightarrow>
         rbind (create cp path T_DIR 0 0 s) (\<lambda>(ip, s).
         case ip of
           None \<Rightarrow> end_fail s
         | Some ip \<Rightarrow> rbind (iunlockput ip s) (\<lambda>s. rbind (with_log end_op s) (\<lambda>s. Ok (Ret 0, s))))))"

definition sys_mknod :: "nat \<Rightarrow> nat \<Rightarrow> 'a sys_scheme \<Rightarrow> (sysret \<times> 'a sys_scheme) res" where
  "sys_mknod cp ct s =
     rbind (with_log begin_op s) (\<lambda>s.
     rbind (argstr cp ct 0 s) (\<lambda>path.
     rbind (if path = None then Ok None else argint cp ct 1 s) (\<lambda>major.
     rbind (if major = None then Ok None else argint cp ct 2 s) (\<lambda>minor.
     case (path, major, minor) of
       (Some path, Some major, Some minor) \<Rightarrow>
         rbind (create cp path T_DEV (ucast major) (ucast minor) s) (\<lambda>(ip, s).
         case ip of
           None \<Rightarrow> end_fail s
         | Some ip \<Rightarrow> rbind (iunlockput ip s) (\<lambda>s. rbind (with_log end_op s) (\<lambda>s. Ok (Ret 0, s))))
     | _ \<Rightarrow> end_fail s))))"

definition sys_chdir :: "nat \<Rightarrow> nat \<Rightarrow> 'a sys_scheme \<Rightarrow> (sysret \<times> 'a sys_scheme) res" where
  "sys_chdir cp ct s =
     rbind (with_log begin_op s) (\<lambda>s.
     rbind (argstr cp ct 0 s) (\<lambda>path.
     rbind (case path of None \<Rightarrow> Ok (None, s) | Some path \<Rightarrow> cur_namei cp path s) (\<lambda>(ip, s).
     case ip of
       None \<Rightarrow> end_fail s
     | Some ip \<Rightarrow>
         rbind (ilock (Some ip) s) (\<lambda>s.
         if itype (inodes s ! ip) \<noteq> T_DIR then rbind (iunlockput ip s) end_fail
         else rbind (iunlock (Some ip) s) (\<lambda>s.
              rbind (case pcwd (procs s ! cp) of None \<Rightarrow> Fault ''cwd'' | Some c \<Rightarrow> iput c s) (\<lambda>s.
              rbind (with_log end_op s) (\<lambda>s.
              Ok (Ret 0, set_proc cp ((procs s ! cp)\<lparr>pcwd := Some ip\<rparr>) s))))))))"

text \<open>The loop of \<open>sys_exec\<close>: \<open>n\<close> entries of \<open>argv\<close> are left, the next pointer is at \<open>a\<close>.\<close>

primrec exec_argv :: "nat \<Rightarrow> nat \<Rightarrow> uint \<Rightarrow> 'a sys_scheme \<Rightarrow> uchar list list option res" where
  "exec_argv 0 cp a s = Ok None"
| "exec_argv (Suc n) cp a s =
     need (fetchint cp a s) None (\<lambda>uarg.
     if uarg = 0 then Ok (Some [])
     else need (fetchstr cp uarg s) None (\<lambda>arg.
          rbind (exec_argv n cp (a + 4) s) (\<lambda>r. Ok (map_option (\<lambda>as. arg # as) r))))"

definition sys_exec :: "addr \<Rightarrow> uint \<Rightarrow> nat \<Rightarrow> nat \<Rightarrow> 'a sys_scheme \<Rightarrow> (sysret \<times> 'a sys_scheme) res" where
  "sys_exec e dt cp ct s =
     need (argstr cp ct 0 s) (Ret (- 1), s) (\<lambda>path.
     need (argint cp ct 1 s) (Ret (- 1), s) (\<lambda>uargv.
     need (exec_argv MAXARG cp uargv s) (Ret (- 1), s) (\<lambda>argv.
     rbind (exec e dt cp ct path argv s) (\<lambda>(r, s). Ok (Ret r, s)))))"

section \<open>sysproc.c\<close>

definition ret :: "(int \<times> 'a sys_scheme) res \<Rightarrow> (sysret \<times> 'a sys_scheme) res" where
  "ret r = rbind r (\<lambda>(x, s). Ok (Ret x, s))"

definition sys_fork :: "addr \<Rightarrow> uint \<Rightarrow> uint \<Rightarrow> uint \<Rightarrow> nat \<Rightarrow> nat \<Rightarrow> 'a sys_scheme \<Rightarrow> (sysret \<times> 'a sys_scheme) res" where
  "sys_fork e dt trapret forkret_pc cp ct s = ret (fork e dt trapret forkret_pc cp ct s)"

definition sys_exit :: "addr \<Rightarrow> nat \<Rightarrow> nat \<Rightarrow> 'a sys_scheme \<Rightarrow> (sysret \<times> 'a sys_scheme) res" where
  "sys_exit e cp ct s = rbind (exit e cp ct s) (\<lambda>s. Ok (Gone, s))"

definition sys_wait :: "addr \<Rightarrow> nat \<Rightarrow> 'a sys_scheme \<Rightarrow> (sysret \<times> 'a sys_scheme) res" where
  "sys_wait e cp s = ret (wait e cp s)"

definition sys_kill :: "nat \<Rightarrow> nat \<Rightarrow> 'a sys_scheme \<Rightarrow> (sysret \<times> 'a sys_scheme) res" where
  "sys_kill cp ct s = need (argint cp ct 0 s) (Ret (- 1), s) (\<lambda>pid. ret (kill (sint pid) s))"

definition sys_getpid :: "nat \<Rightarrow> 'a sys_scheme \<Rightarrow> (sysret \<times> 'a sys_scheme) res" where
  "sys_getpid cp s = Ok (Ret (ppid (procs s ! cp)), s)"

definition sys_sbrk :: "addr \<Rightarrow> nat \<Rightarrow> nat \<Rightarrow> 'a sys_scheme \<Rightarrow> (sysret \<times> 'a sys_scheme) res" where
  "sys_sbrk e cp ct s =
     need (argint cp ct 0 s) (Ret (- 1), s) (\<lambda>n.
     let addr = psz (procs s ! cp)
     in rbind (growproc e cp (sint n) s) (\<lambda>(r, s). Ok (Ret (if r < 0 then - 1 else sint addr), s)))"

text \<open>The loop of \<open>sys_sleep\<close>, entered again with the same \<open>ticks0\<close> each time the thread wakes up.\<close>

definition sleep_ticks :: "nat \<Rightarrow> uint \<Rightarrow> uint \<Rightarrow> 'a sys_scheme \<Rightarrow> (sysret \<times> 'a sys_scheme) res" where
  "sleep_ticks cp n ticks0 s =
     (if ticks s - ticks0 < n then if pkilled (procs s ! cp) then Ok (Ret (- 1), s) else Sleep ChTicks
      else Ok (Ret 0, s))"

definition sys_sleep :: "nat \<Rightarrow> nat \<Rightarrow> 'a sys_scheme \<Rightarrow> (sysret \<times> 'a sys_scheme) res" where
  "sys_sleep cp ct s = need (argint cp ct 0 s) (Ret (- 1), s) (\<lambda>n. sleep_ticks cp n (ticks s) s)"

definition sys_uptime :: "'a sys_scheme \<Rightarrow> (sysret \<times> 'a sys_scheme) res" where
  "sys_uptime s = Ok (Ret (sint (ticks s)), s)"

definition sys_kthread_create :: "uint \<Rightarrow> uint \<Rightarrow> nat \<Rightarrow> nat \<Rightarrow> 'a sys_scheme \<Rightarrow> (sysret \<times> 'a sys_scheme) res" where
  "sys_kthread_create trapret forkret_pc cp ct s =
     need (argint cp ct 0 s) (Ret (- 1), s) (\<lambda>start_func.
     need (argint cp ct 1 s) (Ret (- 1), s) (\<lambda>stack.
     need (argint cp ct 2 s) (Ret (- 1), s) (\<lambda>stack_size.
     ret (kthread_create trapret forkret_pc cp ct start_func stack stack_size s))))"

definition sys_kthread_id :: "nat \<Rightarrow> nat \<Rightarrow> 'a sys_scheme \<Rightarrow> (sysret \<times> 'a sys_scheme) res" where
  "sys_kthread_id cp ct s = Ok (Ret (kthread_id cp ct s), s)"

definition sys_kthread_exit :: "addr \<Rightarrow> nat \<Rightarrow> nat \<Rightarrow> 'a sys_scheme \<Rightarrow> (sysret \<times> 'a sys_scheme) res" where
  "sys_kthread_exit e cp ct s = rbind (kthread_exit e cp ct s) (\<lambda>s. Ok (Gone, s))"

definition sys_kthread_join :: "nat \<Rightarrow> nat \<Rightarrow> 'a sys_scheme \<Rightarrow> (sysret \<times> 'a sys_scheme) res" where
  "sys_kthread_join cp ct s = need (argint cp ct 0 s) (Ret (- 1), s) (\<lambda>t. ret (kthread_join cp (sint t) s))"

section \<open>Dispatch\<close>

record linked =
  l_end :: addr
  l_data :: uint
  l_trapret :: uint
  l_forkret :: uint

definition syscalls :: "linked \<Rightarrow> nat \<Rightarrow> nat \<Rightarrow> nat \<Rightarrow> ('a sys_scheme \<Rightarrow> (sysret \<times> 'a sys_scheme) res) option" where
  "syscalls L cp ct n =
     (if n \<in> {1..25} then
        Some ([sys_fork (l_end L) (l_data L) (l_trapret L) (l_forkret L) cp ct, sys_exit (l_end L) cp ct, sys_wait (l_end L) cp,
          sys_pipe (l_end L) cp ct, sys_read cp ct, sys_kill cp ct, sys_exec (l_end L) (l_data L) cp ct, sys_fstat cp ct,
          sys_chdir cp ct, sys_dup cp ct, sys_getpid cp, sys_sbrk (l_end L) cp ct, sys_sleep cp ct, sys_uptime,
          sys_open (l_end L) cp ct, sys_write cp ct, sys_mknod cp ct, sys_unlink cp ct, sys_link cp ct, sys_mkdir cp ct,
          sys_close (l_end L) cp ct, sys_kthread_create (l_trapret L) (l_forkret L) cp ct, sys_kthread_id cp ct,
          sys_kthread_exit (l_end L) cp ct, sys_kthread_join cp ct] ! (n - 1))
      else None)"

text \<open>\<open>cprintf\<close> on the console; the string arguments are given with the numbers that stand for them.\<close>

definition kprint :: "(uint \<Rightarrow> string) \<Rightarrow> string \<Rightarrow> uint list \<Rightarrow> 'a kern_scheme \<Rightarrow> 'a kern_scheme res" where
  "kprint strs fmt args s =
     rbind (cprintf strs (Some fmt) args) (\<lambda>out.
     rbind (consputs (map of_char out) (cons s)) (\<lambda>c. Ok (s\<lparr>cons := c\<rparr>)))"

definition name_str :: "proc \<Rightarrow> uint \<Rightarrow> string" where
  "name_str p = (\<lambda>_. map (\<lambda>b. char_of (unat b)) (pname p))"

definition syscall :: "linked \<Rightarrow> nat \<Rightarrow> nat \<Rightarrow> 'a sys_scheme \<Rightarrow> (sysret \<times> 'a sys_scheme) res" where
  "syscall L cp ct s =
     rbind (vload (ppgdir (procs s ! cp)) (ttf (the_thread cp ct s) + TF_eax) (kk s)) (\<lambda>num.
     rbind (case (if sint num > 0 then syscalls L cp ct (nat (sint num)) else None) of
              Some f \<Rightarrow> f s
            | None \<Rightarrow>
                rbind (kprint (name_str (procs s ! cp)) (''%d %s: unknown sys call %d'' @ [CHR 0x0A])
                         [word_of_int (ppid (procs s ! cp)), 1, num] s) (\<lambda>s. Ok (Ret (- 1), s))) (\<lambda>(r, s).
     case r of
       Ret x \<Rightarrow>
         rbind (in_mem (vstore (ppgdir (procs s ! cp)) (ttf (the_thread cp ct s) + TF_eax) (word_of_int x)) s)
           (\<lambda>s. Ok (r, s))
     | _ \<Rightarrow> Ok (r, s)))"

section \<open>trap.c\<close>

abbreviation (input) T_SYSCALL :: uint where "T_SYSCALL \<equiv> 64"
abbreviation (input) T_IRQ0 :: uint where "T_IRQ0 \<equiv> 32"
abbreviation (input) IRQ_TIMER :: uint where "IRQ_TIMER \<equiv> 0"
abbreviation (input) IRQ_KBD :: uint where "IRQ_KBD \<equiv> 1"
abbreviation (input) IRQ_COM1 :: uint where "IRQ_COM1 \<equiv> 4"
abbreviation (input) IRQ_IDE :: uint where "IRQ_IDE \<equiv> 14"
abbreviation (input) IRQ_SPURIOUS :: uint where "IRQ_SPURIOUS \<equiv> 31"
abbreviation (input) TF_trapno :: uint where "TF_trapno \<equiv> 48"
abbreviation (input) TF_err :: uint where "TF_err \<equiv> 52"

definition uartintr :: "uchar list \<Rightarrow> console \<Rightarrow> console res" where
  "uartintr dump c =
     (let u = cuart c
      in if upresent u then consoleintr dump (map ucast (urx u)) (c\<lparr>cuart := u\<lparr>urx := []\<rparr>\<rparr>) else Ok c)"

text \<open>The trap frame as \<open>trap\<close> reads it; \<open>cs\<close> is the lower half of its word.\<close>

record frame =
  fr_trapno :: uint
  fr_err :: uint
  fr_eip :: uint
  fr_cs :: uint

definition read_frame :: "addr \<Rightarrow> addr \<Rightarrow> kmem \<Rightarrow> frame res" where
  "read_frame d tf k =
     rbind (vload d (tf + TF_trapno) k) (\<lambda>n. rbind (vload d (tf + TF_err) k) (\<lambda>er.
     rbind (vload d (tf + TF_eip) k) (\<lambda>ip. rbind (vload d (tf + TF_cs) k) (\<lambda>cs.
     Ok \<lparr>fr_trapno = n, fr_err = er, fr_eip = ip, fr_cs = cs AND 0xFFFF\<rparr>))))"

text \<open>The \<open>switch\<close>: \<open>cpu\<close> is \<open>cpu->id\<close>, \<open>cr2\<close> the faulting address and \<open>dump\<close> the text of \<open>procdump\<close>. A
  user trap that nothing handles marks the process as killed.\<close>

definition trap_irq :: "uint \<Rightarrow> uint \<Rightarrow> uchar list \<Rightarrow> (nat \<times> nat) option \<Rightarrow> frame \<Rightarrow> 'a sys_scheme \<Rightarrow> 'a sys_scheme res" where
  "trap_irq cpu cr2 dump cur f s =
     (if fr_trapno f = T_IRQ0 + IRQ_TIMER then
        if cpu = 0 then wakeup ChTicks (s\<lparr>ticks := ticks s + 1\<rparr>) else Ok s
      else if fr_trapno f = T_IRQ0 + IRQ_IDE then Ok s
      else if fr_trapno f = T_IRQ0 + IRQ_IDE + 1 then Ok s
      else if fr_trapno f = T_IRQ0 + IRQ_KBD then
        rbind (kbdintr dump (kbdst s) (cons s)) (\<lambda>(k, c). Ok (s\<lparr>kbdst := k, cons := c\<rparr>))
      else if fr_trapno f = T_IRQ0 + IRQ_COM1 then rbind (uartintr dump (cons s)) (\<lambda>c. Ok (s\<lparr>cons := c\<rparr>))
      else if fr_trapno f = T_IRQ0 + 7 \<or> fr_trapno f = T_IRQ0 + IRQ_SPURIOUS then
        kprint (\<lambda>_. []) (''cpu%d: spurious interrupt at %x:%x'' @ [CHR 0x0A]) [cpu, fr_cs f, fr_eip f] s
      else
        case cur of
          Some (cp, ct) \<Rightarrow>
            if fr_cs f AND 3 = 0 then
              rbind (kprint (\<lambda>_. []) (''unexpected trap %d from cpu %d eip %x (cr2=0x%x)'' @ [CHR 0x0A])
                       [fr_trapno f, cpu, fr_eip f, cr2] s) (\<lambda>_. Panic ''trap'')
            else
              rbind (kprint (name_str (procs s ! cp)) (''pid %d %s: trap %d err %d on cpu %d eip 0x%x addr 0x%x--kill proc'' @ [CHR 0x0A])
                       [word_of_int (ppid (procs s ! cp)), 1, fr_trapno f, fr_err f, cpu, fr_eip f, cr2] s) (\<lambda>s.
              Ok (set_proc cp ((procs s ! cp)\<lparr>pkilled := True\<rparr>) s))
        | None \<Rightarrow>
            rbind (kprint (\<lambda>_. []) (''unexpected trap %d from cpu %d eip %x (cr2=0x%x)'' @ [CHR 0x0A])
                     [fr_trapno f, cpu, fr_eip f, cr2] s) (\<lambda>_. Panic ''trap''))"

text \<open>\<open>if(proc && proc->killed && (tf->cs&3) == DPL_USER) exit();\<close> The result says whether the thread has ended.\<close>

definition exit_if_killed :: "addr \<Rightarrow> (nat \<times> nat) option \<Rightarrow> frame \<Rightarrow> 'a sys_scheme \<Rightarrow> (bool \<times> 'a sys_scheme) res" where
  "exit_if_killed e cur f s =
     (case cur of
        Some (cp, ct) \<Rightarrow>
          if pkilled (procs s ! cp) \<and> fr_cs f AND 3 = 3 then rbind (exit e cp ct s) (\<lambda>s. Ok (True, s)) else Ok (False, s)
      | None \<Rightarrow> Ok (False, s))"

definition trap_syscall :: "linked \<Rightarrow> nat \<Rightarrow> nat \<Rightarrow> addr \<Rightarrow> 'a sys_scheme \<Rightarrow> (sysret \<times> 'a sys_scheme) res" where
  "trap_syscall L cp ct tf s =
     (if pkilled (procs s ! cp) then rbind (exit (l_end L) cp ct s) (\<lambda>s. Ok (Gone, s))
      else rbind (syscall L cp ct (set_thread cp ct ((the_thread cp ct s)\<lparr>ttf := tf\<rparr>) s)) (\<lambda>(r, s).
           case r of
             Ret x \<Rightarrow> if pkilled (procs s ! cp) then rbind (exit (l_end L) cp ct s) (\<lambda>s. Ok (Gone, s)) else Ok (r, s)
           | _ \<Rightarrow> Ok (r, s)))"

text \<open>After a clock tick the thread yields; \<open>trap_resumed\<close> is what is left of \<open>trap\<close> when it runs again.\<close>

definition trap_resumed :: "linked \<Rightarrow> (nat \<times> nat) option \<Rightarrow> frame \<Rightarrow> 'a sys_scheme \<Rightarrow> (sysret \<times> 'a sys_scheme) res" where
  "trap_resumed L cur f s =
     rbind (exit_if_killed (l_end L) cur f s) (\<lambda>(gone, s). Ok (if gone then Gone else Ret 0, s))"

definition trap :: "linked \<Rightarrow> uint \<Rightarrow> uint \<Rightarrow> uchar list \<Rightarrow> (nat \<times> nat) option \<Rightarrow> addr \<Rightarrow> 'a sys_scheme \<Rightarrow> (sysret \<times> 'a sys_scheme) res" where
  "trap L cpu cr2 dump cur tf s =
     rbind (read_frame (case cur of None \<Rightarrow> 0 | Some (cp, ct) \<Rightarrow> ppgdir (procs s ! cp)) tf (kk s)) (\<lambda>f.
     if fr_trapno f = T_SYSCALL then
       (case cur of None \<Rightarrow> Fault ''proc'' | Some (cp, ct) \<Rightarrow> trap_syscall L cp ct tf s)
     else
       rbind (trap_irq cpu cr2 dump cur f s) (\<lambda>s.
       rbind (exit_if_killed (l_end L) cur f s) (\<lambda>(gone, s).
       if gone then Ok (Gone, s)
       else case cur of
              Some (cp, ct) \<Rightarrow>
                if tstate (the_thread cp ct s) = RUNNING \<and> fr_trapno f = T_IRQ0 + IRQ_TIMER
                then rbind (yield cp ct s) (\<lambda>s. Ok (Yielded, s))
                else trap_resumed L cur f s
            | None \<Rightarrow> trap_resumed L cur f s)))"

end
