(* ===== verification/Xv6_Sched.thy ===== *)
theory Xv6_Sched
  imports Xv6_Proc
begin

text \<open>
  The scheduler of \<^verbatim>\<open>proc.c\<close>: a pass over the process table runs every thread that stays runnable until its turn.
\<close>

section \<open>Order on thread states\<close>

fun state_num :: "pstate \<Rightarrow> nat" where
  "state_num UNUSED = 0"
| "state_num EMBRYO = 1"
| "state_num SLEEPING = 2"
| "state_num RUNNABLE = 3"
| "state_num RUNNING = 4"
| "state_num ZOMBIE = 5"

lemma state_num_inj [simp]: "state_num a = state_num b \<longleftrightarrow> a = b"
  by (cases a; cases b) simp_all

text \<open>The order of the C enumeration.\<close>

instantiation pstate :: linorder
begin

definition less_eq_pstate :: "pstate \<Rightarrow> pstate \<Rightarrow> bool" where
  "less_eq_pstate a b \<longleftrightarrow> state_num a \<le> state_num b"

definition less_pstate :: "pstate \<Rightarrow> pstate \<Rightarrow> bool" where
  "less_pstate a b \<longleftrightarrow> state_num a < state_num b"

instance
  by standard (auto simp: less_eq_pstate_def less_pstate_def)

end

section \<open>Selectors after updates of the tables\<close>

named_theorems table_simps "selectors after set_proc, set_row and set_thread"

lemma set_proc_simps [table_simps]:
  "procs (set_proc i p s) = (procs s)[i := p]" "tTable (set_proc i p s) = tTable s"
  "kk (set_proc i p s) = kk s" "files (set_proc i p s) = files s" "initproc (set_proc i p s) = initproc s"
  "nextpid (set_proc i p s) = nextpid s" "nexttid (set_proc i p s) = nexttid s" "inodes (set_proc i p s) = inodes s"
  "fl (set_proc i p s) = fl s" "pipes (set_proc i p s) = pipes s"
  by (simp_all add: set_proc_def)

lemma set_row_simps [table_simps]:
  "procs (set_row r ts s) = procs s" "tTable (set_row r ts s) = (tTable s)[r := ts]"
  "kk (set_row r ts s) = kk s" "files (set_row r ts s) = files s" "initproc (set_row r ts s) = initproc s"
  "nextpid (set_row r ts s) = nextpid s" "nexttid (set_row r ts s) = nexttid s" "inodes (set_row r ts s) = inodes s"
  "fl (set_row r ts s) = fl s" "pipes (set_row r ts s) = pipes s"
  by (simp_all add: set_row_def)

lemma set_thread_simps [table_simps]:
  "procs (set_thread r i t s) = procs s" "tTable (set_thread r i t s) = (tTable s)[r := (tTable s ! r)[i := t]]"
  "kk (set_thread r i t s) = kk s" "files (set_thread r i t s) = files s" "initproc (set_thread r i t s) = initproc s"
  "nextpid (set_thread r i t s) = nextpid s" "nexttid (set_thread r i t s) = nexttid s"
  "inodes (set_thread r i t s) = inodes s" "fl (set_thread r i t s) = fl s" "pipes (set_thread r i t s) = pipes s"
  by (simp_all add: set_thread_def table_simps)

section \<open>Every runnable thread gets its turn\<close>

text \<open>
  What the scheduler needs of the tables: a process with threads has its own row of the thread table,
  and a page directory as soon as one of the threads is runnable.
\<close>

definition sched_ok :: "'a sys_scheme \<Rightarrow> bool" where
  "sched_ok s \<longleftrightarrow> length (tTable s) = NPROC \<and> (\<forall>r < NPROC. length (tTable s ! r) = NTHREAD) \<and>
     (\<forall>q < NPROC. procIsReady (procs s ! q) \<longrightarrow> threads (procs s ! q) = Some q) \<and>
     (\<forall>q < NPROC. threads (procs s ! q) \<noteq> None \<longrightarrow> threads (procs s ! q) = Some q \<and>
        (\<forall>u < NTHREAD. tstate (tTable s ! q ! u) = RUNNABLE \<longrightarrow> ppgdir (procs s ! q) \<noteq> 0))"

lemma sched_ok_ready: "sched_ok s \<Longrightarrow> q < NPROC \<Longrightarrow> procIsReady (procs s ! q) \<Longrightarrow> threads (procs s ! q) = Some q"
  unfolding sched_ok_def by blast

text \<open>Thread \<open>t\<close> of process \<open>p\<close> waits for its turn.\<close>

definition waiting :: "nat \<Rightarrow> nat \<Rightarrow> 'a sys_scheme \<Rightarrow> bool" where
  "waiting p t s \<longleftrightarrow> procIsReady (procs s ! p) \<and> threads (procs s ! p) = Some p \<and> tstate (tTable s ! p ! t) = RUNNABLE"

text \<open>Thread \<open>t\<close> of process \<open>p\<close> has the processor.\<close>

definition on_cpu :: "nat \<Rightarrow> nat \<Rightarrow> 'a sys_scheme \<Rightarrow> bool" where
  "on_cpu p t s \<longleftrightarrow> threads (procs s ! p) = Some p \<and> tstate (tTable s ! p ! t) = RUNNING \<and> ppgdir (procs s ! p) \<noteq> 0"

text \<open>
  What a thread may do while it runs: it leaves the tables in order, and it does not take another waiting
  thread \<open>(p, t)\<close> out of the queue.
\<close>

definition fair_run :: "(nat \<Rightarrow> nat \<Rightarrow> 'a sys_scheme \<Rightarrow> 'a sys_scheme) \<Rightarrow> nat \<Rightarrow> nat \<Rightarrow> bool" where
  "fair_run run p t \<longleftrightarrow> (\<forall>q < NPROC. \<forall>u < NTHREAD. \<forall>s. sched_ok s \<longrightarrow> on_cpu q u s \<longrightarrow>
     sched_ok (run q u s) \<and> ((q, u) \<noteq> (p, t) \<longrightarrow> waiting p t s \<longrightarrow> waiting p t (run q u s)))"

lemma dispatch:
  assumes f: "fair_run run p t" and ok: "sched_ok s" and q: "q < NPROC" "u < NTHREAD" "threads (procs s ! q) \<noteq> None"
    and r: "tstate (tTable s ! q ! u) = RUNNABLE"
  defines "s' \<equiv> run q u (set_thread q u ((tTable s ! q ! u)\<lparr>tstate := RUNNING\<rparr>) s)"
  shows "switchuvm q s = Ok s" "sched_ok s'" "(q, u) \<noteq> (p, t) \<Longrightarrow> waiting p t s \<Longrightarrow> waiting p t s'"
proof -
  let ?t = "set_thread q u ((tTable s ! q ! u)\<lparr>tstate := RUNNING\<rparr>) s"
  have row: "threads (procs s ! q) = Some q" "ppgdir (procs s ! q) \<noteq> 0" and len: "q < length (tTable s)" "u < length (tTable s ! q)"
    using ok q r by (auto simp: sched_ok_def)
  show "switchuvm q s = Ok s" using row by (simp add: switchuvm_def)
  have "on_cpu q u ?t" using row len by (simp add: on_cpu_def table_simps)
  moreover have "sched_ok ?t"
  proof -
    have run: "tstate (tTable ?t ! q' ! u') = RUNNABLE \<Longrightarrow> tstate (tTable s ! q' ! u') = RUNNABLE" for q' u'
      using len by (cases "q' = q"; cases "u' = u") (simp_all add: table_simps)
    have same: "length (tTable ?t ! r') = length (tTable s ! r')" "procs ?t = procs s" "length (tTable ?t) = length (tTable s)" for r'
      using len by (cases "r' = q"; simp add: table_simps)+
    show ?thesis unfolding sched_ok_def same using ok [unfolded sched_ok_def] run by blast
  qed
  moreover have "waiting p t ?t" if "(q, u) \<noteq> (p, t)" "waiting p t s"
    using that len by (auto simp: waiting_def table_simps nth_list_update)
  ultimately show "sched_ok s'" "(q, u) \<noteq> (p, t) \<Longrightarrow> waiting p t s \<Longrightarrow> waiting p t s'"
    using f q(1,2) unfolding fair_run_def s'_def by blast+
qed

lemma sched_threads_turn:
  assumes f: "fair_run run p t" and "sched_ok s" and q: "q < NPROC" and "\<forall>u \<in> set ts. u < NTHREAD"
  shows "\<exists>tr s'. sched_threads run q q ts s = Ok (tr, s') \<and> sched_ok s' \<and>
    (waiting p t s \<longrightarrow> (p, t) \<in> set tr \<or> waiting p t s' \<and> \<not> (q = p \<and> t \<in> set ts))"
  using assms(2,4)
proof (induction ts arbitrary: s)
  case (Cons u ts)
  have u: "u < NTHREAD" "\<forall>u \<in> set ts. u < NTHREAD" using Cons.prems(2) by auto
  consider "threads (procs s ! q) = None" | "threads (procs s ! q) \<noteq> None" "tstate (tTable s ! q ! u) \<noteq> RUNNABLE"
    | "threads (procs s ! q) \<noteq> None" "tstate (tTable s ! q ! u) = RUNNABLE" by blast
  then show ?case
  proof cases
    case 1
    then have "q = p \<Longrightarrow> \<not> waiting p t s" by (auto simp: waiting_def)
    then show ?thesis using 1 Cons.prems(1) by auto
  next
    case 2
    then have "waiting p t s \<Longrightarrow> \<not> (q = p \<and> u = t)" by (auto simp: waiting_def)
    then show ?thesis using 2 Cons.IH [OF Cons.prems(1) u(2)] by auto
  next
    case 3
    define s1 where "s1 = run q u (set_thread q u ((tTable s ! q ! u)\<lparr>tstate := RUNNING\<rparr>) s)"
    note d = dispatch [OF f Cons.prems(1) q u(1) 3, folded s1_def]
    obtain tr s' where s': "sched_threads run q q ts s1 = Ok (tr, s')" "sched_ok s'"
        "waiting p t s1 \<longrightarrow> (p, t) \<in> set tr \<or> waiting p t s' \<and> \<not> (q = p \<and> t \<in> set ts)"
      using Cons.IH [OF d(2) u(2)] by auto
    have "sched_threads run q q (u # ts) s = Ok ((q, u) # tr, s')"
      using 3 d(1) s'(1) by (auto simp: s1_def)
    then show ?thesis using d(3) s'(2,3) by (cases "(q, u) = (p, t)") auto
  qed
qed simp

lemma sched_procs_turn:
  assumes f: "fair_run run p t" and "sched_ok s" and "\<forall>q \<in> set ps. q < NPROC" and t: "t < NTHREAD"
  shows "\<exists>tr s'. sched_procs run ps s = Ok (tr, s') \<and> sched_ok s' \<and>
    (waiting p t s \<longrightarrow> (p, t) \<in> set tr \<or> waiting p t s' \<and> p \<notin> set ps)"
  using assms(2,3)
proof (induction ps arbitrary: s)
  case (Cons q ps)
  have q: "q < NPROC" "\<forall>q \<in> set ps. q < NPROC" using Cons.prems(2) by auto
  show ?case
  proof (cases "procIsReady (procs s ! q)")
    case True
    then have row: "threads_of q s = Ok q" using sched_ok_ready [OF Cons.prems(1) q(1)] by (simp add: threads_of_def)
    have ts: "\<forall>u \<in> set [0..<NTHREAD]. u < NTHREAD" "t \<in> set [0..<NTHREAD]" using t by (simp_all only: set_upt) auto
    obtain tr s1 where s1: "sched_threads run q q [0..<NTHREAD] s = Ok (tr, s1)" "sched_ok s1"
        "waiting p t s \<longrightarrow> (p, t) \<in> set tr \<or> waiting p t s1 \<and> q \<noteq> p"
      using sched_threads_turn [OF f Cons.prems(1) q(1) ts(1)] ts(2) by blast
    obtain us s' where s': "sched_procs run ps s1 = Ok (us, s')" "sched_ok s'"
        "waiting p t s1 \<longrightarrow> (p, t) \<in> set us \<or> waiting p t s' \<and> p \<notin> set ps"
      using Cons.IH [OF s1(2) q(2)] by blast
    have "sched_procs run (q # ps) s = Ok (tr @ us, s')"
      using True row s1(1) s'(1) by (simp del: upt_rec_numeral)
    then show ?thesis using s1(3) s'(2,3) by auto
  next
    case False
    then have "waiting p t s \<Longrightarrow> q \<noteq> p" by (auto simp: waiting_def)
    then show ?thesis using False Cons.IH [OF Cons.prems(1) q(2)] by auto
  qed
qed simp

text \<open>C8: If every thread that runs leaves the tables in order and does not make the waiting thread \<open>t\<close> of
  process \<open>p\<close> unrunnable, then one pass of the scheduler completes without a panic or a fault and gives the processor to that
  thread.\<close>

theorem scheduler_runs_waiting:
  assumes "fair_run run p t" "sched_ok s" "p < NPROC" "t < NTHREAD" "waiting p t s"
  shows "\<exists>tr s'. scheduler_pass run s = Ok (tr, s') \<and> (p, t) \<in> set tr \<and> sched_ok s'"
  using sched_procs_turn [OF assms(1,2) _ assms(4), of "[0..<NPROC]"] assms(3,5)
  by (auto simp: scheduler_pass_def simp del: upt_rec_numeral)

text \<open>The tables at boot, and with a first process whose only thread is runnable.\<close>

definition unused_thread :: kthread where
  "unused_thread = \<lparr>tkstack = 0, tstate = UNUSED, ttid = 0, tparent = None, ttf = 0, tcontext = 0, tchan = None,
     tptlock = False, tkernelStack = 0\<rparr>"

definition unused_proc :: proc where
  "unused_proc = \<lparr>psz = 0, ppgdir = 0, pkstack = 0, prstate = UNUSED, ppid = 0, pparent = None, pkilled = False,
     ofile = replicate NOFILE None, pcwd = None, pname = [], threads = None\<rparr>"

definition closed_file :: kfile where
  "closed_file = \<lparr>ftype = FD_NONE, fref = 0, freadable = False, fwritable = False, fpipe = 0, fip = 0, foff = 0\<rparr>"

definition free_inode :: inode where
  "free_inode = \<lparr>idev = 0, inum = 0, iref = 0, iflags = 0, itype = 0, imajor = 0, iminor = 0, inlink = 0, isize = 0,
     iaddrs = replicate 13 0\<rparr>"

definition sys_boot :: sys where
  "sys_boot = \<lparr>fl = reboot (\<lambda>_. replicate BSIZE 0) 1000, icache_lock = llock log_zero, inodes = replicate NINODE free_inode,
     fwakes = [], kk = kmem_boot, ftable_lock = llock log_zero, files = replicate NFILE closed_file, pipes = (\<lambda>_. None),
     cons = cons_boot, procs = replicate NPROC unused_proc, tTable = replicate NPROC (replicate NTHREAD unused_thread),
     initproc = None, nextpid = 1, nexttid = 1, first = True, ticks = 0, kbdst = \<lparr>kshift = 0, kqueue = []\<rparr>\<rparr>"

definition one_proc :: sys where
  "one_proc = set_thread 0 0 (unused_thread\<lparr>tstate := RUNNABLE\<rparr>)
     (set_proc 0 (unused_proc\<lparr>prstate := RUNNABLE, threads := Some 0, ppgdir := 0x80400000, ppid := 1\<rparr>) sys_boot)"

text \<open>A thread that gives up the processor at once.\<close>

definition yields :: "nat \<Rightarrow> nat \<Rightarrow> sys \<Rightarrow> sys" where
  "yields q u s = set_thread q u ((the_thread q u s)\<lparr>tstate := RUNNABLE\<rparr>) s"

lemma yields_yield: "q < length (tTable s) \<Longrightarrow> u < length (tTable s ! q) \<Longrightarrow> yield q u s = Ok (yields q u s)"
  by (auto simp: yield_def yields_def sched_def the_thread_def table_simps nth_list_update)

lemma yields_fair: "fair_run yields p t"
  unfolding fair_run_def
proof (intro allI impI conjI)
  fix q u and s :: sys assume q: "q < NPROC" "u < NTHREAD" "sched_ok s" "on_cpu q u s"
  have len: "q < length (tTable s)" "u < length (tTable s ! q)" using q by (auto simp: sched_ok_def)
  have run: "tstate (tTable (yields q u s) ! q' ! u') = RUNNABLE \<longleftrightarrow> q' = q \<and> u' = u \<or> tstate (tTable s ! q' ! u') = RUNNABLE" for q' u'
    using len by (cases "q' = q"; cases "u' = u") (simp_all add: yields_def table_simps)
  have same: "length (tTable (yields q u s) ! r') = length (tTable s ! r')" "procs (yields q u s) = procs s"
      "length (tTable (yields q u s)) = length (tTable s)" for r'
    using len by (cases "r' = q"; simp add: yields_def table_simps)+
  show "sched_ok (yields q u s)"
    unfolding sched_ok_def same run using q(3,4) unfolding sched_ok_def on_cpu_def by blast
  show "waiting p t (yields q u s)" if "waiting p t s" using that by (simp add: waiting_def same run)
qed

lemma one_proc_ok: "sched_ok one_proc" "waiting 0 0 one_proc"
  unfolding sched_ok_def waiting_def
  by (auto simp: one_proc_def sys_boot_def table_simps nth_list_update unused_proc_def unused_thread_def procIsReady_def)

theorem scheduler_runs_waiting_witness:
  "\<exists>tr s'. scheduler_pass yields one_proc = Ok (tr, s') \<and> (0, 0) \<in> set tr"
  using scheduler_runs_waiting [OF yields_fair one_proc_ok(1) _ _ one_proc_ok(2)] by auto

end
