(* ===== verification/Xv6_Frame.thy ===== *)
theory Xv6_Frame
  imports Xv6_Syscall
begin

text \<open>
  What the routines leave alone. The file system changes the log, the inode cache and the pending wakeups, and through the
  console device the console; the rest of the kernel state (the page allocator, the open files, the pipes and the
  process tables) it keeps. \<open>keeps\<close> is that part of the state.
\<close>

definition keeps :: "'a kern_scheme \<Rightarrow> kmem \<times> kfile list \<times> (addr \<Rightarrow> pipe option) \<times> 'a" where
  "keeps s = (kk s, files s, pipes s, kern.more s)"

named_theorems keep "routines that keep the rest of the state"

text \<open>A routine that changes only the fields of the file system.\<close>

lemma fs_more_keeps: "fs.more s' = fs.more s \<Longrightarrow> keeps s' = keeps s"
proof -
  assume "fs.more s' = fs.more s"
  then have "kern.kern_ext (kk s') (ftable_lock s') (files s') (pipes s') (cons s') (kern.more s') =
      kern.kern_ext (kk s) (ftable_lock s) (files s) (pipes s) (cons s) (kern.more s)"
    by (cases s, cases s') simp
  then show ?thesis by (simp add: keeps_def)
qed

lemma keeps_sel:
  assumes "keeps s' = keeps s"
  shows "kk s' = kk s" "files s' = files s" "pipes s' = pipes s"
  using assms by (simp_all add: keeps_def)

lemma keeps_procs:
  fixes s s' :: "'a sys_scheme"
  assumes "keeps s' = keeps s"
  shows "procs s' = procs s" "tTable s' = tTable s" "initproc s' = initproc s" "nextpid s' = nextpid s" "nexttid s' = nexttid s"
  using assms by (cases s, cases s', simp add: keeps_def)+

section \<open>The file system\<close>

lemma set_inode_more [simp]: "fs.more (set_inode i ip s) = fs.more s" "keeps (set_inode i ip s') = keeps s'"
  by (simp_all add: set_inode_def keeps_def)

lemma with_log_more [keep]: "with_log f s = Ok s' \<Longrightarrow> fs.more s' = fs.more s"
  by (auto simp: with_log_def)

lemma iget_more [keep]: "iget dev n s = Ok (i, s') \<Longrightarrow> fs.more s' = fs.more s"
  by (auto simp: iget_def split: option.splits)

lemma idup_more [simp]: "fs.more (snd (idup i s)) = fs.more s"
  by (simp add: idup_def)

lemma ialloc_more [keep]: "ialloc dev type s = Ok (i, s') \<Longrightarrow> fs.more s' = fs.more s"
  by (auto simp: ialloc_def in_log_def dest!: keep)

lemma ilock_more [keep]: "ilock i s = Ok s' \<Longrightarrow> fs.more s' = fs.more s"
  by (cases i) (auto simp: Let_def split: if_splits)

lemma iunlock_more [keep]: "iunlock i s = Ok s' \<Longrightarrow> fs.more s' = fs.more s"
  by (cases i) (auto simp: Let_def split: if_splits)

declare ilock.simps [simp del] iunlock.simps [simp del]

lemma iput_more [keep]: "iput i s = Ok s' \<Longrightarrow> fs.more s' = fs.more s"
  by (auto simp: iput_def Let_def split: if_splits)

lemma iunlockput_more [keep]: "iunlockput i s = Ok s' \<Longrightarrow> fs.more s' = fs.more s"
  by (auto simp: iunlockput_def dest!: keep)

lemma iupdate_with_more [keep]: "iupdate_with f i s = Ok s' \<Longrightarrow> fs.more s' = fs.more s"
  by (auto simp: iupdate_with_def Let_def dest!: keep)

lemmas fs_keep [keep] = keep [THEN fs_more_keeps]

lemma idup_keep [simp]: "keeps (snd (idup i s)) = keeps s"
  by (simp add: idup_def keeps_def)

section \<open>With the console device\<close>

lemma keeps_cons [simp]: "keeps (s\<lparr>cons := c\<rparr>) = keeps s" "keeps (s\<lparr>fl := l\<rparr>) = keeps s"
  by (simp_all add: keeps_def)

lemma consoleread_keep: "consoleread killed i n s = Ok (r, s') \<Longrightarrow> keeps s' = keeps s"
proof -
  assume a: "consoleread killed i n s = Ok (r, s')"
  then obtain x where x: "iunlock (Some i) s = Ok x" by (auto simp: consoleread_def)
  obtain c bs m out where "consoleread_loop killed (uint n) (nat (sint n)) (cons x) = (c, bs, m, out)"
    by (cases "consoleread_loop killed (uint n) (nat (sint n)) (cons x)" rule: prod_cases4)
  then show ?thesis using a x by (cases out) (auto simp: consoleread_def dest!: fs_keep)
qed

lemma consolewrite_keep: "consolewrite i src s = Ok (r, s') \<Longrightarrow> keeps s' = keeps s"
  by (auto simp: consolewrite_def dest!: fs_keep)

lemma readi_keep [keep]: "readi (devsw_table k) i off n s = Ok (r, s') \<Longrightarrow> keeps s' = keeps s"
  by (auto simp: readi_def devsw_table_def Let_def split: if_splits option.splits dest: consoleread_keep)

lemma writei_keep [keep]: "writei (devsw_table k) i src off n s = Ok (r, s') \<Longrightarrow> keeps s' = keeps s"
  by (auto simp: writei_def devsw_table_def Let_def split: if_splits option.splits dest: consolewrite_keep)

lemma dirlookup_keep [keep]: "dirlookup (devsw_table k) dp name s = Ok (r, s') \<Longrightarrow> keeps s' = keeps s"
proof -
  have loop: "dirlookup_loop (devsw_table k) dp name offs s = Ok (r, s') \<Longrightarrow> keeps s' = keeps s" for offs s
    by (induction offs arbitrary: s) (auto split: if_splits dest!: keep)
  show "dirlookup (devsw_table k) dp name s = Ok (r, s') \<Longrightarrow> keeps s' = keeps s"
    by (auto simp: dirlookup_def split: if_splits dest: loop)
qed

lemma dirlink_keep [keep]: "dirlink (devsw_table k) dp name n s = Ok (r, s') \<Longrightarrow> keeps s' = keeps s"
proof -
  have loop: "dirlink_find (devsw_table k) dp offs lst s = Ok (r, s') \<Longrightarrow> keeps s' = keeps s" for offs lst s s' r
    by (induction offs arbitrary: s) (auto split: if_splits dest!: keep)
  show "dirlink (devsw_table k) dp name n s = Ok (r, s') \<Longrightarrow> keeps s' = keeps s"
    by (auto simp: dirlink_def Let_def split: if_splits option.splits dest!: keep loop)
qed

lemma namex_keep [keep]: "namex (devsw_table k) cwd path parent s = Ok (r, s') \<Longrightarrow> keeps s' = keeps s"
proof -
  have loop: "namex_loop (devsw_table k) parent ip path name s = Ok (r, s') \<Longrightarrow> keeps s' = keeps s" for parent ip name s
  proof (induction path arbitrary: parent ip name s rule: length_induct)
    case (1 path)
    have IH: "length q < length path \<Longrightarrow> namex_loop (devsw_table k) parent ip q name s = Ok (r, s') \<Longrightarrow> keeps s' = keeps s" for q parent ip name s
      using 1(1) by blast
    show ?case using 1(2)
      by (subst (asm) namex_loop.simps, auto split: if_splits option.splits dest!: keep IH [rotated])
        (erule skipelem_shorter)+
  qed
  show "namex (devsw_table k) cwd path parent s = Ok (r, s') \<Longrightarrow> keeps s' = keeps s"
    by (auto simp: namex_def idup_def keeps_def split: if_splits dest!: loop keep)
qed

end
