(* ===== verification/Xv6_Tables.thy ===== *)
theory Xv6_Tables
  imports Xv6_Frame Xv6_Sched "HOL-Library.Multiset"
begin

text \<open>
  The tables of the kernel under its entry point \<open>trap\<close>: open files, descriptors, processes and threads. \<open>tables\<close> is the
  part of the state that the invariant speaks about; each routine is first described by what it does to that part.
\<close>

declare ilock.simps [simp del] iunlock.simps [simp del]

section \<open>The view\<close>

record tabs =
  trefs :: "int list"
  tofile :: "nat option list list"
  tpst :: "pstate list"
  tthr :: "nat option list"
  tst :: "pstate list list"

definition tables :: "'a sys_scheme \<Rightarrow> tabs" where
  "tables s = \<lparr>trefs = map fref (files s), tofile = map ofile (procs s), tpst = map prstate (procs s),
     tthr = map threads (procs s), tst = map (map tstate) (tTable s)\<rparr>"

lemma tables_keeps [keep]: "keeps s' = keeps s \<Longrightarrow> tables s' = tables s"
  by (simp add: tables_def keeps_sel [of s' s] keeps_procs [of s' s])

lemma map_update_id: "(i < length xs \<Longrightarrow> f y = f (xs ! i)) \<Longrightarrow> map f (xs[i := y]) = map f xs"
  by (cases "i < length xs") (auto simp: list_eq_iff_nth_eq nth_list_update)

text \<open>Updates that the tables do not see.\<close>

lemma tables_set_proc:
  assumes "ofile p = ofile (procs s ! i)" "prstate p = prstate (procs s ! i)" "threads p = threads (procs s ! i)"
  shows "tables (set_proc i p s) = tables s"
  using assms by (simp add: tables_def table_simps map_update_id)

lemma tables_set_row: "map tstate ts = map tstate (tTable s ! r) \<Longrightarrow> tables (set_row r ts s) = tables s"
  by (simp add: tables_def table_simps map_update_id)

lemma tables_set_thread: "tstate t = tstate (tTable s ! r ! i) \<Longrightarrow> tables (set_thread r i t s) = tables s"
  by (simp add: set_thread_def tables_set_row map_update_id)

lemma tables_set_file: "fref f = fref (files s ! i) \<Longrightarrow> tables (set_file i f s) = tables s"
  by (simp add: tables_def set_file_def map_update_id)

lemma tables_upd [simp]:
  "tables (s\<lparr>kk := k\<rparr>) = tables s" "tables (s\<lparr>cons := c\<rparr>) = tables s" "tables (s\<lparr>pipes := ps\<rparr>) = tables s"
  "tables (s\<lparr>fwakes := w\<rparr>) = tables s" "tables (s\<lparr>nextpid := n\<rparr>) = tables s" "tables (s\<lparr>nexttid := n\<rparr>) = tables s"
  "tables (s\<lparr>initproc := ip\<rparr>) = tables s" "tables (s\<lparr>first := b\<rparr>) = tables s" "tables (s\<lparr>ticks := t\<rparr>) = tables s"
  "tables (s\<lparr>kbdst := kb\<rparr>) = tables s" "tables (s\<lparr>fl := l\<rparr>) = tables s"
  by (simp_all add: tables_def)

lemmas tables_same = tables_set_proc tables_set_row tables_set_thread tables_set_file

section \<open>The invariant\<close>

text \<open>The shape of the tables: their lengths, and every index in range.\<close>

definition shape :: "tabs \<Rightarrow> bool" where
  "shape v \<longleftrightarrow> length (trefs v) = NFILE \<and> length (tofile v) = NPROC \<and> length (tpst v) = NPROC \<and> length (tthr v) = NPROC \<and>
     length (tst v) = NPROC \<and>
     (\<forall>p < NPROC. length (tofile v ! p) = NOFILE \<and> length (tst v ! p) = NTHREAD \<and>
        (\<forall>f. Some f \<in> set (tofile v ! p) \<longrightarrow> f < NFILE) \<and> tthr v ! p \<in> {None, Some p})"

text \<open>How many descriptors refer to open file \<open>f\<close>.\<close>

definition fdcount :: "tabs \<Rightarrow> nat \<Rightarrow> nat" where
  "fdcount v f = sum_list (map (\<lambda>fs. count_list fs (Some f)) (tofile v))"

text \<open>\<open>H\<close> holds the references in the hands of the running system call.\<close>

definition refs_ok :: "nat multiset \<Rightarrow> tabs \<Rightarrow> bool" where
  "refs_ok H v \<longleftrightarrow> (\<forall>f < NFILE. trefs v ! f = int (fdcount v f) + int (count H f)) \<and> (\<forall>f \<in># H. f < NFILE)"

text \<open>A process that is unused or a zombie has no descriptors; any other one has a live thread. \<open>X\<close> holds the processes that
  are exempt while they exit.\<close>

definition dead :: "pstate \<Rightarrow> bool" where
  "dead st \<longleftrightarrow> st = UNUSED \<or> st = ZOMBIE"

definition states_ok :: "nat set \<Rightarrow> tabs \<Rightarrow> bool" where
  "states_ok X v \<longleftrightarrow> (\<forall>p < NPROC. p \<notin> X \<longrightarrow>
     (if dead (tpst v ! p) then set (tofile v ! p) \<subseteq> {None}
      else tthr v ! p = Some p \<and> (\<exists>st \<in> set (tst v ! p). \<not> dead st)))"

definition tabs_ok :: "nat multiset \<Rightarrow> nat set \<Rightarrow> tabs \<Rightarrow> bool" where
  "tabs_ok H X v \<longleftrightarrow> shape v \<and> refs_ok H v \<and> states_ok X v"

lemmas tabs_defs = tabs_ok_def shape_def refs_ok_def states_ok_def

text \<open>Counting the descriptors.\<close>

lemma count_list_update:
  "i < length xs \<Longrightarrow> count_list (xs[i := y]) z + (if xs ! i = z then 1 else 0) = count_list xs z + (if y = z then 1 else 0)"
proof (induction xs arbitrary: i)
  case (Cons x xs)
  show ?case using Cons.IH [of "i - 1"] Cons.prems by (cases i) (auto split: if_splits)
qed simp

lemma fdcount_upd:
  assumes "p < length (tofile v)"
  shows "fdcount (v\<lparr>tofile := (tofile v)[p := fs]\<rparr>) f + count_list (tofile v ! p) (Some f) = fdcount v f + count_list fs (Some f)"
proof -
  have "count_list (tofile v ! p) (Some f) \<le> sum_list (map (\<lambda>fs. count_list fs (Some f)) (tofile v))"
    using assms by (intro member_le_sum_list) auto
  then show ?thesis using assms by (simp add: fdcount_def map_update sum_list_update)
qed

lemma fdcount_cong: "tofile v' = tofile v \<Longrightarrow> fdcount v' f = fdcount v f"
  by (simp add: fdcount_def)

lemma fdcount_pos:
  assumes "shape v" "p < NPROC" "fd < NOFILE" "tofile v ! p ! fd = Some f"
  shows "0 < fdcount v f" "f < NFILE"
proof -
  have fs: "tofile v ! p \<in> set (tofile v)" "Some f \<in> set (tofile v ! p)"
    using assms nth_mem [of fd "tofile v ! p"] by (auto simp: shape_def)
  show "f < NFILE" using fs(2) assms(1,2) by (auto simp: shape_def)
  have "0 < count_list (tofile v ! p) (Some f)" using fs(2) by (metis count_list_0_iff gr0I)
  also have "\<dots> \<le> fdcount v f" unfolding fdcount_def using fs(1) by (intro member_le_sum_list) auto
  finally show "0 < fdcount v f" .
qed

section \<open>References\<close>

text \<open>Taking, dropping and moving a reference; \<open>upd_ref\<close> and \<open>upd_fd\<close> are the changes of the view.\<close>

definition upd_ref :: "nat \<Rightarrow> int \<Rightarrow> tabs \<Rightarrow> tabs" where
  "upd_ref f n v = v\<lparr>trefs := (trefs v)[f := n]\<rparr>"

definition upd_fd :: "nat \<Rightarrow> nat \<Rightarrow> nat option \<Rightarrow> tabs \<Rightarrow> tabs" where
  "upd_fd p fd f v = v\<lparr>tofile := (tofile v)[p := (tofile v ! p)[fd := f]]\<rparr>"

lemma take_ref:
  assumes "tabs_ok H X v" "f < NFILE"
  shows "tabs_ok (add_mset f H) X (upd_ref f (trefs v ! f + 1) v)"
  using assms by (auto simp: tabs_defs upd_ref_def nth_list_update fdcount_def)

lemma drop_ref:
  assumes "tabs_ok (add_mset f H) X v"
  shows "tabs_ok H X (upd_ref f (trefs v ! f - 1) v)"
  using assms by (auto simp: tabs_defs upd_ref_def nth_list_update fdcount_def)

lemma held_ref: "tabs_ok H X v \<Longrightarrow> f \<in># H \<Longrightarrow> f < NFILE \<and> 1 \<le> trefs v ! f"
  by (auto simp: tabs_ok_def refs_ok_def simp flip: count_greater_zero_iff)

text \<open>A reference that is held becomes a descriptor, and back.\<close>

lemma fdcount_upd_fd:
  assumes "shape v" "p < NPROC" "fd < NOFILE"
  shows "fdcount (upd_fd p fd g v) f + (if tofile v ! p ! fd = Some f then 1 else 0) = fdcount v f + (if g = Some f then 1 else 0)"
proof -
  have len: "p < length (tofile v)" "fd < length (tofile v ! p)" using assms by (auto simp: shape_def)
  show ?thesis
    using fdcount_upd [OF len(1), of "(tofile v ! p)[fd := g]" f] count_list_update [OF len(2), of g "Some f"]
    unfolding upd_fd_def by linarith
qed

lemma shape_upd_fd:
  assumes "shape v" "p < NPROC" "fd < NOFILE" "\<And>f. g = Some f \<Longrightarrow> f < NFILE"
  shows "shape (upd_fd p fd g v)"
proof -
  have "Some f \<in> set ((tofile v ! p)[fd := g]) \<Longrightarrow> f < NFILE" for f
    using assms set_update_subset_insert [of "tofile v ! p" fd g] by (auto simp: shape_def)
  then show ?thesis using assms by (auto simp: shape_def upd_fd_def nth_list_update)
qed

lemma states_upd_fd:
  assumes "shape v" "states_ok X v" "p < NPROC" "p \<in> X \<or> \<not> dead (tpst v ! p) \<or> g = None"
  shows "states_ok X (upd_fd p fd g v)"
proof -
  have "set ((tofile v ! p)[fd := None]) \<subseteq> {None}" if "set (tofile v ! p) \<subseteq> {None}"
    using that set_update_subset_insert [of "tofile v ! p" fd None] by auto
  then show ?thesis using assms by (auto simp: states_ok_def upd_fd_def nth_list_update shape_def)
qed

lemma put_fd:
  assumes "tabs_ok (add_mset f H) X v" "p < NPROC" "fd < NOFILE" "tofile v ! p ! fd = None" "p \<in> X \<or> \<not> dead (tpst v ! p)"
  shows "tabs_ok H X (upd_fd p fd (Some f) v)"
proof -
  have ok: "shape v" "refs_ok (add_mset f H) v" "states_ok X v" using assms(1) by (auto simp: tabs_ok_def)
  have "int (fdcount (upd_fd p fd (Some f) v) g) = int (fdcount v g) + (if f = g then 1 else 0)" for g
    using fdcount_upd_fd [OF ok(1) assms(2,3), of "Some f" g] assms(4) by (simp split: if_splits)
  then have "refs_ok H (upd_fd p fd (Some f) v)" using ok(2) by (auto simp: refs_ok_def upd_fd_def)
  moreover have "f < NFILE" using ok(2) by (auto simp: refs_ok_def)
  ultimately show ?thesis
    using shape_upd_fd [OF ok(1) assms(2,3)] states_upd_fd [OF ok(1,3) assms(2)] assms(5) by (auto simp: tabs_ok_def)
qed

lemma clear_fd:
  assumes "tabs_ok H X v" "p < NPROC" "fd < NOFILE" "tofile v ! p ! fd = Some f"
  shows "tabs_ok (add_mset f H) X (upd_fd p fd None v)"
proof -
  have ok: "shape v" "refs_ok H v" "states_ok X v" using assms(1) by (auto simp: tabs_ok_def)
  have "int (fdcount v g) = int (fdcount (upd_fd p fd None v) g) + (if f = g then 1 else 0)" for g
    using fdcount_upd_fd [OF ok(1) assms(2,3), of None g] assms(4) by (simp split: if_splits)
  then have "refs_ok (add_mset f H) (upd_fd p fd None v)"
    using ok(2) fdcount_pos [OF ok(1) assms(2-4)] by (auto simp: refs_ok_def upd_fd_def)
  then show ?thesis using shape_upd_fd [OF ok(1) assms(2,3)] states_upd_fd [OF ok(1,3) assms(2)] by (auto simp: tabs_ok_def)
qed

section \<open>file.c on the tables\<close>

lemma tables_sel:
  assumes "shape (tables s)"
  shows "length (files s) = NFILE" "length (procs s) = NPROC" "length (tTable s) = NPROC"
    "p < NPROC \<Longrightarrow> ofile (procs s ! p) = tofile (tables s) ! p" "p < NPROC \<Longrightarrow> prstate (procs s ! p) = tpst (tables s) ! p"
    "p < NPROC \<Longrightarrow> threads (procs s ! p) = tthr (tables s) ! p" "p < NPROC \<Longrightarrow> map tstate (tTable s ! p) = tst (tables s) ! p"
    "f < NFILE \<Longrightarrow> fref (files s ! f) = trefs (tables s) ! f"
  using assms by (simp_all add: shape_def tables_def)

lemma tabs_ok_shape: "tabs_ok H X v \<Longrightarrow> shape v"
  by (simp add: tabs_ok_def)

lemmas ok_sel = tables_sel [OF tabs_ok_shape]

lemma tables_ref: "tables (set_file f x s) = upd_ref f (fref x) (tables s)"
  by (simp add: tables_def set_file_def upd_ref_def map_update)

lemma filealloc_tabs:
  assumes "filealloc s = (Some f, s')" "tabs_ok H X (tables s)"
  shows "tabs_ok (add_mset f H) X (tables s')"
proof -
  have f: "f < NFILE" "fref (files s ! f) = 0" "s' = set_file f ((files s ! f)\<lparr>fref := 1\<rparr>) s"
    using assms(1) by (auto simp: filealloc_def find_Some_iff simp del: upt_rec_numeral split: option.splits)
  then have "tables s' = upd_ref f (trefs (tables s) ! f + 1) (tables s)"
    by (simp add: tables_ref ok_sel(8) [OF assms(2), symmetric])
  then show ?thesis using take_ref [OF assms(2) f(1)] by simp
qed

lemma filealloc_none: "filealloc s = (None, s') \<Longrightarrow> s' = s"
  by (auto simp: filealloc_def split: option.splits)

lemma filedup_eq:
  assumes "filedup f s = Ok s'" "shape (tables s)" "f < NFILE"
  shows "tables s' = upd_ref f (trefs (tables s) ! f + 1) (tables s)"
  using assms(1,3) by (auto simp: filedup_def tables_ref tables_sel(8) [OF assms(2)] split: if_splits)

lemma close_pipe_tables: "close_pipe e a w s = Ok s' \<Longrightarrow> tables s' = tables s"
  by (auto simp: close_pipe_def put_pipe_def Let_def split: option.splits prod.splits if_splits)

lemmas same_fs = fs_keep [THEN tables_keeps]

lemma fileclose_eq:
  assumes "fileclose e f s = Ok s'" "shape (tables s)" "f < NFILE"
  shows "tables s' = upd_ref f (trefs (tables s) ! f - 1) (tables s)"
  using assms(1,3)
  by (auto simp: fileclose_def Let_def tables_ref tables_sel(8) [OF assms(2), symmetric] split: if_splits ftype.splits
      dest!: close_pipe_tables same_fs)

lemma fileclose_tabs:
  assumes "fileclose e f s = Ok s'" "tabs_ok (add_mset f H) X (tables s)"
  shows "tabs_ok H X (tables s')"
  using fileclose_eq [OF assms(1) tabs_ok_shape [OF assms(2)]] held_ref [OF assms(2), of f] drop_ref [OF assms(2)] by simp

lemma upd_commute: "upd_ref f n (upd_fd p fd g v) = upd_fd p fd g (upd_ref f n v)"
  by (simp add: upd_ref_def upd_fd_def)

lemma upd_sel [simp]: "trefs (upd_fd p fd g v) = trefs v" "tofile (upd_ref f n v) = tofile v" "tpst (upd_ref f n v) = tpst v"
  "tpst (upd_fd p fd g v) = tpst v"
  by (simp_all add: upd_ref_def upd_fd_def)

lemma fileread_tables: "fileread k f n s = Ok (r, s') \<Longrightarrow> tables s' = tables s"
  by (auto simp: fileread_def Let_def put_pipe_def tables_set_file split: if_splits ftype.splits option.splits prod.splits
      dest!: same_fs readi_keep [THEN tables_keeps])

lemma filestat_tables: "filestat f s = Ok (r, s') \<Longrightarrow> tables s' = tables s"
  by (auto simp: filestat_def Let_def split: if_splits dest!: same_fs)

lemma filewrite_loop_tables: "filewrite_loop k f src s = Ok (r, s') \<Longrightarrow> tables s' = tables s"
proof (induction src arbitrary: s rule: length_induct)
  case (1 src)
  have IH: "length xs < length src \<Longrightarrow> filewrite_loop k f xs s = Ok (r, s') \<Longrightarrow> tables s' = tables s" for xs s using 1(1) by blast
  show ?case using 1(2)
    by (subst (asm) filewrite_loop.simps)
      (auto simp: Let_def tables_set_file min_def split: if_splits dest!: same_fs writei_keep [THEN tables_keeps] IH [rotated])
qed

lemma filewrite_tables: "filewrite k f src n s = Ok (r, s') \<Longrightarrow> tables s' = tables s"
  by (auto simp: filewrite_def Let_def put_pipe_def split: if_splits ftype.splits option.splits prod.splits
      dest!: filewrite_loop_tables)

section \<open>Processes and threads on the tables\<close>

definition upd_row :: "nat \<Rightarrow> pstate list \<Rightarrow> tabs \<Rightarrow> tabs" where
  "upd_row r ts v = v\<lparr>tst := (tst v)[r := ts]\<rparr>"

definition upd_proc :: "nat \<Rightarrow> pstate \<Rightarrow> nat option \<Rightarrow> tabs \<Rightarrow> tabs" where
  "upd_proc p st th v = v\<lparr>tpst := (tpst v)[p := st], tthr := (tthr v)[p := th]\<rparr>"

lemma upd_row_sel [simp]: "trefs (upd_row r ts v) = trefs v" "tofile (upd_row r ts v) = tofile v" "tpst (upd_row r ts v) = tpst v"
  "tthr (upd_row r ts v) = tthr v" "tst (upd_row r ts v) = (tst v)[r := ts]"
  by (simp_all add: upd_row_def)

lemma upd_proc_sel [simp]: "trefs (upd_proc p st th v) = trefs v" "tofile (upd_proc p st th v) = tofile v"
  "tpst (upd_proc p st th v) = (tpst v)[p := st]" "tthr (upd_proc p st th v) = (tthr v)[p := th]" "tst (upd_proc p st th v) = tst v"
  by (simp_all add: upd_proc_def)

lemma tables_row: "tables (set_row r ts s) = upd_row r (map tstate ts) (tables s)"
  by (simp add: tables_def table_simps upd_row_def map_update)

lemma tables_thread:
  "r < length (tTable s) \<Longrightarrow> tables (set_thread r i t s) = upd_row r ((tst (tables s) ! r)[i := tstate t]) (tables s)"
  by (simp add: set_thread_def tables_row map_update) (simp add: tables_def)

lemma tables_proc:
  "ofile p = ofile (procs s ! i) \<Longrightarrow> tables (set_proc i p s) = upd_proc i (prstate p) (threads p) (tables s)"
  using map_update_id [of i "procs s" ofile p] by (simp add: tables_def table_simps upd_proc_def map_update)

lemma fdcount_upd_other [simp]: "fdcount (upd_row r ts v) f = fdcount v f" "fdcount (upd_proc p st th v) f = fdcount v f"
  by (simp_all add: fdcount_def)

text \<open>No live thread of a row dies.\<close>

definition no_death :: "pstate list \<Rightarrow> pstate list \<Rightarrow> bool" where
  "no_death ts ts' \<longleftrightarrow> list_all2 (\<lambda>a b. dead b \<longrightarrow> dead a) ts ts'"

lemma no_death_live: "no_death ts ts' \<Longrightarrow> \<exists>st \<in> set ts. \<not> dead st \<Longrightarrow> \<exists>st \<in> set ts'. \<not> dead st"
  unfolding no_death_def list_all2_conv_all_nth in_set_conv_nth Bex_def by metis

lemma no_death_update: "\<not> dead st \<Longrightarrow> no_death ts (ts[i := st])"
  by (cases "i < length ts") (auto simp: no_death_def list_all2_conv_all_nth nth_list_update)

lemma row_shape: "shape v \<Longrightarrow> length ts = NTHREAD \<Longrightarrow> shape (upd_row r ts v)"
  by (cases "r < length (tst v)") (auto simp: shape_def nth_list_update)

lemma row_ok:
  assumes "tabs_ok H X v" "r < NPROC" "length ts = NTHREAD" "r \<in> X \<or> no_death (tst v ! r) ts"
  shows "tabs_ok H X (upd_row r ts v)"
proof -
  have st: "states_ok X v" and len: "length (tst v) = NPROC" using assms(1) by (auto simp: tabs_ok_def shape_def)
  have "states_ok X (upd_row r ts v)" unfolding states_ok_def
  proof (intro allI impI)
    fix p assume p: "p < NPROC" "p \<notin> X"
    have "if dead (tpst v ! p) then set (tofile v ! p) \<subseteq> {None} else tthr v ! p = Some p \<and> (\<exists>st \<in> set (tst v ! p). \<not> dead st)"
      using st p unfolding states_ok_def by blast
    then show "if dead (tpst (upd_row r ts v) ! p) then set (tofile (upd_row r ts v) ! p) \<subseteq> {None}
        else tthr (upd_row r ts v) ! p = Some p \<and> (\<exists>st \<in> set (tst (upd_row r ts v) ! p). \<not> dead st)"
      using assms(2,4) p len no_death_live [of "tst v ! r" ts] by (cases "p = r") auto
  qed
  then show ?thesis using assms(1,3) row_shape [of v ts r] by (auto simp: tabs_ok_def refs_ok_def)
qed

lemma proc_ok:
  assumes "tabs_ok H X v" "p < NPROC" "th \<in> {None, Some p}"
    "p \<in> X \<or> dead st \<and> set (tofile v ! p) \<subseteq> {None}"
  shows "tabs_ok H X (upd_proc p st th v)"
  using assms by (auto simp: tabs_defs nth_list_update)

lemma exempt: "tabs_ok H X v \<Longrightarrow> tabs_ok H (insert p X) v"
  by (auto simp: tabs_ok_def states_ok_def)

text \<open>The end of an exemption.\<close>

definition settled :: "nat \<Rightarrow> tabs \<Rightarrow> bool" where
  "settled p v \<longleftrightarrow> (if dead (tpst v ! p) then set (tofile v ! p) \<subseteq> {None}
     else tthr v ! p = Some p \<and> (\<exists>st \<in> set (tst v ! p). \<not> dead st))"

lemma settle: "tabs_ok H (insert p X) v \<Longrightarrow> settled p v \<Longrightarrow> tabs_ok H X v"
  unfolding tabs_ok_def states_ok_def settled_def by blast

lemma settledD: "tabs_ok H X v \<Longrightarrow> p < NPROC \<Longrightarrow> p \<notin> X \<Longrightarrow> settled p v"
  unfolding tabs_ok_def states_ok_def settled_def by blast

end
