(* ===== verification/Xv6_Calls.thy ===== *)
theory Xv6_Calls
  imports Xv6_Tables
begin

text \<open>
  The system calls on files, directories and memory, and \<open>exec\<close>: those that leave the tables of the kernel as they are, and
  those that move references between open files and descriptors.
\<close>

declare ilock.simps [simp del] iunlock.simps [simp del]

section \<open>Calls that leave the tables alone\<close>

named_theorems same "routines that leave the tables as they are"

lemmas tables_keep [same] = same_fs readi_keep [THEN tables_keeps] writei_keep [THEN tables_keeps]
  dirlookup_keep [THEN tables_keeps] dirlink_keep [THEN tables_keeps] namex_keep [THEN tables_keeps]

lemmas tables_files [same] = fileread_tables filestat_tables filewrite_tables

lemma in_mem_tables [same]: "in_mem f s = Ok s' \<Longrightarrow> tables s' = tables s"
  by (auto simp: in_mem_def)

lemma cur_namei_tables [same]: "cur_namei cp path s = Ok (r, s') \<Longrightarrow> tables s' = tables s"
  by (auto simp: cur_namei_def namei_def split: option.splits dest!: same)

lemma cur_nameiparent_tables [same]: "cur_nameiparent cp path s = Ok (r, s') \<Longrightarrow> tables s' = tables s"
  by (auto simp: cur_nameiparent_def nameiparent_def split: option.splits dest!: same)

lemma end_fail_tables [same]: "end_fail s = Ok (r, s') \<Longrightarrow> tables s' = tables s"
  by (auto simp: end_fail_def dest!: same)

lemma isdirempty_tables [same]: "isdirempty (devsw_table k) dp s = Ok (r, s') \<Longrightarrow> tables s' = tables s"
proof -
  have "isdirempty_loop (devsw_table k) dp offs s = Ok (r, s') \<Longrightarrow> tables s' = tables s" for offs s
    by (induction offs arbitrary: s) (auto split: if_splits dest!: same)
  then show "isdirempty (devsw_table k) dp s = Ok (r, s') \<Longrightarrow> tables s' = tables s" by (simp add: isdirempty_def)
qed

lemma switchuvm_tables [same]: "switchuvm p s = Ok s' \<Longrightarrow> tables s' = tables s"
  by (auto simp: switchuvm_def split: if_splits)

lemma sys_read_tables [same]: "sys_read cp ct s = Ok (r, s') \<Longrightarrow> tables s' = tables s"
  by (auto simp: sys_read_def need_def split: option.splits prod.splits dest!: same)

lemma sys_write_tables [same]: "sys_write cp ct s = Ok (r, s') \<Longrightarrow> tables s' = tables s"
  by (auto simp: sys_write_def need_def split: option.splits prod.splits dest!: same)

lemma sys_fstat_tables [same]: "sys_fstat cp ct s = Ok (r, s') \<Longrightarrow> tables s' = tables s"
  by (auto simp: sys_fstat_def need_def split: option.splits prod.splits dest!: same)

lemma sys_link_bad_tables [same]: "sys_link_bad ip s = Ok (r, s') \<Longrightarrow> tables s' = tables s"
  by (auto simp: sys_link_bad_def dest!: same)

lemma sys_link_tables [same]: "sys_link cp ct s = Ok (r, s') \<Longrightarrow> tables s' = tables s"
  by (auto simp: sys_link_def need_def cur_devsw_def split: option.splits if_splits dest!: same)

lemma sys_unlink_bad_tables [same]: "sys_unlink_bad dp s = Ok (r, s') \<Longrightarrow> tables s' = tables s"
  by (auto simp: sys_unlink_bad_def dest!: same)

lemma sys_unlink_tables [same]: "sys_unlink cp ct s = Ok (r, s') \<Longrightarrow> tables s' = tables s"
  by (auto simp: sys_unlink_def need_def cur_devsw_def split: option.splits if_splits dest!: same)

lemma create_new_tables [same]: "create_new cp dp ip name type major minor s = Ok (r, s') \<Longrightarrow> tables s' = tables s"
  by (auto simp: create_new_def cur_devsw_def split: if_splits dest!: same)

lemma create_tables [same]: "create cp path type major minor s = Ok (r, s') \<Longrightarrow> tables s' = tables s"
  by (auto simp: create_def cur_devsw_def split: option.splits if_splits dest!: same)

lemma open_inode_tables [same]: "open_inode cp path omode s = Ok (r, s') \<Longrightarrow> tables s' = tables s"
  by (auto simp: open_inode_def split: option.splits if_splits dest!: same)

lemma sys_mkdir_tables [same]: "sys_mkdir cp ct s = Ok (r, s') \<Longrightarrow> tables s' = tables s"
  by (auto simp: sys_mkdir_def split: option.splits dest!: same)

lemma sys_mknod_tables [same]: "sys_mknod cp ct s = Ok (r, s') \<Longrightarrow> tables s' = tables s"
proof -
  assume a: "sys_mknod cp ct s = Ok (r, s')"
  then obtain x path major minor where x: "with_log begin_op s = Ok x" "argstr cp ct 0 x = Ok path"
      "(if path = None then Ok None else argint cp ct 1 x) = Ok major"
      "(if major = None then Ok None else argint cp ct 2 x) = Ok minor"
    by (auto simp: sys_mknod_def)
  then show ?thesis using a
    by (cases path; cases major; cases minor) (auto simp: sys_mknod_def split: option.splits dest!: same)
qed

lemma sys_chdir_tables [same]: "sys_chdir cp ct s = Ok (r, s') \<Longrightarrow> tables s' = tables s"
  by (auto simp: sys_chdir_def tables_set_proc split: option.splits if_splits dest!: same)

section \<open>exec\<close>

lemma loaduvm_tables [same]: "loaduvm k d va ip off sz s = Ok (r, s') \<Longrightarrow> tables s' = tables s"
proof -
  have "loaduvm_loop n k d va ip off i sz s = Ok (r, s') \<Longrightarrow> tables s' = tables s" for n i s
  proof (induction n arbitrary: i s)
    case (Suc n)
    show ?case using Suc.prems by (auto simp: Let_def split: if_splits dest!: readi_keep [THEN tables_keeps] Suc.IH)
  qed (simp split: if_splits)
  then show "loaduvm k d va ip off sz s = Ok (r, s') \<Longrightarrow> tables s' = tables s" by (auto simp: loaduvm_def simp del: loaduvm_loop.simps split: if_splits)
qed

lemma exec_load_tables [same]: "exec_load n e k ip d off sz s = Ok (r, s') \<Longrightarrow> tables s' = tables s"
proof (induction n arbitrary: off sz s)
  case (Suc n)
  show ?case using Suc.prems
    by (auto simp: Let_def split: if_splits dest!: readi_keep [THEN tables_keeps] loaduvm_tables Suc.IH)
qed simp

lemma exec_bad_tables [same]: "exec_bad e d ip s = Ok (r, s') \<Longrightarrow> tables s' = tables s"
  by (auto simp: exec_bad_def split: if_splits option.splits dest!: same)

lemma exec_commit_tables [same]: "exec_commit e cp ct d sz sp entry path s = Ok (r, s') \<Longrightarrow> tables s' = tables s"
proof -
  have eq: "tables (set_proc cp ((procs s ! cp)\<lparr>pname := n, ppgdir := d, psz := sz\<rparr>) s) = tables s" for n
    by (rule tables_set_proc) simp_all
  show "exec_commit e cp ct d sz sp entry path s = Ok (r, s') \<Longrightarrow> tables s' = tables s"
    by (cases "cp < length (procs s)") (auto simp: exec_commit_def Let_def tables_set_proc table_simps dest!: same)
qed

lemma exec_tables [same]: "exec e dt cp ct path argv s = Ok (r, s') \<Longrightarrow> tables s' = tables s"
proof -
  define kl where "kl = pkilled (procs s ! cp)"
  assume a: "exec e dt cp ct path argv s = Ok (r, s')"
  then obtain s1 c ip s2 where s2: "with_log begin_op s = Ok s1" "pcwd (procs s1 ! cp) = Some c"
      "namei (devsw_table kl) c path s1 = Ok (ip, s2)"
    by (auto simp: exec_def kl_def Let_def split: option.splits)
  note a1 = a [unfolded exec_def Let_def, folded kl_def, simplified s2 rbind.simps option.case split]
  have t2: "tables s2 = tables s" using s2 by (auto simp: namei_def dest!: same)
  show ?thesis
  proof (cases ip)
    case None
    then show ?thesis using a1 t2 by (auto dest!: same)
  next
    case (Some i)
    then obtain s3 n bs s4 where s4: "ilock (Some i) s2 = Ok s3" "readi (devsw_table kl) i 0 52 s3 = Ok ((n, bs), s4)"
      using a1 by (auto split: option.splits)
    have t4: "tables s4 = tables s" using s4 t2 by (auto dest!: same)
    show ?thesis using a1 unfolding Some option.case s4 of_nat_numeral rbind.simps split
      by (auto simp: t4 split: if_splits option.splits dest!: same)
  qed
qed

lemma sys_exec_tables [same]: "sys_exec e dt cp ct s = Ok (r, s') \<Longrightarrow> tables s' = tables s"
  by (auto simp: sys_exec_def need_def split: option.splits dest!: same)

section \<open>sysproc.c\<close>

lemma growproc_tables [same]: "growproc e cp n s = Ok (r, s') \<Longrightarrow> tables s' = tables s"
proof -
  define p where "p = procs s ! cp"
  define M where "M = (if n > 0 then allocuvm e (ppgdir p) (psz p) (psz p + word_of_int n) (kk s)
      else if n < 0 then deallocuvm e (ppgdir p) (psz p) (psz p + word_of_int n) (kk s) else Ok (psz p, kk s))"
  assume "growproc e cp n s = Ok (r, s')"
  then have "rbind M (\<lambda>(sz, k). if n \<noteq> 0 \<and> sz = 0 then Ok (- 1, s\<lparr>kk := k\<rparr>)
      else rbind (switchuvm cp (set_proc cp ((procs (s\<lparr>kk := k\<rparr>) ! cp)\<lparr>psz := sz\<rparr>) (s\<lparr>kk := k\<rparr>))) (\<lambda>s. Ok (0, s))) = Ok (r, s')"
    unfolding growproc_def Let_def M_def p_def .
  moreover have "tables (set_proc cp ((procs (s\<lparr>kk := k\<rparr>) ! cp)\<lparr>psz := sz\<rparr>) (s\<lparr>kk := k\<rparr>)) = tables s" for sz k
    by (simp add: tables_set_proc)
  ultimately show ?thesis by (cases M) (auto split: if_splits dest!: switchuvm_tables)
qed

lemma sys_sbrk_tables [same]: "sys_sbrk e cp ct s = Ok (r, s') \<Longrightarrow> tables s' = tables s"
  by (auto simp: sys_sbrk_def need_def Let_def split: option.splits dest!: same)

lemma kthread_join_tables [same]: "kthread_join cp t s = Ok (r, s') \<Longrightarrow> tables s' = tables s"
proof -
  have "tables (set_thread q i ((tTable s ! q ! i)\<lparr>ttid := - 1, tparent := None\<rparr>) s) = tables s" for q i
    by (rule tables_set_thread) simp
  then show "kthread_join cp t s = Ok (r, s') \<Longrightarrow> tables s' = tables s"
    unfolding kthread_join_def Let_def by (elim rbind_OkE) (auto simp del: upt_rec_numeral split: option.splits if_splits)
qed

lemma sys_kthread_join_tables [same]: "sys_kthread_join cp ct s = Ok (r, s') \<Longrightarrow> tables s' = tables s"
  by (auto simp: sys_kthread_join_def need_def ret_def split: option.splits dest!: same)

lemma sys_sleep_tables [same]: "sys_sleep cp ct s = Ok (r, s') \<Longrightarrow> tables s' = tables s"
  by (auto simp: sys_sleep_def sleep_ticks_def need_def split: option.splits if_splits)

lemma reading_calls [same]:
  "sys_getpid cp s = Ok (r, s') \<Longrightarrow> tables s' = tables s" "sys_uptime s = Ok (r, s') \<Longrightarrow> tables s' = tables s"
  "sys_kthread_id cp ct s = Ok (r, s') \<Longrightarrow> tables s' = tables s"
  by (auto simp: sys_getpid_def sys_uptime_def sys_kthread_id_def)

lemma kprint_tables [same]: "kprint strs fmt args s = Ok s' \<Longrightarrow> tables s' = tables s"
  by (auto simp: kprint_def)

section \<open>Calls on descriptors\<close>

lemma tables_set_ofile: "tables (set_ofile p fd f s) = upd_fd p fd f (tables s)"
proof (cases "p < length (procs s)")
  case True
  have "map prstate ((procs s)[p := (procs s ! p)\<lparr>ofile := fs\<rparr>]) = map prstate (procs s)"
    "map threads ((procs s)[p := (procs s ! p)\<lparr>ofile := fs\<rparr>]) = map threads (procs s)" for fs
    by (simp_all add: map_update_id)
  then show ?thesis using True by (simp add: set_ofile_def tables_def upd_fd_def table_simps map_update)
qed (simp add: set_ofile_def tables_def upd_fd_def table_simps not_less list_update_beyond)

text \<open>A process that makes system calls is neither unused nor a zombie.\<close>

definition running :: "nat \<Rightarrow> tabs \<Rightarrow> bool" where
  "running p v \<longleftrightarrow> p < NPROC \<and> \<not> dead (tpst v ! p)"

lemma running_upd [simp]: "running p (upd_fd q fd f v) = running p v" "running p (upd_ref g n v) = running p v"
  by (simp_all add: running_def upd_fd_def upd_ref_def)

lemma fdalloc_eq:
  assumes "fdalloc cp f s = (Some fd, s')" "shape (tables s)" "cp < NPROC"
  shows "fd < NOFILE" "tofile (tables s) ! cp ! fd = None" "tables s' = upd_fd cp fd (Some f) (tables s)"
proof -
  have fd: "fd < NOFILE" "ofile (procs s ! cp) ! fd = None" "s' = set_ofile cp fd (Some f) s"
    using assms(1) by (auto simp: fdalloc_def find_Some_iff simp del: upt_rec_numeral split: option.splits)
  then show "fd < NOFILE" "tofile (tables s) ! cp ! fd = None" "tables s' = upd_fd cp fd (Some f) (tables s)"
    by (simp_all add: tables_set_ofile flip: tables_sel(4) [OF assms(2,3)])
qed

lemma fdalloc_tabs:
  assumes "fdalloc cp f s = (Some fd, s')" "tabs_ok (add_mset f H) X (tables s)" "running cp (tables s)"
  shows "tabs_ok H X (tables s')"
proof -
  have cp: "cp < NPROC" "\<not> dead (tpst (tables s) ! cp)" using assms(3) by (auto simp: running_def)
  note fd = fdalloc_eq [OF assms(1) tabs_ok_shape [OF assms(2)] cp(1)]
  show ?thesis using put_fd [OF assms(2) cp(1) fd(1,2)] cp(2) fd(3) by simp
qed

lemma fdalloc_none: "fdalloc cp f s = (None, s') \<Longrightarrow> s' = s"
  by (auto simp: fdalloc_def split: option.splits)

lemma argfd_fd:
  assumes "argfd cp ct n s = Ok (Some (fd, f))" "shape (tables s)" "cp < NPROC"
  shows "fd < NOFILE" "tofile (tables s) ! cp ! fd = Some f"
  using assms by (auto simp: argfd_def need_def Let_def tables_sel(4) [OF assms(2,3)] split: option.splits if_splits)

lemma sys_dup_tabs:
  assumes "sys_dup cp ct s = Ok (r, s')" "tabs_ok {#} {} (tables s)" "running cp (tables s)"
  shows "tabs_ok {#} {} (tables s')"
proof -
  have cp: "cp < NPROC" using assms(3) by (simp add: running_def)
  consider "s' = s" | fd f d s1 where "argfd cp ct 0 s = Ok (Some (fd, f))" "fdalloc cp f s = (Some d, s1)" "filedup f s1 = Ok s'"
  proof -
    obtain x where "argfd cp ct 0 s = Ok x" using assms(1) by (auto simp: sys_dup_def need_def)
    moreover obtain d s1 where "fdalloc cp (snd (the x)) s = (d, s1)" by fastforce
    ultimately show thesis using assms(1) that fdalloc_none [of cp "snd (the x)" s]
      by (cases x; cases d) (auto simp: sys_dup_def need_def)
  qed
  then show ?thesis
  proof cases
    case (2 fd f d s1)
    note fd = argfd_fd [OF 2(1) tabs_ok_shape [OF assms(2)] cp]
    have f: "f < NFILE" using fdcount_pos [OF tabs_ok_shape [OF assms(2)] cp fd] by simp
    note d = fdalloc_eq [OF 2(2) tabs_ok_shape [OF assms(2)] cp]
    have s1: "shape (tables s1)" using shape_upd_fd [OF tabs_ok_shape [OF assms(2)] cp d(1), of "Some f"] f d(3) by simp
    have "tables s' = upd_fd cp d (Some f) (upd_ref f (trefs (tables s) ! f + 1) (tables s))"
      using filedup_eq [OF 2(3) s1 f] by (simp add: d(3) upd_commute)
    then show ?thesis
      using put_fd [OF take_ref [OF assms(2) f] cp d(1)] d(2) assms(3) by (simp add: running_def)
  qed (use assms in simp)
qed

lemma sys_close_tabs:
  assumes "sys_close e cp ct s = Ok (r, s')" "tabs_ok {#} {} (tables s)" "running cp (tables s)"
  shows "tabs_ok {#} {} (tables s')"
proof -
  have cp: "cp < NPROC" using assms(3) by (simp add: running_def)
  consider "s' = s" | fd f where "argfd cp ct 0 s = Ok (Some (fd, f))" "fileclose e f (set_ofile cp fd None s) = Ok s'"
  proof -
    obtain x where "argfd cp ct 0 s = Ok x" using assms(1) by (auto simp: sys_close_def need_def)
    then show thesis using assms(1) that by (cases x) (auto simp: sys_close_def need_def)
  qed
  then show ?thesis
  proof cases
    case (2 fd f)
    note fd = argfd_fd [OF 2(1) tabs_ok_shape [OF assms(2)] cp]
    show ?thesis
      using fileclose_tabs [OF 2(2)] clear_fd [OF assms(2) cp fd] by (simp add: tables_set_ofile)
  qed (use assms in simp)
qed

text \<open>The state in the middle of a system call of process \<open>cp\<close> that holds the references \<open>H\<close>.\<close>

definition fine :: "nat \<Rightarrow> nat multiset \<Rightarrow> 'a sys_scheme \<Rightarrow> bool" where
  "fine cp H s \<longleftrightarrow> tabs_ok H {} (tables s) \<and> running cp (tables s)"

lemma fine_same: "tables s' = tables s \<Longrightarrow> fine cp H s' = fine cp H s"
  by (simp add: fine_def)

lemma filealloc_fine: "filealloc s = (Some f, s') \<Longrightarrow> fine cp H s \<Longrightarrow> fine cp (add_mset f H) s'"
  using filealloc_tabs [of s f s' H "{}"]
  by (auto simp: fine_def) (auto simp: filealloc_def running_def tables_ref split: option.splits)

lemma fileclose_fine: "fileclose e f s = Ok s' \<Longrightarrow> fine cp (add_mset f H) s \<Longrightarrow> fine cp H s'"
  using fileclose_tabs [of e f s s' H "{}"] fileclose_eq [of e f s s'] held_ref [of "add_mset f H" "{}" "tables s" f]
  by (auto simp: fine_def tabs_ok_shape)

lemma fdalloc_fine:
  assumes "fdalloc cp f s = (Some fd, s')" "fine cp (add_mset f H) s"
  shows "fine cp H s'" "fd < NOFILE" "tofile (tables s') ! cp ! fd = Some f"
proof -
  have ok: "tabs_ok (add_mset f H) {} (tables s)" "running cp (tables s)" "cp < NPROC"
    using assms(2) by (auto simp: fine_def running_def)
  note fd = fdalloc_eq [OF assms(1) tabs_ok_shape [OF ok(1)] ok(3)]
  show "fd < NOFILE" by (rule fd)
  show "fine cp H s'" using fdalloc_tabs [OF assms(1) ok(1,2)] ok(2) by (simp add: fine_def fd(3))
  show "tofile (tables s') ! cp ! fd = Some f"
    using tabs_ok_shape [OF ok(1)] ok(3) fd(1) by (simp add: fd(3) upd_fd_def shape_def)
qed

lemma pipealloc_fine:
  assumes "pipealloc e s = Ok (r, s')" "fine cp H s"
  shows "case r of None \<Rightarrow> fine cp H s' | Some (f0, f1) \<Rightarrow> fine cp (add_mset f0 (add_mset f1 H)) s'"
proof -
  obtain a sa where sa: "filealloc s = (a, sa)" by fastforce
  obtain b sb where sb: "filealloc sa = (b, sb)" by fastforce
  consider "a = None" | f0 where "a = Some f0" "b = None" | f0 f1 where "a = Some f0" "b = Some f1"
    by (cases a; cases b) auto
  then show ?thesis
  proof cases
    case 1
    then show ?thesis using assms sa filealloc_none [of s sa] by (auto simp: pipealloc_def)
  next
    case 2
    then show ?thesis
      using assms sa sb filealloc_none [of sa sb] by (auto simp: pipealloc_def dest: filealloc_fine fileclose_fine)
  next
    case 3
    have f: "fine cp (add_mset f0 (add_mset f1 H)) sb"
      using filealloc_fine [OF sb [unfolded 3] filealloc_fine [OF sa [unfolded 3] assms(2)]] by (simp add: add_mset_commute)
    obtain x k where k: "kalloc (kk sb) = (x, k)" by fastforce
    have k': "fine cp (add_mset f0 (add_mset f1 H)) (sb\<lparr>kk := k\<rparr>)" using f by (simp add: fine_def)
    show ?thesis
    proof (cases "x = 0")
      case True
      then show ?thesis using assms(1) sa sb k 3 k' by (auto simp: pipealloc_def dest!: fileclose_fine)
    next
      case False
      then have "r = Some (f0, f1)" "tables s' = tables sb"
        using assms(1) sa sb k 3 by (auto simp: pipealloc_def Let_def tables_set_file)
      then show ?thesis using f by (simp add: fine_def)
    qed
  qed
qed

lemma sys_pipe_fine:
  assumes "sys_pipe e cp ct s = Ok (r, s')" "fine cp {#} s"
  shows "fine cp {#} s'"
proof -
  consider "s' = s" | s1 where "pipealloc e s = Ok (None, s1)" "s' = s1"
    | a rf wf s1 where "pipealloc e s = Ok (Some (rf, wf), s1)" "argptr cp ct 0 8 s = Ok (Some a)"
  proof -
    obtain x where x: "argptr cp ct 0 8 s = Ok x" using assms(1) by (auto simp: sys_pipe_def need_def)
    show thesis
    proof (cases x)
      case (Some a)
      then obtain y s1 where "pipealloc e s = Ok (y, s1)" using x assms(1) by (auto simp: sys_pipe_def need_def)
      then show thesis using x Some assms(1) that(2,3) by (cases y) (auto simp: sys_pipe_def need_def)
    qed (use x assms(1) that(1) in \<open>simp add: sys_pipe_def need_def\<close>)
  qed
  then show ?thesis
  proof cases
    case (3 a rf wf s1)
    note f = pipealloc_fine [OF 3(1) assms(2), simplified]
    obtain x s2 where s2: "fdalloc cp rf s1 = (x, s2)" by fastforce
    obtain y s3 where s3: "fdalloc cp wf s2 = (y, s3)" by fastforce
    show ?thesis
    proof (cases x)
      case None
      then have "s2 = s1" using s2 fdalloc_none by simp
      then show ?thesis using assms(1) 3 s2 None f by (auto simp: sys_pipe_def need_def dest!: fileclose_fine)
    next
      case (Some fd)
      note fd = fdalloc_fine [OF s2 [unfolded Some] f]
      show ?thesis
      proof (cases y)
        case None
        then have "s3 = s2" using s3 fdalloc_none by simp
        moreover have "fine cp (add_mset rf {#wf#}) (set_ofile cp fd None s2)"
          using fd clear_fd [of _ "{}" "tables s2" cp fd rf] by (auto simp: fine_def tables_set_ofile running_def)
        ultimately show ?thesis
          using assms(1) 3 s2 s3 Some None by (auto simp: sys_pipe_def need_def dest!: fileclose_fine)
      next
        case (Some fd1)
        have "fine cp {#} s3" using fdalloc_fine [OF s3 [unfolded Some] fd(1)] by simp
        then show ?thesis using assms(1) 3 s2 s3 \<open>x = Some fd\<close> Some by (auto simp: sys_pipe_def need_def fine_def dest!: same)
      qed
    qed
  next
    case 2
    then show ?thesis using pipealloc_fine [OF 2(1) assms(2)] by simp
  qed (use assms(2) in simp)
qed

lemma open_file_fine:
  assumes "open_file e cp omode ip s = Ok (r, s')" "fine cp {#} s"
  shows "fine cp {#} s'"
proof -
  obtain a s1 where s1: "filealloc s = (a, s1)" by fastforce
  obtain b s2 where s2: "fdalloc cp (the a) s1 = (b, s2)" by fastforce
  show ?thesis
  proof (cases a)
    case None
    then show ?thesis
      using assms s1 filealloc_none [of s s1] by (auto simp: open_file_def fine_def dest!: same)
  next
    case (Some f)
    then have f: "fine cp {#f#} s1" using filealloc_fine [of s f s1] s1 assms(2) by auto
    show ?thesis
    proof (cases b)
      case None
      then have "fine cp {#f#} s2" using f s2 Some fdalloc_none [of cp f s1 s2] by simp
      then show ?thesis
        using assms(1) s1 s2 Some None by (auto simp: open_file_def fine_def [of cp "{#}"] dest!: same fileclose_fine)
    next
      case (Some fd)
      then have "fine cp {#} s2" using fdalloc_fine [of cp f s1 fd s2] f s2 \<open>a = Some f\<close> by simp
      then show ?thesis
        using assms(1) s1 s2 Some \<open>a = Some f\<close> by (auto simp: open_file_def fine_def tables_set_file dest!: same)
    qed
  qed
qed

lemma sys_open_fine:
  assumes "sys_open e cp ct s = Ok (r, s')" "fine cp {#} s"
  shows "fine cp {#} s'"
proof -
  consider "s' = s" | omode path ip s1 s2 where "with_log begin_op s = Ok s1" "open_inode cp path omode s1 = Ok (ip, s2)"
      "(case ip of None \<Rightarrow> end_fail s2 | Some ip \<Rightarrow> open_file e cp omode ip s2) = Ok (r, s')"
    using assms(1) unfolding sys_open_def need_def by (elim rbind_OkE) (auto split: option.splits)
  then show ?thesis
  proof cases
    case 2
    have "fine cp {#} s2" using assms(2) 2(1,2) by (auto simp: fine_def dest!: same)
    then show ?thesis using 2(3) open_file_fine [of e cp omode _ s2] by (cases ip) (auto simp: fine_def dest!: same)
  qed (use assms(2) in simp)
qed

end
