(* ===== verification/Xv6_Kernel.thy ===== *)
theory Xv6_Kernel
  imports Xv6_Calls
begin

text \<open>
  The life of processes and threads on the tables: waking, killing, \<open>fork\<close>, \<open>exit\<close>, \<open>wait\<close> and the calls on
  kernel threads; then the system calls together, and \<open>trap\<close>.
\<close>

declare ilock.simps [simp del] iunlock.simps [simp del]

section \<open>Waking and killing\<close>

lemma threads_of_row:
  assumes "threads_of p s = Ok r" "shape (tables s)" "p < NPROC"
  shows "r = p" "tthr (tables s) ! p = Some p"
  using assms tables_sel(6) [OF assms(2,3)] by (auto simp: threads_of_def shape_def split: option.splits)

lemma ok_rows: "tabs_ok H X (tables s) \<Longrightarrow> r < NPROC \<Longrightarrow> r < length (tTable s) \<and> length (tTable s ! r) = NTHREAD"
  by (auto simp: tabs_ok_def shape_def tables_def)

lemma set_row_tabs:
  assumes "tabs_ok H X (tables s)" "r < NPROC" "length ts = NTHREAD" "\<And>i. i < NTHREAD \<Longrightarrow> dead (tstate (ts ! i)) \<Longrightarrow> dead (tstate (tTable s ! r ! i))"
  shows "tabs_ok H X (tables (set_row r ts s))"
  unfolding tables_row
proof (rule row_ok [OF assms(1,2)])
  have "no_death (map tstate (tTable s ! r)) (map tstate ts)"
    using assms ok_rows [OF assms(1,2)] by (auto simp: no_death_def list_all2_conv_all_nth)
  then show "r \<in> X \<or> no_death (tst (tables s) ! r) (map tstate ts)" using ok_sel(7) [OF assms(1,2)] by simp
qed (use assms in simp)

lemma wake_row_tabs: "tabs_ok H X (tables s) \<Longrightarrow> r < NPROC \<Longrightarrow> tabs_ok H X (tables (set_row r (wake_row ch (tTable s ! r)) s))"
  using ok_rows [of H X s r] by (intro set_row_tabs) (auto simp: wake_row_def dead_def split: if_splits)

lemma wakeup1_tabs: "wakeup1 ch s = Ok s' \<Longrightarrow> tabs_ok H X (tables s) \<Longrightarrow> tabs_ok H X (tables s')"
proof -
  have "wakeup1_loop ch ps s = Ok s' \<Longrightarrow> \<forall>p \<in> set ps. p < NPROC \<Longrightarrow> tabs_ok H X (tables s) \<Longrightarrow> tabs_ok H X (tables s')" for ps s
  proof (induction ps arbitrary: s)
    case (Cons p ps)
    then show ?case
      using threads_of_row(1) [of p s] tabs_ok_shape [of H X "tables s"]
      by (auto split: if_splits intro!: Cons.IH wake_row_tabs)
  qed simp
  then show "wakeup1 ch s = Ok s' \<Longrightarrow> tabs_ok H X (tables s) \<Longrightarrow> tabs_ok H X (tables s')"
    by (simp add: wakeup1_def del: upt_rec_numeral)
qed

lemma kill_tabs:
  assumes "kill pid s = Ok (r, s')" "tabs_ok H X (tables s)"
  shows "tabs_ok H X (tables s')"
proof (cases "find (\<lambda>i. ppid (procs s ! i) = pid) [0..<NPROC]")
  case (Some i)
  then have i: "i < NPROC" by (auto simp: find_Some_iff simp del: upt_rec_numeral)
  define s1 where "s1 = set_proc i ((procs s ! i)\<lparr>pkilled := True\<rparr>) s"
  have s1: "tabs_ok H X (tables s1)" using assms(2) by (simp add: s1_def tables_set_proc)
  obtain q where q: "threads_of i s1 = Ok q" using assms(1) Some by (auto simp: kill_def s1_def Let_def simp del: upt_rec_numeral)
  have "q = i" using threads_of_row(1) [OF q tabs_ok_shape [OF s1] i] .
  then have "s' = set_row i (map (\<lambda>t. if tstate t = SLEEPING then t\<lparr>tstate := RUNNABLE\<rparr> else t) (tTable s1 ! i)) s1"
    using assms(1) Some q by (simp add: kill_def Let_def s1_def del: upt_rec_numeral)
  then show ?thesis using ok_rows [OF s1 i] by (auto simp: dead_def split: if_splits intro!: set_row_tabs s1 i)
qed (use assms in \<open>simp add: kill_def del: upt_rec_numeral\<close>)

section \<open>Exit and wait\<close>

lemma wait_tabs:
  assumes "wait e cp s = Ok (r, s')" "tabs_ok H {} (tables s)"
  shows "tabs_ok H {} (tables s')"
proof (cases "find (\<lambda>p. pparent (procs s ! p) = Some cp \<and> prstate (procs s ! p) = ZOMBIE) [0..<NPROC]")
  case (Some p)
  then have p: "p < NPROC" "prstate (procs s ! p) = ZOMBIE" by (auto simp: find_Some_iff simp del: upt_rec_numeral)
  have fs: "set (tofile (tables s) ! p) \<subseteq> {None}"
    using settledD [OF assms(2) p(1)] p(2) ok_sel(5) [OF assms(2) p(1)] by (simp add: settled_def dead_def)
  obtain s2 where s2: "tables s2 = tables s" and s': "s' = set_proc p ((procs s2 ! p)\<lparr>prstate := UNUSED, ppid := 0, pparent := None,
      pname := [], pkilled := False\<rparr>) s2"
    using assms(1) Some
    by (auto simp: wait_def reap_def Let_def tables_set_proc simp del: upt_rec_numeral dest!: in_mem_tables)
  have th: "threads (procs s2 ! p) \<in> {None, Some p}"
    using tables_sel(6) [of s2 p] tabs_ok_shape [OF assms(2)] p(1) unfolding s2 by (auto simp: shape_def)
  have "tables s' = upd_proc p UNUSED (threads (procs s2 ! p)) (tables s)"
    unfolding s' s2 [symmetric] by (subst tables_proc) simp_all
  then show ?thesis using proc_ok [OF assms(2) p(1) th] fs by (simp add: dead_def)
qed (use assms in \<open>auto simp: wait_def simp del: upt_rec_numeral split: if_splits\<close>)

lemma close_files_tabs:
  assumes "close_files e cp fds s = Ok s'" "tabs_ok H X (tables s)" "cp < NPROC" "\<forall>fd \<in> set fds. fd < NOFILE"
  shows "tabs_ok H X (tables s') \<and> (\<forall>fd < NOFILE. tofile (tables s') ! cp ! fd = (if fd \<in> set fds then None else tofile (tables s) ! cp ! fd))"
  using assms
proof (induction fds arbitrary: s)
  case (Cons fd fds)
  have fd: "fd < NOFILE" "\<forall>fd \<in> set fds. fd < NOFILE" using Cons.prems(4) by auto
  note sh = tabs_ok_shape [OF Cons.prems(2)]
  have of: "ofile (procs s ! cp) = tofile (tables s) ! cp" using tables_sel(4) [OF sh assms(3)] .
  have len: "cp < length (tofile (tables s))" "fd < length (tofile (tables s) ! cp)" using sh assms(3) fd(1) by (auto simp: shape_def)
  show ?case
  proof (cases "tofile (tables s) ! cp ! fd")
    case None
    then show ?thesis using Cons.IH [OF _ Cons.prems(2,3) fd(2)] Cons.prems(1) of by auto
  next
    case (Some f)
    then obtain s1 where s1: "fileclose e f s = Ok s1" "close_files e cp fds (set_ofile cp fd None s1) = Ok s'"
      using Cons.prems(1) of by (auto simp: set_ofile_def)
    have "f < NFILE" using fdcount_pos [OF sh assms(3) fd(1) Some] by simp
    then have eq: "tables (set_ofile cp fd None s1) = upd_ref f (trefs (tables s) ! f - 1) (upd_fd cp fd None (tables s))"
      using fileclose_eq [OF s1(1) sh] by (simp add: tables_set_ofile upd_commute)
    have "tabs_ok H X (tables (set_ofile cp fd None s1))"
      using drop_ref [OF clear_fd [OF Cons.prems(2) assms(3) fd(1) Some]] by (simp add: eq)
    from Cons.IH [OF s1(2) this assms(3) fd(2)] show ?thesis
      using len unfolding eq by (auto simp: upd_fd_def nth_list_update)
  qed
qed auto

lemma reparent_tabs:
  assumes "reparent cp ps s = Ok s'" "tabs_ok H {cp} (tables s)" "set (tofile (tables s) ! cp) \<subseteq> {None}" "\<forall>p \<in> set ps. p < NPROC"
  shows "tabs_ok H {cp} (tables s') \<and> tofile (tables s') = tofile (tables s)"
  using assms
proof (induction ps arbitrary: s)
  case (Cons p ps)
  have p: "p < NPROC" "\<forall>p \<in> set ps. p < NPROC" using Cons.prems(4) by auto
  show ?case
  proof (cases "pparent (procs s ! p) = Some cp")
    case True
    define s1 where "s1 = set_proc p ((procs s ! p)\<lparr>pparent := initproc s\<rparr>) s"
    have t1: "tables s1 = tables s" by (simp add: s1_def tables_set_proc)
    obtain r where r: "threads_of p s1 = Ok r" using True Cons.prems(1) by (auto simp: s1_def Let_def)
    note row = threads_of_row [OF r _ p(1), unfolded t1, OF tabs_ok_shape [OF Cons.prems(2)]]
    define s2 where "s2 = (if \<not> list_ex live (tTable s1 ! p) then set_proc p ((procs s1 ! p)\<lparr>prstate := ZOMBIE\<rparr>) s1 else s1)"
    have rest: "reparent cp ps s2 = Ok s'" using True Cons.prems(1) r row by (simp add: s1_def s2_def Let_def split: if_splits)
    have "tabs_ok H {cp} (tables s2) \<and> tofile (tables s2) = tofile (tables s)"
    proof (cases "list_ex live (tTable s1 ! p)")
      case False
      have "tables s2 = upd_proc p ZOMBIE (Some p) (tables s)"
        using False row(2) tables_sel(6) [of s1 p] tabs_ok_shape [OF Cons.prems(2)] p(1)
        unfolding s2_def t1 [symmetric] by (simp add: tables_proc)
      moreover have "set (tofile (tables s) ! p) \<subseteq> {None}"
      proof (cases "p = cp")
        case no: False
        have "\<forall>st \<in> set (map tstate (tTable s1 ! p)). dead st" using False by (auto simp: list_ex_iff live_def dead_def)
        then have "\<forall>st \<in> set (tst (tables s) ! p). dead st"
          using tables_sel(7) [of s1 p] tabs_ok_shape [OF Cons.prems(2)] p(1) by (simp add: t1)
        then show ?thesis using settledD [OF Cons.prems(2) p(1)] no by (auto simp: settled_def split: if_splits)
      qed (use Cons.prems(3) in simp)
      ultimately show ?thesis using proc_ok [OF Cons.prems(2) p(1), of "Some p" ZOMBIE] by (simp add: dead_def)
    qed (use Cons.prems(2) t1 in \<open>simp add: s2_def\<close>)
    then show ?thesis using Cons.IH [OF rest _ _ p(2)] Cons.prems(3) by simp
  next
    case False
    then show ?thesis using Cons.IH [OF _ Cons.prems(2,3) p(2)] Cons.prems(1) by simp
  qed
qed simp

lemma wakeup1_files: "wakeup1 ch s = Ok s' \<Longrightarrow> tofile (tables s') = tofile (tables s)"
proof -
  have "wakeup1_loop ch ps s = Ok s' \<Longrightarrow> tofile (tables s') = tofile (tables s)" for ps s
  proof (induction ps arbitrary: s)
    case (Cons p ps)
    show ?case using Cons.prems by (auto simp: tables_row split: if_splits dest!: Cons.IH)
  qed simp
  then show "wakeup1 ch s = Ok s' \<Longrightarrow> tofile (tables s') = tofile (tables s)" by (simp add: wakeup1_def del: upt_rec_numeral)
qed

lemma exit_steps:
  assumes "exit e cp ct s = Ok s'"
  obtains s1 c s2 s3 s4 s5 s6 r where "close_files e cp [0..<NOFILE] s = Ok s1" "with_log begin_op s1 = Ok s2" "pcwd (procs s2 ! cp) = Some c"
    "iput c s2 = Ok s3" "with_log end_op s3 = Ok s4"
    "wakeup1 (map_option ChProc (pparent (procs s4 ! cp))) (set_proc cp ((procs s4 ! cp)\<lparr>pcwd := None\<rparr>) s4) = Ok s5"
    "reparent cp [0..<NPROC] s5 = Ok s6" "threads_of cp s6 = Ok r"
    "sched cp ct (set_proc cp ((procs (set_row r (zombie_threads (tTable s6 ! r)) s6) ! cp)\<lparr>prstate := ZOMBIE, threads := None\<rparr>)
       (set_row r (zombie_threads (tTable s6 ! r)) s6)) = Ok s'"
  using assms unfolding exit_def Let_def
  by (auto simp del: upt_rec_numeral close_files.simps reparent.simps split: if_splits option.splits)

lemma exit_tabs:
  assumes "exit e cp ct s = Ok s'" "tabs_ok H {cp} (tables s)" "cp < NPROC"
  shows "tabs_ok H {} (tables s')"
  using assms(1)
proof (cases rule: exit_steps)
  case (1 s1 c s2 s3 s4 s5 s6 r)
  have c1: "tabs_ok H {cp} (tables s1)" "\<forall>fd < NOFILE. tofile (tables s1) ! cp ! fd = None"
    using close_files_tabs [OF 1(1) assms(2,3)] by (auto simp del: upt_rec_numeral)
  have "length (tofile (tables s1) ! cp) = NOFILE" using tabs_ok_shape [OF c1(1)] assms(3) by (simp add: shape_def)
  then have n1: "set (tofile (tables s1) ! cp) \<subseteq> {None}" using c1(2) by (auto simp: in_set_conv_nth)
  have t4: "tables (set_proc cp ((procs s4 ! cp)\<lparr>pcwd := None\<rparr>) s4) = tables s1"
    using 1(2-5) by (auto simp: tables_set_proc dest!: same)
  have c5: "tabs_ok H {cp} (tables s5)" "set (tofile (tables s5) ! cp) \<subseteq> {None}"
    using wakeup1_tabs [OF 1(6), of H "{cp}"] wakeup1_files [OF 1(6)] c1(1) n1 by (simp_all add: t4)
  have c6: "tabs_ok H {cp} (tables s6)" "set (tofile (tables s6) ! cp) \<subseteq> {None}"
    using reparent_tabs [OF 1(7) c5] c5(2) by (auto simp del: upt_rec_numeral)
  note sh = tabs_ok_shape [OF c6(1)]
  have r: "r = cp" using threads_of_row [OF 1(8) sh assms(3)] by simp
  let ?v = "upd_row cp (map tstate (zombie_threads (tTable s6 ! cp))) (tables s6)"
  have "tables s' = upd_proc cp ZOMBIE None ?v"
    using 1(9) by (auto simp: sched_def r tables_row tables_proc table_simps split: if_splits)
  moreover have "tabs_ok H {cp} ?v" using ok_rows [OF c6(1) assms(3)] by (intro row_ok c6(1) assms(3)) (simp_all add: zombie_threads_def)
  ultimately have "tabs_ok H (insert cp {}) (tables s')" using assms(3) by (simp add: proc_ok)
  moreover have "settled cp (tables s')"
    using \<open>tables s' = _\<close> c6(2) sh assms(3) by (simp add: settled_def dead_def shape_def)
  ultimately show ?thesis by (rule settle)
qed

section \<open>Kernel threads\<close>

lemma set_thread_tabs:
  assumes "tabs_ok H X (tables s)" "r < NPROC" "r \<in> X \<or> \<not> dead (tstate t) \<or> tstate t = tstate (tTable s ! r ! i)"
  shows "tabs_ok H X (tables (set_thread r i t s))"
proof (cases "tstate t = tstate (tTable s ! r ! i)")
  case False
  then show ?thesis
    using assms ok_rows [OF assms(1,2)] tabs_ok_shape [OF assms(1)] no_death_update [of "tstate t" "tst (tables s) ! r" i]
    by (auto simp: tables_thread shape_def intro!: row_ok)
qed (use assms(1) in \<open>simp add: tables_set_thread\<close>)

lemma kthread_exit_tabs:
  assumes "kthread_exit e cp ct s = Ok s'" "fine cp {#} s" "ct < NTHREAD"
  shows "tabs_ok {#} {} (tables s')"
proof -
  have ok: "tabs_ok {#} {} (tables s)" "cp < NPROC" "\<not> dead (tpst (tables s) ! cp)" using assms(2) by (auto simp: fine_def running_def)
  define s1 where "s1 = set_thread cp ct ((the_thread cp ct s)\<lparr>tstate := ZOMBIE\<rparr>) s"
  have c1: "tabs_ok {#} {cp} (tables s1)" unfolding s1_def using exempt [OF ok(1), of cp] by (intro set_thread_tabs ok(2)) auto
  obtain r where r: "threads_of cp s1 = Ok r" using assms(1) by (auto simp: kthread_exit_def s1_def Let_def)
  note row = threads_of_row [OF r tabs_ok_shape [OF c1] ok(2)]
  show ?thesis
  proof (cases "list_ex live (take NTHREAD (tTable s1 ! cp))")
    case False
    then have "exit e cp ct (set_proc cp ((procs s1 ! cp)\<lparr>prstate := ZOMBIE\<rparr>) s1) = Ok s'"
      using assms(1) r row(1) by (simp add: kthread_exit_def s1_def Let_def)
    moreover have "tabs_ok {#} {cp} (tables (set_proc cp ((procs s1 ! cp)\<lparr>prstate := ZOMBIE\<rparr>) s1))"
      using row(2) tables_sel(6) [OF tabs_ok_shape [OF c1] ok(2)] by (auto simp: tables_proc intro!: proc_ok c1 ok(2))
    ultimately show ?thesis using exit_tabs ok(2) by blast
  next
    case True
    define t where "t = (the_thread cp ct s1)\<lparr>tkernelStack := 0, tparent := None, tptlock := False, ttf := 0, ttid := 0\<rparr>"
    have live: "\<exists>st \<in> set (tst (tables s1) ! cp). \<not> dead st"
      using True ok_sel(7) [OF c1 ok(2), symmetric] by (auto simp: list_ex_iff live_def dead_def dest!: in_set_takeD)
    have "tpst (tables s1) = tpst (tables s)" using ok_rows [OF ok(1,2)] by (simp add: s1_def tables_thread)
    then have "tabs_ok {#} {} (tables s1)"
      using settle [of "{#}" cp "{}"] c1 live row(2) ok(3) by (simp add: settled_def)
    then have c2: "tabs_ok {#} {} (tables (set_thread cp ct t s1))" by (simp add: tables_set_thread t_def the_thread_def)
    obtain q where q: "threads_of cp (set_thread cp ct t s1) = Ok q"
        "s' = set_row q (wake_row (Some (ChThread cp ct)) (tTable (set_thread cp ct t s1) ! q)) (set_thread cp ct t s1)"
      using assms(1) True r row(1) by (auto simp: kthread_exit_def s1_def t_def Let_def wakeupThreads_def sched_def split: if_splits)
    show ?thesis
      using threads_of_row(1) [OF q(1) tabs_ok_shape [OF c2] ok(2)] wake_row_tabs [OF c2 ok(2)] by (simp add: q(2))
  qed
qed

lemma kthread_create_tabs:
  assumes "kthread_create trapret forkret_pc cp ct f st sz s = Ok (r, s')" "tabs_ok H X (tables s)" "cp < NPROC"
  shows "tabs_ok H X (tables s')"
proof -
  obtain q where q: "threads_of cp s = Ok q" using assms(1) by (auto simp: kthread_create_def)
  have qcp: "q = cp" using threads_of_row(1) [OF q tabs_ok_shape [OF assms(2)] assms(3)] .
  have new: "tabs_ok H X (tables (set_thread cp i t s))" if "tabs_ok H X (tables s)" "\<not> dead (tstate t)" for i t s
    using that by (auto intro: set_thread_tabs assms(3))
  show ?thesis
  proof (cases "find (\<lambda>i. tstate (tTable s ! cp ! i) = UNUSED) [0..<NTHREAD]")
    case (Some i)
    define s1 where "s1 = set_thread cp i ((tTable s ! cp ! i)\<lparr>tstate := EMBRYO, ttid := nexttid s\<rparr>) s"
    have c1: "tabs_ok H X (tables s1)" using assms(2) unfolding s1_def by (intro new) (simp_all add: dead_def)
    obtain s2 t where "tables s2 = tables s1" "s' = set_thread cp i t s2" "tstate t = RUNNABLE"
      using assms(1) q qcp Some
      by (auto simp: kthread_create_def Let_def tables_set_thread simp del: upt_rec_numeral simp flip: s1_def
          split: if_splits dest!: in_mem_tables)
    then show ?thesis using new [of s2 t i] c1 by (simp add: dead_def)
  qed (use assms q qcp in \<open>simp add: kthread_create_def del: upt_rec_numeral\<close>)
qed

section \<open>Fork\<close>

lemma allocproc_tabs:
  assumes "allocproc trapret forkret_pc s = Ok (np, s')" "tabs_ok H {} (tables s)"
  shows "case np of None \<Rightarrow> tabs_ok H {} (tables s')
    | Some p \<Rightarrow> p < NPROC \<and> tabs_ok H {p} (tables s') \<and> set (tofile (tables s') ! p) \<subseteq> {None} \<and> tthr (tables s') ! p = Some p"
proof (cases "find (\<lambda>i. prstate (procs s ! i) = UNUSED) [0..<NPROC]")
  case (Some i)
  then have i: "i < NPROC" "prstate (procs s ! i) = UNUSED" by (auto simp: find_Some_iff simp del: upt_rec_numeral)
  have none: "set (tofile (tables s) ! i) \<subseteq> {None}"
    using settledD [OF assms(2) i(1)] i(2) ok_sel(5) [OF assms(2) i(1)] by (simp add: settled_def dead_def)
  note sh = tabs_ok_shape [OF assms(2)]
  have len: "i < length (procs s)" "i < length (tTable s)" using sh i(1) by (simp_all add: tables_sel)
  obtain a k where k: "kalloc (kk s) = (a, k)" by fastforce
  have c1: "tabs_ok H {i} (upd_proc i EMBRYO (Some i) (tables s))" by (intro proc_ok exempt assms(2) i(1)) auto
  show ?thesis
  proof (cases "a = 0")
    case True
    then have "np = None" "tables s' = upd_proc i UNUSED (Some i) (tables s)"
      using assms(1) Some k len
      by (auto simp: allocproc_def Let_def tables_proc table_simps upd_proc_def simp del: upt_rec_numeral split: if_splits)
    then show ?thesis using proc_ok [OF assms(2) i(1), of "Some i" UNUSED] none by (simp add: dead_def)
  next
    case False
    then have "np = Some i" "tables s' = upd_row i (map (\<lambda>_. UNUSED) (tTable s ! i)) (upd_proc i EMBRYO (Some i) (tables s))"
      using assms(1) Some k len ok_rows [OF assms(2) i(1)]
      by (auto simp: allocproc_def Let_def stack_frames_def tables_proc tables_row tables_set_thread table_simps upd_proc_def o_def
          simp del: upt_rec_numeral split: if_splits)
    moreover have "tabs_ok H {i} (upd_row i (map (\<lambda>_. UNUSED) (tTable s ! i)) (upd_proc i EMBRYO (Some i) (tables s)))"
      using ok_rows [OF assms(2) i(1)] by (intro row_ok c1 i(1)) simp_all
    ultimately show ?thesis using none i(1) sh by (simp add: shape_def)
  qed
qed (use assms in \<open>simp add: allocproc_def del: upt_rec_numeral\<close>)

lemma fork_files_tabs:
  assumes "fork_files cp np fds s = Ok s'" "tabs_ok H {np} (tables s)" "cp < NPROC" "np < NPROC" "distinct fds"
    "\<forall>fd \<in> set fds. fd < NOFILE \<and> tofile (tables s) ! np ! fd = None"
  shows "tabs_ok H {np} (tables s') \<and> tthr (tables s') = tthr (tables s) \<and> tst (tables s') = tst (tables s)"
  using assms
proof (induction fds arbitrary: s)
  case (Cons fd fds)
  note sh = tabs_ok_shape [OF Cons.prems(2)]
  have fd: "fd < NOFILE" "tofile (tables s) ! np ! fd = None" using Cons.prems(6) by auto
  have of: "ofile (procs s ! cp) = tofile (tables s) ! cp" using tables_sel(4) [OF sh assms(3)] .
  have len: "np < length (tofile (tables s))" "fd < length (tofile (tables s) ! np)" using sh assms(4) fd(1) by (auto simp: shape_def)
  show ?case
  proof (cases "tofile (tables s) ! cp ! fd")
    case None
    then show ?thesis using Cons.IH [OF _ Cons.prems(2,3,4)] Cons.prems(1,5,6) of by auto
  next
    case (Some f)
    then obtain s1 where s1: "filedup f s = Ok s1" "fork_files cp np fds (set_ofile np fd (Some f) s1) = Ok s'"
      using Cons.prems(1) of by (auto simp: set_ofile_def)
    have f: "f < NFILE" using fdcount_pos [OF sh assms(3) fd(1) Some] by simp
    have eq: "tables (set_ofile np fd (Some f) s1) = upd_fd np fd (Some f) (upd_ref f (trefs (tables s) ! f + 1) (tables s))"
      using filedup_eq [OF s1(1) sh f] by (simp add: tables_set_ofile)
    have "tabs_ok H {np} (tables (set_ofile np fd (Some f) s1))"
      unfolding eq using fd(2) by (intro put_fd take_ref Cons.prems(2) f assms(4) fd(1)) simp_all
    moreover have "\<forall>x \<in> set fds. x < NOFILE \<and> tofile (tables (set_ofile np fd (Some f) s1)) ! np ! x = None"
      using Cons.prems(5,6) len unfolding eq by (auto simp: upd_fd_def nth_list_update)
    ultimately show ?thesis using Cons.IH [OF s1(2) _ assms(3,4)] Cons.prems(5) by (simp add: eq upd_fd_def upd_ref_def)
  qed
qed simp

lemma fork_steps:
  fixes s :: "'a sys_scheme"
  assumes "fork e dt trapret forkret_pc cp ct s = Ok (r, s')" "allocproc trapret forkret_pc s = Ok (Some np, s1)"
    "np < length (procs s1)" "np < length (tTable s1)" "length (tTable s1 ! np) = NTHREAD"
  obtains (failed) x where "tables x = tables s1" "s' = set_proc np ((procs x ! np)\<lparr>pkstack := 0, prstate := UNUSED\<rparr>) x"
    | (forked) ts and x y z :: "'a sys_scheme" where "length ts = NTHREAD" "tables x = upd_row np ts (tables s1)" "fork_files cp np [0..<NOFILE] x = Ok y"
      "tables z = tables y" "s' = set_thread np 0 ((tTable (set_proc np ((procs z ! np)\<lparr>prstate := RUNNABLE\<rparr>) z) ! np ! 0)\<lparr>tstate := RUNNABLE\<rparr>)
         (set_proc np ((procs z ! np)\<lparr>prstate := RUNNABLE\<rparr>) z)"
proof -
  obtain d k where k: "copyuvm e dt (ppgdir (procs s1 ! cp)) (psz (procs s1 ! cp)) (kk s1) = Ok (d, k)"
    using assms(1,2) by (auto simp: fork_def)
  define s2 where "s2 = set_proc np ((procs s1 ! np)\<lparr>ppgdir := d\<rparr>) (s1\<lparr>kk := k\<rparr>)"
  have t2: "tables s2 = tables s1" by (simp add: s2_def tables_set_proc)
  show thesis
  proof (cases "d = 0")
    case True
    then obtain x where "in_mem (kfree e (pkstack (procs s2 ! np))) s2 = Ok x"
        "s' = set_proc np ((procs x ! np)\<lparr>pkstack := 0, prstate := UNUSED\<rparr>) x"
      using assms(1,2) k by (auto simp: fork_def Let_def s2_def)
    then show thesis using t2 by (intro failed) (auto dest!: in_mem_tables)
  next
    case False
    define s3 where "s3 = set_proc np ((procs s2 ! np)\<lparr>psz := psz (procs s2 ! cp), pparent := Some cp\<rparr>) s2"
    define ts where "ts = hd (tTable s3 ! np) # map (\<lambda>t. t\<lparr>tstate := UNUSED, tptlock := True\<rparr>) (tl (tTable s3 ! np))"
    define s4 where "s4 = set_row np ts s3"
    define s5 where "s5 = set_thread np 0 ((tTable s4 ! np ! 0)\<lparr>tparent := Some np, tkstack := tkstack (the_thread cp ct s4),
        tkernelStack := tkernelStack (the_thread cp ct s4)\<rparr>) s4"
    obtain a b s6 s7 y c where s6: "in_mem a s5 = Ok s6" "in_mem b s6 = Ok s7" "fork_files cp np [0..<NOFILE] s7 = Ok y"
        and c: "pcwd (procs y ! cp) = Some c" and s': "(let (c, s) = idup c y;
                         s = set_proc np ((procs s ! np)\<lparr>pcwd := Some c, pname := pname (procs s ! cp)\<rparr>) s;
                         s = set_proc np ((procs s ! np)\<lparr>prstate := RUNNABLE\<rparr>) s;
                         s = set_thread np 0 ((tTable s ! np ! 0)\<lparr>tstate := RUNNABLE\<rparr>) s
                     in s) = s'"
      using assms(1) False unfolding fork_def assms(2) rbind.simps split option.case k
      unfolding Let_def s2_def [symmetric] s3_def [symmetric] ts_def [symmetric] s4_def [symmetric] s5_def [symmetric]
      by (auto simp: idup_def simp del: upt_rec_numeral fork_files.simps split: option.splits)
    define z where "z = set_proc np ((procs (snd (idup c y)) ! np)\<lparr>pcwd := Some c, pname := pname (procs (snd (idup c y)) ! cp)\<rparr>) (snd (idup c y))"
    have row: "tTable s3 = tTable s1" "tables s3 = tables s1" by (simp_all add: s3_def s2_def table_simps tables_set_proc)
    have len: "length (map tstate ts) = NTHREAD" using assms(5) by (simp add: ts_def row)
    have t7: "tables s7 = upd_row np (map tstate ts) (tables s1)"
      using s6(1,2) by (auto simp: s5_def s4_def tables_set_thread tables_row row dest!: in_mem_tables)
    have tz: "tables z = tables y" by (simp add: z_def tables_set_proc tables_keeps [OF idup_keep])
    have "s' = set_thread np 0 ((tTable (set_proc np ((procs z ! np)\<lparr>prstate := RUNNABLE\<rparr>) z) ! np ! 0)\<lparr>tstate := RUNNABLE\<rparr>)
        (set_proc np ((procs z ! np)\<lparr>prstate := RUNNABLE\<rparr>) z)"
      using s' by (simp add: z_def Let_def idup_def)
    then show thesis by (rule forked [OF len t7 s6(3) tz])
  qed
qed

text \<open>A new process with its first thread made runnable.\<close>

lemma start_tabs:
  assumes "tabs_ok H {p} (tables z)" "p < NPROC" "tthr (tables z) ! p = Some p" "prstate q = RUNNABLE"
    "ofile q = ofile (procs z ! p)" "threads q = threads (procs z ! p)"
  shows "tabs_ok H {} (tables (set_thread p 0 ((tTable (set_proc p q z) ! p ! 0)\<lparr>tstate := RUNNABLE\<rparr>) (set_proc p q z)))"
    (is "tabs_ok H {} (tables ?s)")
proof -
  define w where "w = set_proc p q z"
  have w: "tables w = upd_proc p RUNNABLE (Some p) (tables z)"
    using assms ok_sel(6) [OF assms(1,2)] by (simp add: w_def tables_proc)
  then have cw: "tabs_ok H {p} (tables w)" using proc_ok [OF assms(1,2), of "Some p" RUNNABLE] by simp
  note sh = tabs_ok_shape [OF cw]
  have s: "tables ?s = upd_row p ((tst (tables w) ! p)[0 := RUNNABLE]) (tables w)"
    using ok_rows [OF cw assms(2)] by (simp add: tables_thread flip: w_def)
  have "tabs_ok H (insert p {}) (tables ?s)"
    unfolding s using sh assms(2) by (intro row_ok cw assms(2)) (auto simp: shape_def)
  moreover have "RUNNABLE \<in> set ((tst (tables w) ! p)[0 := RUNNABLE])"
    using sh assms(2) by (intro set_update_memI) (simp add: shape_def)
  then have "settled p (tables ?s)"
    using sh tabs_ok_shape [OF assms(1)] assms(2) unfolding s settled_def by (auto simp: w shape_def dead_def)
  ultimately show ?thesis by (rule settle)
qed

lemma fork_tabs:
  assumes "fork e dt trapret forkret_pc cp ct s = Ok (r, s')" "tabs_ok H {} (tables s)" "cp < NPROC"
  shows "tabs_ok H {} (tables s')"
proof -
  obtain np s1 where a: "allocproc trapret forkret_pc s = Ok (np, s1)" using assms(1) by (auto simp: fork_def)
  show ?thesis
  proof (cases np)
    case None
    then show ?thesis using allocproc_tabs [OF a assms(2)] assms(1) a by (simp add: fork_def)
  next
    case (Some p)
    have p: "p < NPROC" "tabs_ok H {p} (tables s1)" "set (tofile (tables s1) ! p) \<subseteq> {None}" "tthr (tables s1) ! p = Some p"
      using allocproc_tabs [OF a assms(2)] Some by auto
    have len: "p < length (procs s1)" "p < length (tTable s1)" "length (tTable s1 ! p) = NTHREAD"
      using ok_rows [OF p(2,1)] ok_sel(2) [OF p(2)] p(1) by auto
    from assms(1) a [unfolded Some] len show ?thesis
    proof (cases rule: fork_steps)
      case (failed x)
      have "tables s' = upd_proc p UNUSED (Some p) (tables s1)"
        using failed p(4) tables_sel(6) [of x p] tabs_ok_shape [OF p(2)] p(1) by (simp add: tables_proc)
      then show ?thesis
        using proc_ok [OF p(2,1), of "Some p" UNUSED] p(3) tabs_ok_shape [OF p(2)] p(1)
        by (intro settle [of H p "{}"]) (auto simp: settled_def dead_def shape_def)
    next
      case (forked ts x y z)
      have x: "tabs_ok H {p} (tables x)" unfolding forked(2) using forked(1) by (intro row_ok p(1,2)) auto
      have y: "tabs_ok H {p} (tables y)" "tthr (tables y) ! p = Some p"
        using fork_files_tabs [OF forked(3) x assms(3) p(1)] p(3,4) tabs_ok_shape [OF p(2)] p(1) forked(2)
        by (auto simp: shape_def subset_iff simp del: upt_rec_numeral)
      show ?thesis unfolding forked(5) using y p(1) forked(4) by (intro start_tabs) simp_all
    qed
  qed
qed

section \<open>System calls and traps\<close>

lemma fine_tabs: "fine cp H s \<Longrightarrow> tabs_ok H {} (tables s) \<and> cp < NPROC"
  by (simp add: fine_def running_def)

text \<open>Every entry of the table of system calls.\<close>

lemma syscalls_tabs:
  assumes "syscalls L cp ct n = Some f" "f s = Ok (r, s')" "fine cp {#} s" "ct < NTHREAD"
  shows "tabs_ok {#} {} (tables s')"
proof -
  have ok: "tabs_ok {#} {} (tables s)" "cp < NPROC" "running cp (tables s)" using assms(3) by (auto simp: fine_def running_def)
  have same_ok: "tables s' = tables s \<Longrightarrow> ?thesis" using ok(1) by simp
  have "f \<in> set [sys_fork (l_end L) (l_data L) (l_trapret L) (l_forkret L) cp ct, sys_exit (l_end L) cp ct, sys_wait (l_end L) cp,
          sys_pipe (l_end L) cp ct, sys_read cp ct, sys_kill cp ct, sys_exec (l_end L) (l_data L) cp ct, sys_fstat cp ct,
          sys_chdir cp ct, sys_dup cp ct, sys_getpid cp, sys_sbrk (l_end L) cp ct, sys_sleep cp ct, sys_uptime,
          sys_open (l_end L) cp ct, sys_write cp ct, sys_mknod cp ct, sys_unlink cp ct, sys_link cp ct, sys_mkdir cp ct,
          sys_close (l_end L) cp ct, sys_kthread_create (l_trapret L) (l_forkret L) cp ct, sys_kthread_id cp ct,
          sys_kthread_exit (l_end L) cp ct, sys_kthread_join cp ct]"
    using assms(1) by (auto simp only: syscalls_def option.inject option.distinct split: if_splits intro!: nth_mem) auto
  then consider "f = sys_fork (l_end L) (l_data L) (l_trapret L) (l_forkret L) cp ct" | "f = sys_exit (l_end L) cp ct"
    | "f = sys_wait (l_end L) cp" | "f = sys_pipe (l_end L) cp ct" | "f = sys_kill cp ct" | "f = sys_dup cp ct"
    | "f = sys_open (l_end L) cp ct" | "f = sys_close (l_end L) cp ct" | "f = sys_kthread_create (l_trapret L) (l_forkret L) cp ct"
    | "f = sys_kthread_exit (l_end L) cp ct"
    | "f \<in> {sys_read cp ct, sys_exec (l_end L) (l_data L) cp ct, sys_fstat cp ct, sys_chdir cp ct, sys_getpid cp, sys_sbrk (l_end L) cp ct,
        sys_sleep cp ct, sys_uptime, sys_write cp ct, sys_mknod cp ct, sys_unlink cp ct, sys_link cp ct, sys_mkdir cp ct,
        sys_kthread_id cp ct, sys_kthread_join cp ct}"
    unfolding list.set insert_iff empty_iff by blast
  then show ?thesis
  proof cases
    case 1 then show ?thesis using assms(2) ok fork_tabs by (fastforce simp: sys_fork_def ret_def)
  next
    case 2 then show ?thesis using assms(2) exit_tabs [OF _ exempt [OF ok(1)] ok(2)] by (auto simp: sys_exit_def)
  next
    case 3 then show ?thesis using assms(2) wait_tabs [OF _ ok(1)] by (auto simp: sys_wait_def ret_def)
  next
    case 4 then show ?thesis using assms(2,3) sys_pipe_fine fine_tabs by blast
  next
    case 5 then show ?thesis using assms(2) ok(1) by (auto simp: sys_kill_def need_def ret_def split: option.splits dest!: kill_tabs)
  next
    case 6 then show ?thesis using assms(2) ok sys_dup_tabs by blast
  next
    case 7 then show ?thesis using assms(2,3) sys_open_fine fine_tabs by blast
  next
    case 8 then show ?thesis using assms(2) ok sys_close_tabs by blast
  next
    case 9 then show ?thesis using assms(2) ok(1,2)
      by (auto simp: sys_kthread_create_def need_def ret_def split: option.splits dest!: kthread_create_tabs)
  next
    case 10 then show ?thesis using assms(2-4) kthread_exit_tabs by (auto simp: sys_kthread_exit_def)
  next
    case 11 then show ?thesis using assms(2) by (auto intro!: same_ok dest!: same)
  qed
qed

lemma syscall_tabs:
  assumes "syscall L cp ct s = Ok (r, s')" "fine cp {#} s" "ct < NTHREAD"
  shows "tabs_ok {#} {} (tables s')"
proof -
  have ok: "tabs_ok {#} {} (tables s)" using assms(2) by (auto simp: fine_def)
  obtain num x s1 where x: "(case (if sint num > 0 then syscalls L cp ct (nat (sint num)) else None) of Some f \<Rightarrow> f s
        | None \<Rightarrow> rbind (kprint (name_str (procs s ! cp)) (''%d %s: unknown sys call %d'' @ [CHR 0x0A])
            [word_of_int (ppid (procs s ! cp)), 1, num] s) (\<lambda>s. Ok (Ret (- 1), s))) = Ok (x, s1)"
      and s': "(case x of Ret y \<Rightarrow> rbind (in_mem (vstore (ppgdir (procs s1 ! cp)) (ttf (the_thread cp ct s1) + TF_eax) (word_of_int y)) s1)
           (\<lambda>s. Ok (x, s)) | _ \<Rightarrow> Ok (x, s1)) = Ok (r, s')"
    using assms(1) unfolding syscall_def by (elim rbind_OkE) auto
  have "tabs_ok {#} {} (tables s1)"
    using x syscalls_tabs [OF _ _ assms(2,3)] ok by (auto split: option.splits if_splits dest!: kprint_tables)
  then show ?thesis using s' by (auto split: sysret.splits dest!: in_mem_tables)
qed

lemma exit_ok: "exit e cp ct s = Ok s' \<Longrightarrow> tabs_ok {#} {} (tables s) \<Longrightarrow> cp < NPROC \<Longrightarrow> tabs_ok {#} {} (tables s')"
  using exit_tabs [OF _ exempt] by blast

lemma trap_syscall_tabs:
  assumes "trap_syscall L cp ct tf s = Ok (r, s')" "fine cp {#} s" "ct < NTHREAD"
  shows "tabs_ok {#} {} (tables s')"
proof -
  have ok: "tabs_ok {#} {} (tables s)" "cp < NPROC" using assms(2) by (auto simp: fine_def running_def)
  define s1 where "s1 = set_thread cp ct ((the_thread cp ct s)\<lparr>ttf := tf\<rparr>) s"
  have "fine cp {#} s1" using assms(2) by (simp add: fine_def s1_def tables_set_thread the_thread_def)
  then have "syscall L cp ct s1 = Ok (x, s2) \<Longrightarrow> tabs_ok {#} {} (tables s2)" for x s2 using syscall_tabs assms(3) by blast
  then show ?thesis
    using assms(1) ok unfolding trap_syscall_def s1_def [symmetric]
    by (auto split: if_splits sysret.splits dest!: exit_ok)
qed

lemma trap_irq_tabs:
  assumes "trap_irq cpu cr2 dump cur f s = Ok s'" "tabs_ok {#} {} (tables s)"
  shows "tabs_ok {#} {} (tables s')"
proof -
  have tick: "tabs_ok {#} {} (tables s1)" if "wakeup ChTicks (s\<lparr>ticks := t\<rparr>) = Ok s1" for t s1
    using that wakeup1_tabs [of _ "s\<lparr>ticks := t\<rparr>" s1] assms(2) by (simp add: wakeup_def)
  show ?thesis
    using assms unfolding trap_irq_def
    by (auto simp: tables_set_proc split: if_splits option.splits dest!: kprint_tables dest: tick)
qed

lemma exit_if_killed_tabs:
  assumes "exit_if_killed e cur f s = Ok (gone, s')" "tabs_ok {#} {} (tables s)" "\<And>cp ct. cur = Some (cp, ct) \<Longrightarrow> cp < NPROC"
  shows "tabs_ok {#} {} (tables s')"
  using assms exit_ok by (fastforce simp: exit_if_killed_def split: option.splits if_splits prod.splits)

lemma yield_tabs:
  assumes "yield cp ct s = Ok s'" "tabs_ok H X (tables s)" "cp < NPROC"
  shows "tabs_ok H X (tables s')"
  using assms by (auto simp: yield_def sched_def dead_def split: if_splits intro!: set_thread_tabs)

lemma sleep_tabs:
  assumes "sleep cp ct ch s = Ok s'" "tabs_ok H X (tables s)" "cp < NPROC"
  shows "tabs_ok H X (tables s')"
  using assms by (auto simp: sleep_def sched_def dead_def split: if_splits intro!: set_thread_tabs)

lemma trap_tabs:
  assumes "trap L cpu cr2 dump cur tf s = Ok (r, s')" "tabs_ok {#} {} (tables s)"
    and cur: "\<And>cp ct. cur = Some (cp, ct) \<Longrightarrow> running cp (tables s) \<and> ct < NTHREAD"
  shows "tabs_ok {#} {} (tables s')"
proof -
  have np: "cur = Some (cp, ct) \<Longrightarrow> cp < NPROC" for cp ct using cur by (auto simp: running_def)
  obtain f where f: "read_frame (case cur of None \<Rightarrow> 0 | Some (cp, ct) \<Rightarrow> ppgdir (procs s ! cp)) tf (kk s) = Ok f"
    using assms(1) by (auto simp: trap_def)
  show ?thesis
  proof (cases "fr_trapno f = T_SYSCALL")
    case True
    then obtain cp ct where c: "cur = Some (cp, ct)" "trap_syscall L cp ct tf s = Ok (r, s')"
      using assms(1) f by (auto simp: trap_def split: option.splits)
    then show ?thesis using trap_syscall_tabs [OF c(2)] cur [OF c(1)] assms(2) by (simp add: fine_def)
  next
    case False
    then obtain s1 gone s2 where s2: "trap_irq cpu cr2 dump cur f s = Ok s1" "exit_if_killed (l_end L) cur f s1 = Ok (gone, s2)"
      using assms(1) f by (auto simp: trap_def)
    have ok: "tabs_ok {#} {} (tables s2)" using exit_if_killed_tabs [OF s2(2) trap_irq_tabs [OF s2(1) assms(2)]] np by blast
    have res: "tabs_ok {#} {} (tables s3)" if "trap_resumed L cur f s2 = Ok (x, s3)" for x s3
      using that exit_if_killed_tabs [OF _ ok] np by (auto simp: trap_resumed_def)
    consider "s' = s2" | cp ct where "cur = Some (cp, ct)" "yield cp ct s2 = Ok s'" | x where "trap_resumed L cur f s2 = Ok (x, s')"
      using assms(1) False f s2 unfolding trap_def by (auto split: if_splits option.splits)
    then show ?thesis using ok res yield_tabs np by cases auto
  qed
qed

lemma userinit_tabs:
  assumes "userinit dt trapret forkret_pc code sz s = Ok s'" "tabs_ok H {} (tables s)"
  shows "tabs_ok H {} (tables s')"
proof -
  obtain np s1 where a: "allocproc trapret forkret_pc s = Ok (np, s1)" using assms(1) by (auto simp: userinit_def)
  then obtain p where np: "np = Some p" using assms(1) by (auto simp: userinit_def split: option.splits)
  have p: "p < NPROC" "tabs_ok H {p} (tables s1)" "tthr (tables s1) ! p = Some p"
    using allocproc_tabs [OF a assms(2)] np by auto
  obtain s2 ip where s2: "tables s2 = tables s1"
      "s' = set_thread p 0 ((tTable (set_proc p ((procs s2 ! p)\<lparr>pcwd := ip, prstate := RUNNABLE\<rparr>) s2) ! p ! 0)\<lparr>tstate := RUNNABLE\<rparr>)
         (set_proc p ((procs s2 ! p)\<lparr>pcwd := ip, prstate := RUNNABLE\<rparr>) s2)"
    using assms(1) a np
    by (auto simp: userinit_def Let_def namei_def tables_set_proc split: if_splits dest!: in_mem_tables namex_keep [THEN tables_keeps])
  show ?thesis unfolding s2(2) using p s2(1) by (intro start_tabs) simp_all
qed

end
