(* ===== verification/Xv6_Reach.thy ===== *)
theory Xv6_Reach
  imports Xv6_Kernel
begin

text \<open>
  The kernel as a transition system: the first process is made, the scheduler dispatches threads, threads run in user mode
  and enter the kernel through \<open>trap\<close>, go to sleep and are woken up. In every state that can be reached the tables
  have the right shape, and the reference counts of open files are the numbers of descriptors.
\<close>

section \<open>Steps\<close>

text \<open>Thread \<open>ct\<close> of process \<open>cp\<close> has a processor.\<close>

definition active :: "nat \<Rightarrow> nat \<Rightarrow> 'a sys_scheme \<Rightarrow> bool" where
  "active cp ct s \<longleftrightarrow> cp < NPROC \<and> ct < NTHREAD \<and> prstate (procs s ! cp) \<noteq> UNUSED \<and> prstate (procs s ! cp) \<noteq> ZOMBIE \<and>
     tstate (the_thread cp ct s) = RUNNING"

text \<open>
  A user program may leave memory in any state. A thread that sleeps does so in the middle of a system call, which is run
  again from its beginning, or for a pipe from where it stopped.
\<close>

inductive kernel_step :: "sys \<Rightarrow> sys \<Rightarrow> bool" where
  first_process: "userinit dt trapret forkret_pc code sz s = Ok s' \<Longrightarrow> kernel_step s s'"
| dispatch: "p < NPROC \<Longrightarrow> procIsReady (procs s ! p) \<Longrightarrow> threads_of p s = Ok r \<Longrightarrow> t < NTHREAD \<Longrightarrow>
    tstate (tTable s ! r ! t) = RUNNABLE \<Longrightarrow> switchuvm p s = Ok s' \<Longrightarrow>
    kernel_step s (set_thread r t ((tTable s' ! r ! t)\<lparr>tstate := RUNNING\<rparr>) s')"
| user: "kernel_step s (s\<lparr>kk := k\<rparr>)"
| entry: "active cp ct s \<Longrightarrow> trap L cpu cr2 dump (Some (cp, ct)) tf s = Ok (r, s') \<Longrightarrow> kernel_step s s'"
| idle: "trap L cpu cr2 dump None tf s = Ok (r, s') \<Longrightarrow> kernel_step s s'"
| suspend: "active cp ct s \<Longrightarrow> sleep cp ct ch s = Ok s' \<Longrightarrow> kernel_step s s'"
| resume: "active cp ct s \<Longrightarrow> kernel_step s (awake cp ct s)"
| resumed: "active cp ct s \<Longrightarrow> trap_resumed L (Some (cp, ct)) f s = Ok (r, s') \<Longrightarrow> kernel_step s s'"
| wake: "wakeup ch s = Ok s' \<Longrightarrow> kernel_step s s'"
| first_run: "forkret s = Ok s' \<Longrightarrow> kernel_step s s'"

inductive_cases kernel_stepE: "kernel_step s s'"

inductive kernel_reachable :: "sys \<Rightarrow> bool" where
  boot: "procs s = replicate NPROC unused_proc \<Longrightarrow> tTable s = replicate NPROC (replicate NTHREAD unused_thread) \<Longrightarrow>
    files s = replicate NFILE closed_file \<Longrightarrow> kernel_reachable s"
| step: "kernel_reachable s \<Longrightarrow> kernel_step s s' \<Longrightarrow> kernel_reachable s'"

section \<open>The invariant\<close>

lemma boot_tabs:
  assumes "procs s = replicate NPROC unused_proc" "tTable s = replicate NPROC (replicate NTHREAD unused_thread)"
    "files s = replicate NFILE closed_file"
  shows "tabs_ok {#} {} (tables s)"
proof -
  have v: "tables s = \<lparr>trefs = replicate NFILE 0, tofile = replicate NPROC (replicate NOFILE None), tpst = replicate NPROC UNUSED,
      tthr = replicate NPROC None, tst = replicate NPROC (replicate NTHREAD UNUSED)\<rparr>"
    using assms by (simp add: tables_def unused_proc_def unused_thread_def closed_file_def)
  have "count_list (replicate n (None :: nat option)) (Some f) = 0" for n f by (simp add: count_list_0_iff)
  then have "fdcount (tables s) f = 0" for f by (simp add: v fdcount_def)
  then show ?thesis unfolding tabs_defs by (auto simp: v dead_def)
qed

lemma active_running: "active cp ct s \<Longrightarrow> tabs_ok H X (tables s) \<Longrightarrow> running cp (tables s) \<and> ct < NTHREAD"
  by (auto simp: active_def running_def dead_def simp flip: ok_sel(5))

lemma kernel_step_tabs: "kernel_step s s' \<Longrightarrow> tabs_ok {#} {} (tables s) \<Longrightarrow> tabs_ok {#} {} (tables s')"
proof (induction rule: kernel_step.induct)
  case (first_process dt trapret forkret_pc code sz s s')
  then show ?case by (auto intro: userinit_tabs)
next
  case (dispatch p s r t s')
  then have "r = p" "tables s' = tables s" using threads_of_row(1) [OF _ tabs_ok_shape] switchuvm_tables by blast+
  then show ?case using dispatch by (intro set_thread_tabs) (auto simp: dead_def)
next
  case (entry cp ct s L cpu cr2 dump tf r s')
  then show ?case using trap_tabs [OF entry(2)] active_running by blast
next
  case (idle L cpu cr2 dump tf s r s')
  then show ?case using trap_tabs [OF idle(1)] by blast
next
  case (suspend cp ct s ch s')
  then show ?case using sleep_tabs [OF suspend(2)] by (auto simp: active_def)
next
  case (resume cp ct s)
  then show ?case by (simp add: awake_def the_thread_def tables_set_thread)
next
  case (resumed cp ct s L f r s')
  then obtain a where "exit_if_killed (l_end L) (Some (cp, ct)) f s = Ok (a, s')" by (auto simp: trap_resumed_def)
  from exit_if_killed_tabs [OF this resumed(3)] show ?case using resumed(1) by (simp add: active_def)
next
  case (wake ch s s')
  then show ?case using wakeup1_tabs by (simp add: wakeup_def)
next
  case (first_run s s')
  then show ?case by (auto simp: forkret_def split: if_splits dest!: same_fs)
qed simp

lemma kernel_reachable_tabs: "kernel_reachable s \<Longrightarrow> tabs_ok {#} {} (tables s)"
  by (induction rule: kernel_reachable.induct) (auto intro: boot_tabs kernel_step_tabs)

section \<open>What it says\<close>

text \<open>C9: In every reachable state the tables have their sizes and all indices are in range: each process has \<open>NOFILE\<close>
  descriptors, and each of these is free or names an open file of the table; \<open>p->threads\<close> is null or the row of the
  process's own threads, of which there are \<open>NTHREAD\<close>.\<close>

theorem kernel_types:
  assumes "kernel_reachable s"
  shows "length (procs s) = NPROC \<and> length (tTable s) = NPROC \<and> length (files s) = NFILE \<and>
    (\<forall>p < NPROC. length (ofile (procs s ! p)) = NOFILE \<and> (\<forall>f. Some f \<in> set (ofile (procs s ! p)) \<longrightarrow> f < NFILE) \<and>
       threads (procs s ! p) \<in> {None, Some p} \<and> length (tTable s ! p) = NTHREAD)"
proof -
  note ok = kernel_reachable_tabs [OF assms]
  have "length (tofile (tables s) ! p) = NOFILE \<and> (\<forall>f. Some f \<in> set (tofile (tables s) ! p) \<longrightarrow> f < NFILE) \<and>
      tthr (tables s) ! p \<in> {None, Some p}" if "p < NPROC" for p
    using tabs_ok_shape [OF ok] that unfolding shape_def by blast
  then show ?thesis using ok_sel [OF ok] ok_rows [OF ok] by simp
qed

lemma sys_boot_reachable: "kernel_reachable sys_boot"
  by (rule kernel_reachable.boot) (simp_all add: sys_boot_def)

theorem kernel_types_witness: "kernel_reachable sys_boot \<and> length (procs sys_boot) = NPROC \<and> length (files sys_boot) = NFILE"
  using kernel_types [OF sys_boot_reachable] sys_boot_reachable by blast

text \<open>The number of descriptors as a number of pairs.\<close>

lemma count_list_card: "count_list xs y = card {i. i < length xs \<and> xs ! i = y}"
  by (simp add: count_list_eq_length_filter length_filter_conv_card eq_commute)

lemma fdcount_card:
  assumes "shape (tables s)"
  shows "fdcount (tables s) f = card {(p, fd). p < NPROC \<and> fd < NOFILE \<and> ofile (procs s ! p) ! fd = Some f}"
proof -
  have "fdcount (tables s) f = (\<Sum>p < NPROC. count_list (tofile (tables s) ! p) (Some f))"
    using assms unfolding fdcount_def by (simp add: sum_list_sum_nth shape_def atLeast0LessThan)
  also have "\<dots> = (\<Sum>p < NPROC. card {fd. fd < NOFILE \<and> ofile (procs s ! p) ! fd = Some f})"
    using assms by (intro sum.cong refl) (simp add: count_list_card tables_sel shape_def)
  also have "\<dots> = card (SIGMA p:{..<NPROC}. {fd. fd < NOFILE \<and> ofile (procs s ! p) ! fd = Some f})"
    by (simp add: card_SigmaI)
  also have "(SIGMA p:{..<NPROC}. {fd. fd < NOFILE \<and> ofile (procs s ! p) ! fd = Some f}) =
      {(p, fd). p < NPROC \<and> fd < NOFILE \<and> ofile (procs s ! p) ! fd = Some f}" by auto
  finally show ?thesis .
qed



end
