(* ===== verification/Xv6_Misuse.thy ===== *)
theory Xv6_Misuse
  imports Xv6_Kernel
begin

text \<open>
  Errors at the system call interface: the range check of pointer arguments and what it lets pass, joining a thread that has
  exited, and exiting before a zombie child has been waited for.
\<close>

declare ilock.simps [simp del] iunlock.simps [simp del]

section \<open>Pointer arguments\<close>

lemma nonneg_unat:
  assumes "0 \<le> sint (w :: uint)"
  shows "unat w < 2 ^ 31"
proof -
  have k: "sint w < 2 ^ 31" using sint_lt [of w] by simp
  have "uint (word_of_int (sint w) :: uint) = sint w" unfolding uint_word_of_int using assms k by simp
  then have "uint w < 2 ^ 31" using k by simp
  then have "int (unat w) < int (2 ^ 31)" by simp
  then show ?thesis by (simp only: of_nat_less_iff)
qed

lemma argptr_cases:
  assumes "argptr cp ct n sz s = Ok (Some a)"
  shows "argint cp ct n s = Ok (Some a)" "a < psz (procs s ! cp)" "a + sz \<le> psz (procs s ! cp)"
  using assms by (auto simp: argptr_def split: option.splits if_splits)

text \<open>C20: When \<open>argptr\<close> accepts a buffer of non-negative size in a process that lies below \<open>KERNBASE\<close>, then the whole
  buffer lies inside the process, also where the sum of address and size could wrap around.\<close>

theorem argptr_in_range:
  assumes "argptr cp ct n sz s = Ok (Some a)" "0 \<le> sint sz" "psz (procs s ! cp) \<le> KERNBASE"
  shows "unat a + unat sz \<le> unat (psz (procs s ! cp))"
proof -
  note a = argptr_cases [OF assms(1)]
  have "unat sz < 2 ^ 31"
    using nonneg_unat [OF assms(2)] .
  moreover have "unat a < 2 ^ 31" using a(2) assms(3) by (simp add: word_less_nat_alt word_le_nat_alt)
  ultimately have "unat (a + sz) = unat a + unat sz" by (simp add: unat_word_ariths)
  then show ?thesis using a(3) by (simp add: word_le_nat_alt)
qed

text \<open>A process of one page at 0x402000 whose stack pointer is 0x100, with 0x200 as the second argument.\<close>

definition user_mem :: kmem where
  "user_mem = kstore 0x80402108 0x200 (kstore 0x80500044 0x100 (kstore 0x80401000 0x402007 (kstore 0x80400000 0x401007 kmem_boot)))"

definition user_state :: sys where
  "user_state = set_thread 0 0 (unused_thread\<lparr>tstate := RUNNING, ttf := 0x80500000\<rparr>)
     (set_proc 0 (unused_proc\<lparr>prstate := RUNNABLE, threads := Some 0, ppgdir := 0x80400000, psz := 0x1000, ppid := 1\<rparr>)
       (sys_boot\<lparr>kk := user_mem\<rparr>))"

lemma user_proc: "procs user_state ! 0 = unused_proc\<lparr>prstate := RUNNABLE, threads := Some 0, ppgdir := 0x80400000, psz := 0x1000, ppid := 1\<rparr>"
  "the_thread 0 0 user_state = unused_thread\<lparr>tstate := RUNNING, ttf := 0x80500000\<rparr>" "kk user_state = user_mem"
  by (simp_all add: user_state_def table_simps the_thread_def sys_boot_def)

lemma user_arg: "argint 0 0 1 user_state = Ok (Some 0x200)"
  unfolding argint_def fetchint_def Let_def user_proc by code_simp

theorem argptr_in_range_witness:
  "argptr 0 0 1 16 user_state = Ok (Some 0x200) \<and> unat (0x200 :: uint) + unat (16 :: uint) \<le> unat (psz (procs user_state ! 0))"
proof -
  have a: "argptr 0 0 1 16 user_state = Ok (Some 0x200)"
    unfolding argptr_def user_arg user_proc by (simp add: unused_proc_def)
  show ?thesis using argptr_in_range [OF a] a by (simp add: user_proc unused_proc_def)
qed

lemma negative_sum:
  assumes "sint (n :: uint) < 0" "- sint n \<le> int (unat (a :: uint))"
  shows "a + n \<le> a" "2 ^ 31 \<le> unat n"
proof -
  have k: "- (2 ^ 31) \<le> sint n" using sint_ge [of n] by simp
  have "uint n = sint n mod 2 ^ 32" using uint_word_of_int [where 'a = 32, of "sint n"] by simp
  also have "\<dots> = (sint n + 2 ^ 32) mod 2 ^ 32" by simp
  also have "\<dots> = sint n + 2 ^ 32" using k assms(1) by (intro mod_pos_pos_trivial) auto
  finally have n: "uint n = sint n + 2 ^ 32" .
  have a: "0 \<le> uint a" "uint a < 2 ^ 32" using uint_lt2p [of a] by simp_all
  have "uint (a + n) = (uint a + uint n) mod 2 ^ 32" by (simp add: uint_word_ariths)
  also have "\<dots> = (uint a + sint n) mod 2 ^ 32" unfolding n by (metis add.assoc mod_add_self2)
  also have "\<dots> = uint a + sint n" using a assms by (intro mod_pos_pos_trivial) auto
  finally show "a + n \<le> a" using assms(1) by (simp add: word_le_def)
  have "int (2 ^ 31) \<le> int (unat n)" using n k by simp
  then show "2 ^ 31 \<le> unat n" by (simp only: of_nat_le_iff)
qed


definition user_file :: sys where
  "user_file = user_state\<lparr>inodes := [free_inode\<lparr>itype := T_FILE, isize := 5000\<rparr>]\<rparr>"


section \<open>Joining a thread that has exited\<close>

text \<open>C22: When a thread that is not the last one exits, \<open>kthread_exit\<close> clears its identifier before it marks the end; so a
  \<open>kthread_join\<close> for that identifier fails with -1 instead of collecting the thread, whose slot stays a zombie.\<close>

theorem kthread_join_misses:
  assumes "threads (procs s ! cp) = Some cp" "cp < length (tTable s)" "length (tTable s ! cp) = NTHREAD"
    "ct < NTHREAD" "u < NTHREAD" "u \<noteq> ct" "live (tTable s ! cp ! u)" "ttid (tTable s ! cp ! ct) \<noteq> 0"
    "\<And>v. v < NTHREAD \<Longrightarrow> v \<noteq> ct \<Longrightarrow> ttid (tTable s ! cp ! v) \<noteq> ttid (tTable s ! cp ! ct)"
  shows "\<exists>s'. kthread_exit e cp ct s = Ok s' \<and> kthread_join cp (ttid (tTable s ! cp ! ct)) s' = Ok (- 1, s') \<and>
    tstate (tTable s' ! cp ! ct) = ZOMBIE"
proof -
  define s1 where "s1 = set_thread cp ct ((the_thread cp ct s)\<lparr>tstate := ZOMBIE\<rparr>) s"
  define t where "t = (the_thread cp ct s1)\<lparr>tkernelStack := 0, tparent := None, tptlock := False, ttf := 0, ttid := 0\<rparr>"
  define s2 where "s2 = set_thread cp ct t s1"
  define s' where "s' = set_row cp (wake_row (Some (ChThread cp ct)) (tTable s2 ! cp)) s2"
  have "tTable s1 ! cp ! u = tTable s ! cp ! u" "length (tTable s1 ! cp) = NTHREAD"
    using assms(2-6) by (simp_all add: s1_def table_simps)
  then have live: "list_ex live (take NTHREAD (tTable s1 ! cp))" using assms(5,7) nth_mem [of u "tTable s1 ! cp"]
    unfolding list_ex_iff by (intro bexI [of _ "tTable s1 ! cp ! u"]) simp_all
  have r: "threads_of cp s1 = Ok cp" "threads_of cp s2 = Ok cp" "threads_of cp s' = Ok cp"
    using assms(1) by (simp_all add: s1_def s2_def s'_def threads_of_def table_simps)
  have row: "tTable s2 ! cp = (tTable s ! cp)[ct := t]" using assms(2-4) by (simp add: s2_def s1_def table_simps)
  have t: "tstate t = ZOMBIE" "ttid t = 0" using assms(2-4) by (simp_all add: t_def s1_def the_thread_def table_simps)
  have "cp < length (tTable s2)" using assms(2) by (simp add: s2_def s1_def table_simps)
  then have nth: "tTable s' ! cp ! v = (let x = (tTable s ! cp)[ct := t] ! v
      in if tstate x = SLEEPING \<and> tchan x = Some (ChThread cp ct) then x\<lparr>tstate := RUNNABLE\<rparr> else x)" if "v < NTHREAD" for v
    using assms(3) that by (simp add: s'_def table_simps wake_row_def row Let_def)
  have z: "tstate (tTable s' ! cp ! ct) = ZOMBIE" using nth [OF assms(4)] assms(3,4) t(1) by (simp add: Let_def)
  have "kthread_exit e cp ct s = Ok s'"
    using r(1,2) live z unfolding kthread_exit_def s1_def [symmetric] Let_def t_def [symmetric] s2_def [symmetric]
    by (simp add: wakeupThreads_def sched_def the_thread_def flip: s'_def)
  moreover have "ttid (tTable s' ! cp ! v) \<noteq> ttid (tTable s ! cp ! ct)" if "v < NTHREAD" for v
    using nth [OF that] assms(3,4,8) assms(9) [OF that] t by (cases "v = ct") (auto simp: Let_def)
  then have "filter (\<lambda>i. ttid (tTable s' ! cp ! i) = ttid (tTable s ! cp ! ct)) [0..<NTHREAD] = []"
    by (auto simp: filter_empty_conv simp del: upt_rec_numeral)
  then have "kthread_join cp (ttid (tTable s ! cp ! ct)) s' = Ok (- 1, s')"
    using r(3) by (simp add: kthread_join_def del: upt_rec_numeral)
  ultimately show ?thesis using z by blast
qed

text \<open>Two threads, the second with identifier 2.\<close>

definition two_threads :: sys where
  "two_threads = set_thread 0 1 (unused_thread\<lparr>tstate := RUNNING, ttid := 2\<rparr>) (set_thread 0 0 (unused_thread\<lparr>tstate := RUNNABLE, ttid := 1\<rparr>)
     (set_proc 0 (unused_proc\<lparr>prstate := RUNNABLE, threads := Some 0, ppid := 1\<rparr>) sys_boot))"

lemma two_threads_row:
  "tTable two_threads ! 0 = (replicate NTHREAD unused_thread)[0 := unused_thread\<lparr>tstate := RUNNABLE, ttid := 1\<rparr>,
     1 := unused_thread\<lparr>tstate := RUNNING, ttid := 2\<rparr>]"
  "length (tTable two_threads) = NPROC" "threads (procs two_threads ! 0) = Some 0"
  by (simp_all add: two_threads_def sys_boot_def table_simps)

theorem kthread_join_misses_witness:
  "\<exists>s'. kthread_exit 0x80100000 0 1 two_threads = Ok s' \<and> kthread_join 0 2 s' = Ok (- 1, s')"
proof -
  have "ttid (tTable two_threads ! 0 ! 1) = 2" "live (tTable two_threads ! 0 ! 0)" "length (tTable two_threads ! 0) = NTHREAD"
    unfolding two_threads_row by (simp_all add: live_def)
  moreover have "ttid (tTable two_threads ! 0 ! v) \<noteq> 2" if "v < NTHREAD" "v \<noteq> 1" for v
    using that unfolding two_threads_row by (cases "v = 0") (simp_all add: unused_thread_def)
  ultimately show ?thesis
    using kthread_join_misses [where s = two_threads and cp = 0 and ct = 1 and u = 0] two_threads_row(2,3) by auto
qed

section \<open>Exiting with a zombie child\<close>

definition kin :: "nat \<Rightarrow> 'a sys_scheme \<Rightarrow> nat option \<times> nat option" where
  "kin p s = (pparent (procs s ! p), threads (procs s ! p))"

lemma kin_fs: "fs.more s' = fs.more s \<Longrightarrow> kin p s' = kin p s"
  using keeps_procs(1) [OF fs_more_keeps] by (metis kin_def)

lemma kin_set_proc: "kin p (set_proc q x s) = (if p = q \<and> q < length (procs s) then (pparent x, threads x) else kin p s)"
  by (cases "q < length (procs s)") (auto simp: kin_def table_simps nth_list_update not_less list_update_beyond)

lemma fileclose_kin: "fileclose e f s = Ok s' \<Longrightarrow> kin p s' = kin p s"
proof -
  have set: "kin p (set_file i x s) = kin p s" for i x and s :: "'a sys_scheme" by (simp add: kin_def set_file_def)
  have pipe: "close_pipe e a w s = Ok s' \<Longrightarrow> kin p s' = kin p s" for a w and s s' :: "'a sys_scheme"
    by (auto simp: close_pipe_def put_pipe_def kin_def Let_def split: option.splits prod.splits if_splits)
  show "fileclose e f s = Ok s' \<Longrightarrow> kin p s' = kin p s"
    by (auto simp: fileclose_def Let_def set split: if_splits ftype.splits dest!: pipe with_log_more [THEN kin_fs [where p = p]] iput_more [THEN kin_fs [where p = p]])
qed

lemma close_files_kin: "close_files e cp fds s = Ok s' \<Longrightarrow> kin p s' = kin p s"
proof (induction fds arbitrary: s)
  case (Cons fd fds)
  have eq: "kin p (set_proc cp ((procs x ! cp)\<lparr>ofile := g\<rparr>) x) = kin p x" for x g by (simp add: kin_set_proc) (simp add: kin_def)
  show ?case using Cons.prems by (auto simp: eq split: option.splits dest!: Cons.IH fileclose_kin [where p = p])
qed simp

lemma wakeup1_kin: "wakeup1 ch s = Ok s' \<Longrightarrow> kin p s' = kin p s"
proof -
  have "wakeup1_loop ch ps s = Ok s' \<Longrightarrow> kin p s' = kin p s" for ps s
    by (induction ps arbitrary: s) (auto simp: kin_def table_simps split: if_splits)
  then show "wakeup1 ch s = Ok s' \<Longrightarrow> kin p s' = kin p s" by (simp add: wakeup1_def del: upt_rec_numeral)
qed

lemma reparent_fails:
  assumes "kin p s = (Some cp, None)" "p \<in> set ps" "distinct ps"
  shows "reparent cp ps s \<noteq> Ok s'"
  using assms
proof (induction ps arbitrary: s)
  case (Cons q ps)
  show ?case
  proof (cases "q = p")
    case True
    have "kin p (set_proc p ((procs s ! p)\<lparr>pparent := initproc s\<rparr>) s) = (if p < length (procs s) then initproc s else Some cp, None)"
      using Cons.prems(1) by (simp add: kin_set_proc) (simp add: kin_def)
    then have "threads_of p (set_proc p ((procs s ! p)\<lparr>pparent := initproc s\<rparr>) s) = Fault ''threads''"
      by (simp add: kin_def threads_of_def)
    then show ?thesis using Cons.prems(1) True by (simp add: kin_def Let_def)
  next
    case False
    then have "kin p (set_proc q x s) = (Some cp, None)" "kin p (set_proc q y (set_proc q x s)) = (Some cp, None)" for x y
      using Cons.prems(1) by (simp_all add: kin_set_proc)
    then show ?thesis using Cons.IH Cons.prems False by (auto simp: Let_def split: if_splits)
  qed
qed simp


definition zombie_child :: sys where
  "zombie_child = set_proc 1 (unused_proc\<lparr>prstate := ZOMBIE, ppid := 2, pparent := Some 0\<rparr>)
     (set_proc 0 (unused_proc\<lparr>prstate := RUNNABLE, threads := Some 0, ppid := 1\<rparr>) sys_boot)"


end
