(* ===== verification/Spec2Isabelle.thy ===== *)
theory Spec2Isabelle
  imports Xv6_String Xv6_Spinlock Xv6_Kalloc Xv6_Dll Xv6_Bio Xv6_Bytes Xv6_Log Xv6_Ring Xv6_Pipe Xv6_Grep Xv6_Ulib Xv6_Console Xv6_Pages Xv6_Vm Xv6_Paging Xv6_Fork_Vm Xv6_Fs Xv6_Txn Xv6_Balloc Xv6_Files Xv6_Names Xv6_File Xv6_Proc Xv6_Exec Xv6_Syscall Xv6_Sched Xv6_Frame Xv6_Tables Xv6_Calls Xv6_Kernel Xv6_Reach Xv6_Misuse
begin

text \<open>
  Verification of xv6 for x86 with kernel threads (the C sources under \<^verbatim>\<open>src/\<close>).

  \<^bold>\<open>The program.\<close> A monolithic kernel and a few user programs. From the bottom: spinlocks (\<^verbatim>\<open>spinlock.c\<close>), the page
  allocator (\<^verbatim>\<open>kalloc.c\<close>) and page tables (\<^verbatim>\<open>vm.c\<close>); a disk (\<^verbatim>\<open>memide.c\<close>) under the buffer cache (\<^verbatim>\<open>bio.c\<close>), the
  redo log (\<^verbatim>\<open>log.c\<close>), inodes, directories and paths (\<^verbatim>\<open>fs.c\<close>); open files and pipes (\<^verbatim>\<open>file.c\<close>, \<^verbatim>\<open>pipe.c\<close>) and the
  console with its keyboard and serial port (\<^verbatim>\<open>console.c\<close>, \<^verbatim>\<open>kbd.c\<close>, \<^verbatim>\<open>uart.c\<close>); processes with up to 16 threads each
  (\<^verbatim>\<open>proc.c\<close>, \<^verbatim>\<open>kthread.c\<close>), \<^verbatim>\<open>exec.c\<close>, and the entry through \<^verbatim>\<open>trap.c\<close>, \<^verbatim>\<open>syscall.c\<close>, \<^verbatim>\<open>sysfile.c\<close> and \<^verbatim>\<open>sysproc.c\<close>.

  \<^bold>\<open>How it is modelled.\<close> Each C routine is a function on the state it reads and writes; each struct is a record with the
  fields of the source. A routine returns \<open>Ok\<close>, \<open>Panic\<close> with the message, \<open>Fault\<close> for an access through a null pointer
  or a signed overflow, or \<open>Sleep\<close> with the channel (\<open>res\<close>, \<open>rbind\<close> in \<open>Xv6_Prelude\<close>). A table entry is named by
  its index. Sections under a lock are atomic; the interleaving inside \<open>acquire\<close> and \<open>release\<close> is modelled step by step in
  \<open>Xv6_Spinlock\<close>. A system call that has to sleep gives \<open>Sleep\<close> and is run again from its beginning when it wakes
  up; a pipe transfer stops with the bytes that are left. Wakeups are recorded in lists (\<open>bwakes\<close>, \<open>lwakes\<close>, \<open>fwakes\<close>,
  \<open>pwakes\<close>). The states are nested as the layers are: \<open>bcache\<close> in \<open>logsys\<close> in \<open>fs\<close>, which the record \<open>kern\<close> extends by
  the page allocator, files, pipes and console, and \<open>sys\<close> by the tables of processes and threads.

  \<^bold>\<open>The theories.\<close>
  \<^item> \<open>Xv6_Prelude\<close>, \<open>Xv6_Bytes\<close>, \<open>Xv6_Pages\<close>, \<open>Xv6_Dll\<close>, \<open>Xv6_Ring\<close>: types, outcomes, byte layout, pages, doubly linked
    lists and ring buffers that the others share.
  \<^item> \<open>Xv6_String\<close> (\<^verbatim>\<open>string.c\<close>), \<open>Xv6_Spinlock\<close> (\<^verbatim>\<open>spinlock.c\<close>), \<open>Xv6_Kalloc\<close> (\<^verbatim>\<open>kalloc.c\<close>): the memory routines against
    their specification with overlap and wrap-around; mutual exclusion and interrupt nesting over all interleavings; no page
    is handed out twice.
  \<^item> \<open>Xv6_Bio\<close> (\<^verbatim>\<open>bio.c\<close>, \<^verbatim>\<open>memide.c\<close>), \<open>Xv6_Log\<close> (\<^verbatim>\<open>log.c\<close>): the cache has one current copy of a block and evicts the
    least recently used; a crash at any write of a commit leaves all of the transaction or nothing after recovery;
    \<open>begin_op\<close> never lets the log overflow, and where the on-disk log is too short for that.
  \<^item> \<open>Xv6_Fs\<close> (\<^verbatim>\<open>fs.c\<close>, \<^verbatim>\<open>fs.h\<close>) with \<open>Xv6_Txn\<close>, \<open>Xv6_Balloc\<close>, \<open>Xv6_Files\<close>, \<open>Xv6_Names\<close>: what a transaction gives to the file
    system; allocating and freeing blocks; \<open>writei\<close> and \<open>readi\<close> on the bytes of a file; paths by their elements; the
    reference counts of the inode cache.
  \<^item> \<open>Xv6_Pipe\<close> (\<^verbatim>\<open>pipe.c\<close>), \<open>Xv6_Console\<close> (\<^verbatim>\<open>console.c\<close>, \<^verbatim>\<open>kbd.c\<close>, \<^verbatim>\<open>uart.c\<close>): a pipe is a queue across sleeping calls; the
    line discipline delivers the edited lines; the screen stays inside its memory.
  \<^item> \<open>Xv6_Vm\<close>, \<open>Xv6_Paging\<close>, \<open>Xv6_Fork_Vm\<close> (\<^verbatim>\<open>vm.c\<close>): page tables in byte memory; the kernel mapping; a forked child has the
    same bytes at other pages; failures that \<open>allocuvm\<close> and \<open>copyout\<close> do not handle.
  \<^item> \<open>Xv6_File\<close> (\<^verbatim>\<open>file.c\<close>), \<open>Xv6_Proc\<close> (\<^verbatim>\<open>proc.c\<close>, \<^verbatim>\<open>kthread.c\<close>), \<open>Xv6_Exec\<close> (\<^verbatim>\<open>exec.c\<close>, \<^verbatim>\<open>elf.h\<close>), \<open>Xv6_Syscall\<close> (\<^verbatim>\<open>syscall.c\<close>,
    \<^verbatim>\<open>sysfile.c\<close>, \<^verbatim>\<open>sysproc.c\<close>, \<^verbatim>\<open>trap.c\<close>): the definitions of the upper half of the kernel.
  \<^item> \<open>Xv6_Sched\<close>: a pass of the scheduler runs every thread that waits.
  \<^item> \<open>Xv6_Frame\<close>, \<open>Xv6_Tables\<close>, \<open>Xv6_Calls\<close>, \<open>Xv6_Kernel\<close>, \<open>Xv6_Reach\<close>: what each routine leaves alone; the invariant of the
    tables and its preservation by every system call and by \<open>trap\<close>; in every reachable state reference counts are numbers
    of descriptors and all indices are in range.
  \<^item> \<open>Xv6_Misuse\<close>: the range check of pointer arguments, what it lets pass, and errors in \<open>kthread_exit\<close> and \<open>exit\<close>.
  \<^item> \<open>Xv6_Ulib\<close> (\<^verbatim>\<open>ulib.c\<close>, \<^verbatim>\<open>printf.c\<close>, \<^verbatim>\<open>wc.c\<close>, \<^verbatim>\<open>cat.c\<close>, \<^verbatim>\<open>echo.c\<close>), \<open>Xv6_Grep\<close> (\<^verbatim>\<open>grep.c\<close>): numbers printed and read
    back, word counts against a reference, the pattern matcher against the language of its pattern, and how \<open>grep\<close> handles
    lines that are split over reads.

  \<^bold>\<open>Interfaces.\<close> The locales \<open>block_cache\<close> (interpreted on \<open>bread\<close>, \<open>bwrite\<close>, \<open>brelse\<close>), \<open>page_allocator\<close> (\<open>kalloc\<close>,
  \<open>kfree\<close>), \<open>ring_buffer\<close> (the pipe and the console input) and \<open>transaction\<close> (blocks under the log) state what a layer
  promises to the one above; the clients' lemmas are proved from them.

  \<^bold>\<open>Loops.\<close> Loops over tables recurse over the list of indices. The loops over pages take fuel: \<open>mappages\<close> the number of
  pages between the first and the last one, \<open>allocuvm\<close>, \<open>copyuvm\<close> and \<open>loaduvm\<close> one more than the size in pages, \<open>deallocuvm\<close> the
  pages below the old size. Each step goes on by a page, so the fuel is enough
  unless the address wraps around, where the code does not stop either; running out is \<open>Fault\<close>, and the theorems on \<open>mappages\<close>,
  \<open>setupkvm\<close> and \<open>copyuvm\<close> show \<open>Ok\<close>. Walks along a C string or a linked list, which need not end, are
  partial functions whose \<open>None\<close> is an endless walk.

  \<^bold>\<open>Parameters.\<close> Addresses that the linker fixes (\<open>end\<close>, \<open>data\<close>, \<open>trapret\<close>, \<open>forkret\<close>, the place of \<open>initcode\<close>) and
  what a thread does while it runs in user mode.

  \<^bold>\<open>Not modelled.\<close> Assembly (\<^verbatim>\<open>bootasm.S\<close>, \<^verbatim>\<open>entry.S\<close>, \<^verbatim>\<open>swtch.S\<close>, \<^verbatim>\<open>trapasm.S\<close> and the generated \<^verbatim>\<open>vectors.S\<close>) and the boot
  loader; device programming through ports and mapped registers (\<^verbatim>\<open>ide.c\<close>, \<^verbatim>\<open>lapic.c\<close>, \<^verbatim>\<open>ioapic.c\<close>, \<^verbatim>\<open>picirq.c\<close>, \<^verbatim>\<open>timer.c\<close>,
  \<open>uartinit\<close>) and the start of the other processors (\<^verbatim>\<open>mp.c\<close>, \<^verbatim>\<open>main.c\<close>), whose effect is on hardware that the sources
  do not describe; segment and interrupt descriptors (\<open>seginit\<close>, \<open>tvinit\<close>); the shell \<^verbatim>\<open>sh.c\<close>, the user
  allocator \<^verbatim>\<open>umalloc.c\<close> and the host program \<^verbatim>\<open>mkfs.c\<close>, on which no part of the kernel depends, and the user programs that only
  pass their arguments to a system call; the test programs; the
  headers of condition variables, which declare functions that have no code. A process whose threads run on several
  processors at once is outside the model of \<open>exit\<close>, which marks all of them as ended in one step.
\<close>

end
